(* ===== verification/Prelude.thy ===== *)
theory Prelude
  imports Main "HOL-Library.Word" "HOL-Library.Monad_Syntax"
begin

text \<open>
  Shared vocabulary of the development: the C integer types at their width, the pointer
  type, the collections of facts the component theories add to, and the generic lemmas on
  words, maps, lists and options that more than one component needs.

  A C pointer is an \<open>int\<close> address; \<open>NULL\<close> is 0. Code that is undefined on some input (a
  dereference of an address at which no object lives, a write past the end of an array, a
  loop that does not end) returns \<open>None\<close>; a function that is defined returns \<open>Some\<close>.
\<close>

type_synonym u8 = "8 word"
type_synonym u16 = "16 word"
type_synonym u32 = "32 word"
type_synonym s8 = int
type_synonym ptr = int

abbreviation (input) NULL :: ptr where "NULL \<equiv> 0"

named_theorems step_simps \<open>equations that run a step of a component\<close>
named_theorems inv_intros \<open>preservation lemmas of the component invariants\<close>

subsection \<open>Words\<close>

lemma unat_of_nat_u16: "unat (of_nat n :: u16) = n mod 65536"
  by (simp add: unat_of_nat)

lemma unat_of_nat_u32: "unat (of_nat n :: u32) = n mod 4294967296"
  by (simp add: unat_of_nat)

lemma unat_of_nat_u8: "unat (of_nat n :: u8) = n mod 256"
  by (simp add: unat_of_nat)

lemma unat_u8_less [simp]: "unat (x :: u8) < 256"
  using unsigned_less [of x] by simp

lemma unat_u16_less [simp]: "unat (x :: u16) < 65536"
  using unsigned_less [of x] by simp

lemma unat_u32_less [simp]: "unat (x :: u32) < 4294967296"
  using unsigned_less [of x] by simp

lemma unat_u16_pos: "(x :: u16) \<noteq> 0 \<longleftrightarrow> 0 < unat x"
  by (simp add: unat_gt_0)

lemma unat_add_one_u16: "unat (x :: u16) + 1 < 65536 \<Longrightarrow> unat (x + 1) = unat x + 1"
  by (simp add: unat_word_ariths)

lemma unat_add_u32: "unat (x :: u32) + unat y < 4294967296 \<Longrightarrow> unat (x + y) = unat x + unat y"
  by (simp add: unat_word_ariths)

lemma unat_add_u16: "unat (x :: u16) + unat y < 65536 \<Longrightarrow> unat (x + y) = unat x + unat y"
  by (simp add: unat_word_ariths)

lemma u32_div_unat: "unat ((x :: u32) div y) = unat x div unat y"
  by (simp add: unat_div)

lemma u32_mod_unat: "unat ((x :: u32) mod y) = unat x mod unat y"
  by (simp add: unat_mod)

lemma unat_ucast_u32_u16: "unat (ucast (x :: u32) :: u16) = unat x mod 65536"
  by (simp add: unsigned_ucast_eq take_bit_eq_mod)

lemma unat_ucast_u32_u8: "unat (ucast (x :: u32) :: u8) = unat x mod 256"
  by (simp add: unsigned_ucast_eq take_bit_eq_mod)

lemma unat_ucast_u16_u8: "unat (ucast (x :: u16) :: u8) = unat x mod 256"
  by (simp add: unsigned_ucast_eq take_bit_eq_mod)

lemma unat_ucast_u16_u32: "unat (ucast (x :: u16) :: u32) = unat x"
proof -
  have "unat x < 2 ^ 32" by (rule less_trans [OF unat_u16_less]) simp
  then show ?thesis by (simp add: unsigned_ucast_eq take_bit_nat_eq_self)
qed

lemma unat_ucast_u8_u32: "unat (ucast (x :: u8) :: u32) = unat x"
proof -
  have "unat x < 2 ^ 32" by (rule less_trans [OF unat_u8_less]) simp
  then show ?thesis by (simp add: unsigned_ucast_eq take_bit_nat_eq_self)
qed

lemma unat_ucast_u8_u16: "unat (ucast (x :: u8) :: u16) = unat x"
proof -
  have "unat x < 2 ^ 16" by (rule less_trans [OF unat_u8_less]) simp
  then show ?thesis by (simp add: unsigned_ucast_eq take_bit_nat_eq_self)
qed

subsection \<open>Lists as arrays\<close>

text \<open>
  \<open>write_range xs i n v\<close> is the loop \<open>for(j=0;j<n;j++) xs[i+j]=v\<close>: undefined when it
  leaves the array.
\<close>

fun write_range :: "'a list \<Rightarrow> nat \<Rightarrow> nat \<Rightarrow> 'a \<Rightarrow> 'a list option" where
  "write_range xs i 0 v = Some xs"
| "write_range xs i (Suc n) v =
     (if i < length xs then write_range (xs[i := v]) (Suc i) n v else None)"

lemma write_range_block:
  "i + n \<le> length xs \<Longrightarrow>
   write_range xs i n v = Some (take i xs @ replicate n v @ drop (i + n) xs)"
proof (induction n arbitrary: xs i)
  case 0
  then show ?case by simp
next
  case (Suc n)
  then have "write_range (xs[i := v]) (Suc i) n v
      = Some (take (Suc i) (xs[i := v]) @ replicate n v @ drop (Suc i + n) (xs[i := v]))"
    by simp
  with Suc.prems show ?case
    by (simp add: take_Suc_conv_app_nth)
qed

lemma write_range_overrun: "length xs < i + n \<Longrightarrow> 0 < n \<Longrightarrow> write_range xs i n v = None"
proof (induction n arbitrary: xs i)
  case 0
  then show ?case by simp
next
  case (Suc n)
  then have "write_range (xs[i := v]) (Suc i) n v = None" if "i < length xs"
    using Suc.IH [of "xs[i := v]" "Suc i"] that by simp
  then show ?case by simp
qed

lemma length_write_range: "write_range xs i n v = Some ys \<Longrightarrow> length ys = length xs"
  by (induction n arbitrary: xs i) (fastforce split: if_splits)+

end
