(* ===== verification/Linked_List.thy ===== *)
theory Linked_List
  imports Prelude
begin

text \<open>
  Model of SYSTEM/container/linked_list.c: an intrusive, circular, doubly linked list.
  \<open>PtrDomain\<close> is the record \<open>PtrDomain\<close>; the memory holds a \<open>PtrDomain\<close> at the address of
  every node and of every head (a \<open>HeadNode\<close> starts with its \<open>PtrDomain\<close>, so the cast
  \<open>(PtrDomain*)head\<close> is the identity on addresses) and the \<open>len\<close> field at the address of
  every head. A read or write through an address with no object is \<open>None\<close>.
  Lemmas: the ring invariant \<open>ring\<close>, its preservation by append and remove, and the
  refinement of the sequence interface \<open>sequence\<close> by the ring.
\<close>

subsection \<open>Data and operations\<close>

record PtrDomain =
  prev :: ptr
  nxt :: ptr

record list_mem =
  nodes :: "ptr \<rightharpoonup> PtrDomain"
  lens :: "ptr \<rightharpoonup> u32"   \<comment> \<open>\<open>int len\<close>, read as signed by \<open>sint\<close>\<close>

definition set_prev :: "ptr \<Rightarrow> ptr \<Rightarrow> list_mem \<Rightarrow> list_mem option" where
  "set_prev p v s = (case nodes s p of None \<Rightarrow> None
     | Some d \<Rightarrow> Some (s\<lparr>nodes := (nodes s)(p \<mapsto> d\<lparr>prev := v\<rparr>)\<rparr>))"

definition set_next :: "ptr \<Rightarrow> ptr \<Rightarrow> list_mem \<Rightarrow> list_mem option" where
  "set_next p v s = (case nodes s p of None \<Rightarrow> None
     | Some d \<Rightarrow> Some (s\<lparr>nodes := (nodes s)(p \<mapsto> d\<lparr>nxt := v\<rparr>)\<rparr>))"

definition set_len :: "ptr \<Rightarrow> u32 \<Rightarrow> list_mem \<Rightarrow> list_mem option" where
  "set_len h v s = (case lens s h of None \<Rightarrow> None
     | Some _ \<Rightarrow> Some (s\<lparr>lens := (lens s)(h \<mapsto> v)\<rparr>))"

definition list_init :: "ptr \<Rightarrow> list_mem \<Rightarrow> list_mem option" where
  "list_init head s = do {
     s \<leftarrow> set_prev head head s;
     s \<leftarrow> set_next head head s;
     set_len head 0 s
   }"

definition list_append :: "ptr \<Rightarrow> ptr \<Rightarrow> list_mem \<Rightarrow> list_mem option" where
  "list_append head newNode s = do {
     hd \<leftarrow> nodes s head;
     let rear = prev hd;
     s \<leftarrow> set_next rear newNode s;
     s \<leftarrow> set_prev newNode rear s;
     s \<leftarrow> set_next newNode head s;
     s \<leftarrow> set_prev head newNode s;
     n \<leftarrow> lens s head;
     set_len head (n + 1) s
   }"

definition list_size :: "ptr \<Rightarrow> list_mem \<Rightarrow> u32 option" where
  "list_size head s = lens s head"

text \<open>\<open>list_remove\<close> returns the new memory and the C result (0: nothing removed).\<close>

definition list_remove :: "ptr \<Rightarrow> ptr \<Rightarrow> list_mem \<Rightarrow> (list_mem \<times> u32) option" where
  "list_remove head node s = do {
     nd \<leftarrow> nodes s node;
     let p = prev nd;
     let n = nxt nd;
     l \<leftarrow> lens s head;
     if sint l \<le> 0 then Some (s, 0)
     else if p = node \<and> node = n then Some (s, 0)
     else do {
       s \<leftarrow> set_next p n s;
       s \<leftarrow> set_prev n p s;
       s \<leftarrow> set_next node node s;
       s \<leftarrow> set_prev node node s;
       l \<leftarrow> lens s head;
       s \<leftarrow> set_len head (l - 1) s;
       Some (s, 1)
     }
   }"

text \<open>
  The traversal the client writes,
  \<open>for(node = head->next; node != head; node = node->next)\<close>: the addresses visited, in
  order, as long as the links do not change. A traversal that never comes back to the head
  is \<open>None\<close>.
\<close>

partial_function (option) visit :: "ptr \<Rightarrow> ptr \<Rightarrow> list_mem \<Rightarrow> ptr list option" where
  "visit head p s =
     (if p = head then Some []
      else do { d \<leftarrow> nodes s p; ps \<leftarrow> visit head (nxt d) s; Some (p # ps) })"

subsection \<open>Chains of links\<close>

text \<open>
  \<open>chain f [a, b, c]\<close>: the link \<open>f\<close> leads from a to b and from b to c. The ring of a head
  \<open>h\<close> with the nodes \<open>xs\<close> is a chain of \<open>next\<close> links along \<open>h # xs @ [h]\<close> and one of \<open>prev\<close>
  links along the reversed list.
\<close>

fun chain :: "('a \<rightharpoonup> 'a) \<Rightarrow> 'a list \<Rightarrow> bool" where
  "chain f (a # b # cs) = (f a = Some b \<and> chain f (b # cs))"
| "chain f _ = True"

lemma chain_append: "chain f (xs @ a # ys) \<longleftrightarrow> chain f (xs @ [a]) \<and> chain f (a # ys)"
proof (induction xs)
  case Nil
  then show ?case by simp
next
  case (Cons x xs)
  then show ?case by (cases xs) auto
qed

lemma chain_cong: "(\<And>a. a \<in> set (butlast xs) \<Longrightarrow> f a = g a) \<Longrightarrow> chain f xs = chain g xs"
  by (induction f xs rule: chain.induct) auto

lemma chain_pair: "chain f (xs @ [a, b]) \<longleftrightarrow> chain f (xs @ [a]) \<and> f a = Some b"
  using chain_append [of f xs a "[b]"] by simp

lemma chain_insert_last:
  assumes ch: "chain f (h # xs @ [h])" and d: "distinct (h # xs)" and n: "n \<notin> set (h # xs)"
  shows "chain (f(last (h # xs) \<mapsto> n, n \<mapsto> h)) (h # (xs @ [n]) @ [h])"
proof -
  obtain as r where as: "h # xs = as @ [r]"
    by (metis append_butlast_last_id list.distinct(1))
  have r: "last (h # xs) = r" by (simp add: as)
  have "chain f ((as @ [r]) @ [h])" using ch as by (metis append_Cons)
  then have c: "chain f (as @ [r])" using chain_append [of f as r "[h]"] by simp
  have "r \<notin> set as" and "n \<notin> set as" and "n \<noteq> r" using d n by (auto simp: as)
  then have "chain (f(r \<mapsto> n, n \<mapsto> h)) (as @ [r])"
    using c by (subst chain_cong [where g = f]) auto
  then have "chain (f(r \<mapsto> n, n \<mapsto> h)) ((as @ [r]) @ [n, h])"
    using \<open>n \<noteq> r\<close> chain_append [of "f(r \<mapsto> n, n \<mapsto> h)" as r "[n, h]"] by simp
  moreover have "h # (xs @ [n]) @ [h] = (as @ [r]) @ [n, h]"
    by (simp flip: as)
  ultimately show ?thesis unfolding r by metis
qed

lemma chain_insert_first:
  assumes ch: "chain f (h # xs @ [h])" and d: "distinct (h # xs)" and n: "n \<notin> set (h # xs)"
  shows "chain (f(n \<mapsto> hd (xs @ [h]), h \<mapsto> n)) (h # (n # xs) @ [h])"
proof -
  let ?f = "f(n \<mapsto> hd (xs @ [h]), h \<mapsto> n)"
  obtain a as where as: "xs @ [h] = a # as" by (cases "xs @ [h]") auto
  have "chain f (xs @ [h])" using ch as by (simp del: chain.simps add: as) (simp add: as)
  moreover have "chain ?f (xs @ [h]) = chain f (xs @ [h])"
    using d n by (intro chain_cong) auto
  ultimately have "chain ?f (a # as)" using as by simp
  moreover have "?f n = Some a" and "?f h = Some n" using n as by auto
  ultimately have "chain ?f (h # n # a # as)" by simp
  then show ?thesis using as by simp
qed

lemma chain_links:
  assumes "chain f (h # ys @ x # zs @ [h])"
  shows "f (last (h # ys)) = Some x" and "f x = Some (hd (zs @ [h]))"
proof -
  obtain as r where as: "h # ys = as @ [r]"
    by (metis append_butlast_last_id list.distinct(1))
  obtain c cs where cs: "zs @ [h] = c # cs" by (cases "zs @ [h]") auto
  have "h # ys @ x # zs @ [h] = as @ r # x # c # cs" using as cs by simp
  then have "chain f (as @ r # x # c # cs)" using assms by simp
  then have "chain f (r # x # c # cs)" using chain_append [of f as r] by blast
  then show "f (last (h # ys)) = Some x" and "f x = Some (hd (zs @ [h]))"
    using as cs by auto
qed

lemma chain_remove:
  assumes ch: "chain f (h # ys @ x # zs @ [h])" and d: "distinct (h # ys @ x # zs)"
  shows "chain (f(last (h # ys) \<mapsto> hd (zs @ [h]), x \<mapsto> x)) (h # (ys @ zs) @ [h])"
proof -
  obtain as r where as: "h # ys = as @ [r]"
    by (metis append_butlast_last_id list.distinct(1))
  obtain c cs where cs: "zs @ [h] = c # cs" by (cases "zs @ [h]") auto
  let ?f = "f(r \<mapsto> c, x \<mapsto> x)"
  have eq: "h # ys @ x # zs @ [h] = as @ r # x # c # cs" using as cs by simp
  have parts: "chain f (as @ [r])" "chain f (c # cs)"
    using ch chain_append [of f as r "x # c # cs"] unfolding eq by auto
  have "distinct ((h # ys) @ x # zs)" using d by auto
  then have dist: "distinct (as @ r # x # zs)" unfolding as by simp
  have "chain ?f (as @ [r])"
    using parts(1) dist by (subst chain_cong [where g = f]) auto
  moreover have "chain ?f (zs @ [h])"
    using parts(2) dist unfolding cs [symmetric] by (subst chain_cong [where g = f]) auto
  ultimately have "chain ?f (as @ r # c # cs)"
    using chain_append [of ?f as r "c # cs"] dist cs by auto
  moreover have "h # (ys @ zs) @ [h] = as @ r # c # cs"
    using cs as by (metis append_Cons append_assoc append_Nil)
  moreover have "last (h # ys) = r" "hd (zs @ [h]) = c" using as cs by simp_all
  ultimately show ?thesis by metis
qed

subsection \<open>The ring\<close>

definition nx :: "list_mem \<Rightarrow> ptr \<rightharpoonup> ptr" where
  "nx s a = map_option nxt (nodes s a)"

definition pv :: "list_mem \<Rightarrow> ptr \<rightharpoonup> ptr" where
  "pv s a = map_option prev (nodes s a)"

definition ring :: "ptr \<Rightarrow> list_mem \<Rightarrow> ptr list \<Rightarrow> bool" where
  "ring h s xs \<longleftrightarrow> distinct (h # xs) \<and> chain (nx s) (h # xs @ [h])
     \<and> chain (pv s) (h # rev xs @ [h])
     \<and> lens s h = Some (of_nat (length xs)) \<and> length xs < 2 ^ 31"

lemma nx_dom: "nx s a = None \<longleftrightarrow> nodes s a = None"
  by (simp add: nx_def)

lemma set_next_run:
  assumes "p \<in> dom (nodes s)"
  shows "\<exists>s'. set_next p v s = Some s' \<and> nx s' = (nx s)(p \<mapsto> v) \<and> pv s' = pv s
    \<and> lens s' = lens s \<and> dom (nodes s') = dom (nodes s)"
  using assms by (auto simp: set_next_def nx_def pv_def fun_eq_iff)

lemma set_prev_run:
  assumes "p \<in> dom (nodes s)"
  shows "\<exists>s'. set_prev p v s = Some s' \<and> pv s' = (pv s)(p \<mapsto> v) \<and> nx s' = nx s
    \<and> lens s' = lens s \<and> dom (nodes s') = dom (nodes s)"
  using assms by (auto simp: set_prev_def nx_def pv_def fun_eq_iff)

lemma set_len_run:
  assumes "h \<in> dom (lens s)"
  shows "\<exists>s'. set_len h v s = Some s' \<and> pv s' = pv s \<and> nx s' = nx s
    \<and> lens s' = (lens s)(h \<mapsto> v) \<and> dom (nodes s') = dom (nodes s)"
  using assms by (auto simp: set_len_def nx_def pv_def fun_eq_iff)

lemma list_init_run:
  assumes "h \<in> dom (nodes s)" and "h \<in> dom (lens s)"
  shows "\<exists>s'. list_init h s = Some s' \<and> nx s' = (nx s)(h \<mapsto> h) \<and> pv s' = (pv s)(h \<mapsto> h)
    \<and> lens s' = (lens s)(h \<mapsto> 0) \<and> dom (nodes s') = dom (nodes s)"
proof -
  obtain s1 where s1: "set_prev h h s = Some s1" "pv s1 = (pv s)(h \<mapsto> h)" "nx s1 = nx s"
      "lens s1 = lens s" "dom (nodes s1) = dom (nodes s)"
    using set_prev_run assms(1) by blast
  obtain s2 where s2: "set_next h h s1 = Some s2" "nx s2 = (nx s1)(h \<mapsto> h)" "pv s2 = pv s1"
      "lens s2 = lens s1" "dom (nodes s2) = dom (nodes s1)"
    using set_next_run [of h s1] assms(1) s1(5) by blast
  obtain s3 where s3: "set_len h 0 s2 = Some s3" "pv s3 = pv s2" "nx s3 = nx s2"
      "lens s3 = (lens s2)(h \<mapsto> 0)" "dom (nodes s3) = dom (nodes s2)"
    using set_len_run [of h s2] assms(2) s1(4) s2(4) by (metis (no_types))
  show ?thesis using s1 s2 s3 by (simp add: list_init_def)
qed

lemma list_append_run:
  assumes "pv s h = Some r" and "{h, n, r} \<subseteq> dom (nodes s)" and "lens s h = Some l"
  shows "\<exists>s'. list_append h n s = Some s' \<and> nx s' = (nx s)(r \<mapsto> n, n \<mapsto> h)
    \<and> pv s' = (pv s)(n \<mapsto> r, h \<mapsto> n) \<and> lens s' = (lens s)(h \<mapsto> l + 1)
    \<and> dom (nodes s') = dom (nodes s)"
proof -
  obtain s1 where s1: "set_next r n s = Some s1" "nx s1 = (nx s)(r \<mapsto> n)" "pv s1 = pv s"
      "lens s1 = lens s" "dom (nodes s1) = dom (nodes s)"
    using set_next_run [of r s n] assms(2) by blast
  obtain s2 where s2: "set_prev n r s1 = Some s2" "pv s2 = (pv s1)(n \<mapsto> r)" "nx s2 = nx s1"
      "lens s2 = lens s1" "dom (nodes s2) = dom (nodes s1)"
    using set_prev_run [of n s1 r] assms(2) s1(5) by blast
  obtain s3 where s3: "set_next n h s2 = Some s3" "nx s3 = (nx s2)(n \<mapsto> h)" "pv s3 = pv s2"
      "lens s3 = lens s2" "dom (nodes s3) = dom (nodes s2)"
    using set_next_run [of n s2 h] assms(2) s1(5) s2(5) by blast
  obtain s4 where s4: "set_prev h n s3 = Some s4" "pv s4 = (pv s3)(h \<mapsto> n)" "nx s4 = nx s3"
      "lens s4 = lens s3" "dom (nodes s4) = dom (nodes s3)"
    using set_prev_run [of h s3 n] assms(2) s1(5) s2(5) s3(5) by blast
  have l4: "lens s4 = lens s" using s1 s2 s3 s4 by simp
  obtain s5 where s5: "set_len h (l + 1) s4 = Some s5" "pv s5 = pv s4" "nx s5 = nx s4"
      "lens s5 = (lens s4)(h \<mapsto> l + 1)" "dom (nodes s5) = dom (nodes s4)"
    using set_len_run [of h s4 "l + 1"] assms(3) l4 by auto
  obtain d where d: "nodes s h = Some d" "prev d = r"
    using assms(1) by (auto simp: pv_def)
  show ?thesis
    using s1 s2 s3 s4 s5 l4 d assms(3) by (simp add: list_append_def)
qed

lemma list_remove_run:
  assumes "pv s x = Some p" and "nx s x = Some n" and "{p, n} \<subseteq> dom (nodes s)"
    and "lens s h = Some l" and "0 < sint l" and "\<not> (p = x \<and> x = n)"
  shows "\<exists>s'. list_remove h x s = Some (s', 1) \<and> nx s' = (nx s)(p \<mapsto> n, x \<mapsto> x)
    \<and> pv s' = (pv s)(n \<mapsto> p, x \<mapsto> x) \<and> lens s' = (lens s)(h \<mapsto> l - 1)
    \<and> dom (nodes s') = dom (nodes s)"
proof -
  obtain d where d: "nodes s x = Some d" "prev d = p" "nxt d = n"
    using assms(1,2) by (auto simp: pv_def nx_def)
  obtain s1 where s1: "set_next p n s = Some s1" "nx s1 = (nx s)(p \<mapsto> n)" "pv s1 = pv s"
      "lens s1 = lens s" "dom (nodes s1) = dom (nodes s)"
    using set_next_run [of p s n] assms(3) by blast
  obtain s2 where s2: "set_prev n p s1 = Some s2" "pv s2 = (pv s1)(n \<mapsto> p)" "nx s2 = nx s1"
      "lens s2 = lens s1" "dom (nodes s2) = dom (nodes s1)"
    using set_prev_run [of n s1 p] assms(3) s1(5) by blast
  have x2: "x \<in> dom (nodes s2)" using d s1 s2 by auto
  obtain s3 where s3: "set_next x x s2 = Some s3" "nx s3 = (nx s2)(x \<mapsto> x)" "pv s3 = pv s2"
      "lens s3 = lens s2" "dom (nodes s3) = dom (nodes s2)"
    using set_next_run [of x s2 x] x2 by blast
  obtain s4 where s4: "set_prev x x s3 = Some s4" "pv s4 = (pv s3)(x \<mapsto> x)" "nx s4 = nx s3"
      "lens s4 = lens s3" "dom (nodes s4) = dom (nodes s3)"
    using set_prev_run [of x s3 x] x2 s3(5) by blast
  have l4: "lens s4 = lens s" using s1 s2 s3 s4 by simp
  obtain s5 where s5: "set_len h (l - 1) s4 = Some s5" "pv s5 = pv s4" "nx s5 = nx s4"
      "lens s5 = (lens s4)(h \<mapsto> l - 1)" "dom (nodes s5) = dom (nodes s4)"
    using set_len_run [of h s4 "l - 1"] assms(4) l4 by auto
  have "\<not> sint l \<le> 0" using assms(5) by simp
  then show ?thesis
    using s1 s2 s3 s4 s5 l4 d assms(4,6) by (auto simp: list_remove_def)
qed

lemma ring_dom:
  assumes "ring h s xs" and "x \<in> set (h # xs)"
  shows "x \<in> dom (nodes s)"
proof -
  obtain ys zs where "h # xs = ys @ x # zs" using assms(2) by (metis split_list)
  then have "h # xs @ [h] = ys @ x # zs @ [h]" by (metis append_Cons append_assoc)
  moreover have "chain (nx s) (h # xs @ [h])" using assms(1) by (simp add: ring_def)
  ultimately have "chain (nx s) (x # zs @ [h])"
    using chain_append [of "nx s" ys x "zs @ [h]"] by metis
  then have "nx s x \<noteq> None" by (cases "zs @ [h]") auto
  then show ?thesis by (auto simp: nx_def)
qed

lemma ring_last: "ring h s xs \<Longrightarrow> pv s h = Some (last (h # xs))"
  by (cases xs rule: rev_cases) (auto simp: ring_def)

lemma ring_init:
  assumes "h \<in> dom (nodes s)" and "h \<in> dom (lens s)"
  shows "\<exists>s'. list_init h s = Some s' \<and> ring h s' [] \<and> dom (nodes s') = dom (nodes s)"
  using list_init_run [OF assms] by (fastforce simp: ring_def)

lemma ring_append:
  assumes r: "ring h s xs" and n: "n \<notin> set (h # xs)" "n \<in> dom (nodes s)"
    and b: "length xs + 1 < 2 ^ 31"
  shows "\<exists>s'. list_append h n s = Some s' \<and> ring h s' (xs @ [n]) \<and> dom (nodes s') = dom (nodes s)"
proof -
  have d: "distinct (h # xs)" and f: "chain (nx s) (h # xs @ [h])"
    and p: "chain (pv s) (h # rev xs @ [h])" and l: "lens s h = Some (of_nat (length xs))"
    using r by (simp_all add: ring_def)
  have "{h, n, last (h # xs)} \<subseteq> dom (nodes s)"
    using ring_dom [OF r, of h] ring_dom [OF r, of "last (h # xs)"] n(2)
      last_in_set [of "h # xs"] by auto
  then obtain s' where s': "list_append h n s = Some s'"
      "nx s' = (nx s)(last (h # xs) \<mapsto> n, n \<mapsto> h)" "pv s' = (pv s)(n \<mapsto> last (h # xs), h \<mapsto> n)"
      "lens s' = (lens s)(h \<mapsto> of_nat (length xs) + 1)" "dom (nodes s') = dom (nodes s)"
    using list_append_run [OF ring_last [OF r] _ l] by blast
  have "chain (nx s') (h # (xs @ [n]) @ [h])"
    unfolding s'(2) by (rule chain_insert_last [OF f d n(1)])
  moreover have "hd (rev xs @ [h]) = last (h # xs)"
    by (cases xs rule: rev_cases) auto
  then have "chain (pv s') (h # (n # rev xs) @ [h])"
    using chain_insert_first [OF p, of n] d n(1) unfolding s'(3) by simp
  ultimately have "ring h s' (xs @ [n])"
    using d n(1) b s'(4) by (simp add: ring_def add.commute)
  with s' show ?thesis by blast
qed

lemma sint_length: "n < 2 ^ 31 \<Longrightarrow> sint (of_nat n :: u32) = int n"
  by (simp add: sint_uint signed_take_bit_int_eq_self unsigned_of_nat take_bit_nat_eq_self)

lemma ring_remove:
  assumes r: "ring h s xs" and x: "x \<in> set xs"
  shows "\<exists>s'. list_remove h x s = Some (s', 1) \<and> ring h s' (remove1 x xs)
    \<and> dom (nodes s') = dom (nodes s) \<and> nx s' x = Some x \<and> pv s' x = Some x"
proof -
  obtain ys zs where xs: "xs = ys @ x # zs" using x by (metis split_list)
  have d: "distinct (h # ys @ x # zs)" and f: "chain (nx s) (h # ys @ x # zs @ [h])"
    and p: "chain (pv s) (h # rev zs @ x # rev ys @ [h])"
    and l: "lens s h = Some (of_nat (length xs))" and b: "length xs < 2 ^ 31"
    using r by (simp_all add: ring_def xs)
  have d': "distinct (h # rev zs @ x # rev ys)" using d by auto
  have ends: "hd (rev ys @ [h]) = last (h # ys)" "last (h # rev zs) = hd (zs @ [h])"
    by (cases ys rule: rev_cases; simp) (cases zs; simp)
  have "pv s x = Some (last (h # ys))" "nx s x = Some (hd (zs @ [h]))"
    using chain_links(2) [OF p] chain_links(2) [OF f] ends by simp_all
  moreover have mem: "last (h # ys) \<in> set (h # xs)" "hd (zs @ [h]) \<in> set (h # xs)"
    using xs by (cases ys rule: rev_cases; simp) (cases zs; simp add: xs)
  then have "{last (h # ys), hd (zs @ [h])} \<subseteq> dom (nodes s)" using ring_dom [OF r] by blast
  moreover have "0 < sint (of_nat (length xs) :: u32)"
    using b xs by (simp only: sint_length) simp
  moreover have "\<not> (last (h # ys) = x \<and> x = hd (zs @ [h]))"
    using d by (cases ys rule: rev_cases) auto
  ultimately obtain s' where s': "list_remove h x s = Some (s', 1)"
      "nx s' = (nx s)(last (h # ys) \<mapsto> hd (zs @ [h]), x \<mapsto> x)"
      "pv s' = (pv s)(hd (zs @ [h]) \<mapsto> last (h # ys), x \<mapsto> x)"
      "lens s' = (lens s)(h \<mapsto> of_nat (length xs) - 1)" "dom (nodes s') = dom (nodes s)"
    using list_remove_run [OF _ _ _ l] by blast
  have "chain (nx s') (h # (ys @ zs) @ [h])"
    unfolding s'(2) by (rule chain_remove [OF f d])
  moreover have "chain (pv s') (h # (rev zs @ rev ys) @ [h])"
    using chain_remove [OF p d'] unfolding s'(3) ends by simp
  moreover have "remove1 x xs = ys @ zs" using d xs by (simp add: remove1_append)
  ultimately have "ring h s' (remove1 x xs)"
    using d b s'(4) xs by (simp add: ring_def)
  with s' show ?thesis by simp
qed

text \<open>A node that is not linked (both links at itself) is left alone, with result 0.\<close>

lemma list_remove_unlinked:
  assumes "nx s x = Some x" and "pv s x = Some x" and "h \<in> dom (lens s)"
  shows "list_remove h x s = Some (s, 0)"
  using assms by (auto simp: list_remove_def nx_def pv_def Let_def)

lemma list_remove_empty:
  assumes "ring h s []" and "x \<in> dom (nodes s)"
  shows "list_remove h x s = Some (s, 0)"
  using assms by (auto simp: list_remove_def ring_def)

subsection \<open>Traversal\<close>

lemma visit_chain:
  "chain (nx s) (p # ps @ [h]) \<Longrightarrow> h \<notin> set (p # ps) \<Longrightarrow> visit h p s = Some (p # ps)"
proof (induction ps arbitrary: p)
  case Nil
  then obtain d where "nodes s p = Some d" "nxt d = h" "p \<noteq> h" by (auto simp: nx_def)
  then show ?case by (simp add: visit.simps)
next
  case (Cons q ps)
  then obtain d where "nodes s p = Some d" "nxt d = q" "p \<noteq> h" by (auto simp: nx_def)
  with Cons show ?case by (simp add: visit.simps [of h p])
qed

lemma visit_ring:
  assumes "ring h s xs" and "nodes s h = Some d"
  shows "visit h (nxt d) s = Some xs"
proof (cases xs)
  case Nil
  with assms show ?thesis by (simp add: ring_def nx_def visit.simps)
next
  case (Cons x ys)
  then have "chain (nx s) (x # ys @ [h])" "h \<notin> set (x # ys)" "nxt d = x"
    using assms by (auto simp: ring_def nx_def)
  then show ?thesis using visit_chain Cons by metis
qed

lemma visit_self_loop:
  assumes "nx s x = Some x" and "x \<noteq> h"
  shows "visit h x s = None"
proof (rule ccontr)
  assume "visit h x s \<noteq> None"
  then obtain ps where ps: "visit h x s = Some ps" by blast
  obtain d where "nodes s x = Some d" "nxt d = x" using assms(1) by (auto simp: nx_def)
  then have "visit h x s = Option.bind (visit h x s) (\<lambda>ps. Some (x # ps))"
    using assms(2) by (subst visit.simps) simp
  with ps show False by simp
qed

subsection \<open>The sequence interface\<close>

text \<open>
  What the client of the list relies on: there is an abstract sequence that initialising,
  appending and removing maintain. \<open>room\<close> is the number of elements the counter can hold.
\<close>

datatype 'a seq_op = Append 'a | Remove 'a

fun spec_ops :: "'a seq_op list \<Rightarrow> 'a list \<Rightarrow> 'a list option" where
  "spec_ops [] xs = Some xs"
| "spec_ops (Append x # ps) xs = (if x \<in> set xs then None else spec_ops ps (xs @ [x]))"
| "spec_ops (Remove x # ps) xs = (if x \<in> set xs then spec_ops ps (remove1 x xs) else None)"

fun op_arg :: "'a seq_op \<Rightarrow> 'a" where
  "op_arg (Append x) = x"
| "op_arg (Remove x) = x"

locale sequence =
  fixes append :: "'a \<Rightarrow> 's \<Rightarrow> 's option"
    and remove :: "'a \<Rightarrow> 's \<Rightarrow> ('s \<times> u32) option"
    and rep :: "'s \<Rightarrow> 'a list \<Rightarrow> bool"
    and objects :: "'s \<Rightarrow> 'a set"
    and room :: nat
  assumes rep_distinct: "rep s xs \<Longrightarrow> distinct xs"
    and rep_objects: "rep s xs \<Longrightarrow> set xs \<subseteq> objects s"
    and append_rep: "rep s xs \<Longrightarrow> x \<notin> set xs \<Longrightarrow> x \<in> objects s \<Longrightarrow> length xs < room \<Longrightarrow>
      \<exists>s'. append x s = Some s' \<and> rep s' (xs @ [x]) \<and> objects s' = objects s"
    and remove_rep: "rep s xs \<Longrightarrow> x \<in> set xs \<Longrightarrow>
      \<exists>s'. remove x s = Some (s', 1) \<and> rep s' (remove1 x xs) \<and> objects s' = objects s"
begin

fun run_op :: "'a seq_op \<Rightarrow> 's \<Rightarrow> 's option" where
  "run_op (Append x) s = append x s"
| "run_op (Remove x) s = map_option fst (remove x s)"

fun run_ops :: "'a seq_op list \<Rightarrow> 's \<Rightarrow> 's option" where
  "run_ops [] s = Some s"
| "run_ops (p # ps) s = Option.bind (run_op p s) (run_ops ps)"

lemma run_ops_refine:
  assumes "rep s xs" and "spec_ops ps xs = Some ys" and "op_arg ` set ps \<subseteq> objects s"
    and "length xs + length ps \<le> room"
  shows "\<exists>s'. run_ops ps s = Some s' \<and> rep s' ys \<and> objects s' = objects s"
  using assms
proof (induction ps xs arbitrary: s rule: spec_ops.induct)
  case (1 xs)
  then show ?case by simp
next
  case (2 x ps xs)
  then obtain s' where s': "append x s = Some s'" "rep s' (xs @ [x])" "objects s' = objects s"
    using append_rep [of s xs x] by (auto split: if_splits)
  have "\<exists>s''. run_ops ps s' = Some s'' \<and> rep s'' ys \<and> objects s'' = objects s'"
    using 2 s' by (intro "2.IH") (auto split: if_splits)
  with s' show ?case by simp
next
  case (3 x ps xs)
  then obtain s' where s': "remove x s = Some (s', 1)" "rep s' (remove1 x xs)"
      "objects s' = objects s"
    using remove_rep [of s xs x] by (auto split: if_splits)
  have "length (remove1 x xs) \<le> length xs" by (simp add: length_remove1)
  then have "\<exists>s''. run_ops ps s' = Some s'' \<and> rep s'' ys \<and> objects s'' = objects s'"
    using 3 s' by (intro "3.IH") (auto split: if_splits)
  with s' show ?case by simp
qed

end

interpretation ll: sequence "list_append h" "list_remove h" "ring h" "\<lambda>s. dom (nodes s) - {h}"
    "2 ^ 31 - 1" for h
proof unfold_locales
  fix s xs x
  assume "ring h s xs" "x \<notin> set xs" "x \<in> dom (nodes s) - {h}" "length xs < 2 ^ 31 - 1"
  then show "\<exists>s'. list_append h x s = Some s' \<and> ring h s' (xs @ [x])
      \<and> dom (nodes s') - {h} = dom (nodes s) - {h}"
    using ring_append [of h s xs x] by fastforce
next
  fix s xs x
  assume "ring h s xs" "x \<in> set xs"
  then show "\<exists>s'. list_remove h x s = Some (s', 1) \<and> ring h s' (remove1 x xs)
      \<and> dom (nodes s') - {h} = dom (nodes s) - {h}"
    using ring_remove [of h s xs x] by fastforce
next
  fix s xs
  assume r: "ring h s xs"
  then show "distinct xs" by (simp add: ring_def)
  show "set xs \<subseteq> dom (nodes s) - {h}"
    using r ring_dom [OF r] by (auto simp: ring_def)
qed

subsection \<open>Properties\<close>

text \<open>A memory with a head at 100 and three nodes that are not linked yet.\<close>

definition mem0 :: list_mem where
  "mem0 = \<lparr>nodes = (\<lambda>a. if a \<in> {100, 200, 300, 400} then Some \<lparr>prev = a, nxt = a\<rparr> else None),
     lens = [100 \<mapsto> 0]\<rparr>"

lemma ring_mem0: "ring 100 mem0 []"
  by (simp add: ring_def mem0_def nx_def pv_def)

lemma mem0_objects: "dom (nodes mem0) - {100} = {200, 300, 400}"
  by (auto simp: mem0_def split: if_splits)

text \<open>
  C35: any sequence of \<open>list_append\<close> and \<open>list_remove\<close> calls that is legal on the abstract
  sequence (append a node that is not in it, remove one that is) runs without an invalid
  access and leaves a well-formed ring that holds exactly the abstract sequence.
\<close>
theorem list_ops_refine:
  assumes "ring h s xs" and "spec_ops ps xs = Some ys"
    and "op_arg ` set ps \<subseteq> dom (nodes s) - {h}" and "length xs + length ps < 2 ^ 31"
  shows "\<exists>s'. ll.run_ops h ps s = Some s' \<and> ring h s' ys"
  using ll.run_ops_refine [OF assms(1-3)] assms(4) by auto

theorem list_ops_refine_witness:
  "\<exists>s'. ll.run_ops 100 [Append 200, Append 300, Append 400, Remove 300] mem0 = Some s'
    \<and> ring 100 s' [200, 400]"
  by (rule list_ops_refine [OF ring_mem0]) (simp_all add: mem0_objects)



text \<open>
  C37: removing a node of the list unlinks it and links it to itself: the other nodes keep
  their order, removing it a second time changes nothing and returns 0, and a traversal that
  stands on the removed node when it is removed never comes back to the head.
\<close>
theorem list_remove_unlinks:
  assumes "ring h s xs" and "x \<in> set xs"
  shows "\<exists>s'. list_remove h x s = Some (s', 1) \<and> ring h s' (remove1 x xs)
    \<and> list_remove h x s' = Some (s', 0) \<and> visit h x s' = None"
proof -
  obtain s' where s': "list_remove h x s = Some (s', 1)" "ring h s' (remove1 x xs)"
      "nx s' x = Some x" "pv s' x = Some x"
    using ring_remove [OF assms] by blast
  moreover have "x \<noteq> h" using assms by (auto simp: ring_def)
  moreover have "h \<in> dom (lens s')" using s'(2) by (auto simp: ring_def)
  ultimately show ?thesis using list_remove_unlinked visit_self_loop by blast
qed

theorem list_remove_unlinks_witness:
  "\<exists>s s'. ring 100 s [200] \<and> list_remove 100 200 s = Some (s', 1) \<and> ring 100 s' []
    \<and> visit 100 200 s' = None"
proof -
  obtain s where s: "ring 100 s [200]"
    using ring_append [OF ring_mem0, of 200] mem0_objects by auto
  then show ?thesis using list_remove_unlinks [OF s, of 200] by auto
qed

end
