(* ===== verification/Allocator.thy ===== *)
theory Allocator
  imports Prelude
begin

text \<open>
  The contract every dynamic-memory component of the program offers to its callers
  (MALLOC/malloc.c, core/mem.c and core/memp.c are the three providers): a request returns
  a block that no live block overlaps, or the null pointer and changes nothing; releasing a
  live block removes that block and no other. \<open>rep s M\<close> relates a state to the map from the
  live pointers to the cells they own.
\<close>

datatype ('r, 'p) mem_op = Alloc 'r | Free 'p

locale allocator =
  fixes alloc :: "'r \<Rightarrow> 's \<Rightarrow> ('s \<times> 'p) option"
    and free :: "'p \<Rightarrow> 's \<Rightarrow> 's option"
    and null :: 'p
    and admissible :: "'r \<Rightarrow> bool"
    and fits :: "'r \<Rightarrow> 'p \<Rightarrow> 'c set \<Rightarrow> bool"
    and rep :: "'s \<Rightarrow> ('p \<rightharpoonup> 'c set) \<Rightarrow> bool"
  assumes rep_null: "rep s M \<Longrightarrow> M null = None"
    and rep_disjoint: "rep s M \<Longrightarrow> M p = Some B \<Longrightarrow> M q = Some C \<Longrightarrow> p \<noteq> q \<Longrightarrow> B \<inter> C = {}"
    and alloc_rep: "rep s M \<Longrightarrow> admissible r \<Longrightarrow>
      \<exists>s' p. alloc r s = Some (s', p) \<and>
        (if p = null then rep s' M
         else M p = None \<and> (\<exists>B. rep s' (M(p \<mapsto> B)) \<and> fits r p B))"
    and free_rep: "rep s M \<Longrightarrow> M p = Some B \<Longrightarrow>
      \<exists>s'. free p s = Some s' \<and> rep s' (M(p := None))"
begin

text \<open>A history of requests and releases, as a client issues them.\<close>

fun run_mem :: "('r, 'p) mem_op \<Rightarrow> 's \<Rightarrow> 's option" where
  "run_mem (Alloc r) s = map_option fst (alloc r s)"
| "run_mem (Free p) s = free p s"

text \<open>
  A history is legal when every request is admissible and every release names a pointer
  that is live at that point.
\<close>

inductive history :: "'s \<Rightarrow> ('p \<rightharpoonup> 'c set) \<Rightarrow> ('r, 'p) mem_op list \<Rightarrow> 's \<Rightarrow> ('p \<rightharpoonup> 'c set) \<Rightarrow> bool"
where
  Nil: "history s M [] s M"
| Fail: "admissible r \<Longrightarrow> alloc r s = Some (s', null) \<Longrightarrow> history s' M os t N \<Longrightarrow>
    history s M (Alloc r # os) t N"
| New: "admissible r \<Longrightarrow> alloc r s = Some (s', p) \<Longrightarrow> p \<noteq> null \<Longrightarrow> M p = None \<Longrightarrow>
    rep s' (M(p \<mapsto> B)) \<Longrightarrow> fits r p B \<Longrightarrow> history s' (M(p \<mapsto> B)) os t N \<Longrightarrow>
    history s M (Alloc r # os) t N"
| Release: "M p = Some B \<Longrightarrow> free p s = Some s' \<Longrightarrow> history s' (M(p := None)) os t N \<Longrightarrow>
    history s M (Free p # os) t N"

lemma alloc_cases:
  assumes "rep s M" and "admissible r"
  obtains s' where "alloc r s = Some (s', null)" and "rep s' M"
  | s' p B where "alloc r s = Some (s', p)" and "p \<noteq> null" and "M p = None"
      and "rep s' (M(p \<mapsto> B))" and "fits r p B"
proof -
  obtain s' p where "alloc r s = Some (s', p)"
    and "if p = null then rep s' M else M p = None \<and> (\<exists>B. rep s' (M(p \<mapsto> B)) \<and> fits r p B)"
    using alloc_rep [OF assms] by blast
  then show thesis using that by (cases "p = null") auto
qed

lemma history_rep: "history s M os t N \<Longrightarrow> rep s M \<Longrightarrow> rep t N"
proof (induction rule: history.induct)
  case (Fail r s s' M os t N)
  then show ?case using alloc_rep [of s M r] by auto
next
  case (Release M p B s s' os t N)
  then have "rep s' (M(p := None))" using free_rep [of s M p B] by auto
  then show ?case by (rule Release.IH)
qed simp_all

lemma history_disjoint:
  assumes "history s M os t N" and "rep s M" and "N p = Some B" and "N q = Some C" and "p \<noteq> q"
  shows "B \<inter> C = {}"
  using rep_disjoint history_rep assms by metis

text \<open>A live block stays live, with the same cells, until it is released.\<close>

lemma history_keeps:
  "history s M os t N \<Longrightarrow> rep s M \<Longrightarrow> M p = Some B \<Longrightarrow> Free p \<notin> set os \<Longrightarrow> N p = Some B"
proof (induction rule: history.induct)
  case (Fail r s s' M os t N)
  then show ?case using alloc_rep [of s M r] by auto
next
  case (Release M q C s s' os t N)
  then have "rep s' (M(q := None))" using free_rep [of s M q C] by auto
  moreover have "(M(q := None)) p = Some B" using Release.prems by auto
  moreover have "Free p \<notin> set os" using Release.prems(3) by simp
  ultimately show ?case by (rule Release.IH)
next
  case (New r s s' q M C os t N)
  then have "(M(q \<mapsto> C)) p = Some B" by auto
  moreover have "Free p \<notin> set os" using New.prems(3) by simp
  ultimately show ?case by (rule New.IH [OF New.hyps(5)])
qed auto

lemma alloc_free:
  assumes "rep s M" and "admissible r" and "alloc r s = Some (s', p)" and "p \<noteq> null"
  shows "\<exists>t. free p s' = Some t \<and> rep t M"
proof -
  obtain B where B: "M p = None" "rep s' (M(p \<mapsto> B))"
    using alloc_rep [OF assms(1,2)] assms(3,4) by auto
  then obtain t where "free p s' = Some t" "rep t ((M(p \<mapsto> B))(p := None))"
    using free_rep [of s' "M(p \<mapsto> B)" p B] by auto
  moreover have "(M(p \<mapsto> B))(p := None) = M" using B(1) by (simp add: fun_upd_idem)
  ultimately show ?thesis by auto
qed

end

end
