(* ===== verification/Malloc.thy ===== *)
theory Malloc
  imports Allocator
begin

text \<open>
  Model of MALLOC/malloc.c: three pools (internal SRAM, external SRAM, CCM), each managed by
  a table of \<open>u16\<close> with one entry per 32-byte block. Entry 0 is a free block; every block of
  an allocation of n blocks has entry n. \<open>mallco_dev\<close> is the controller; \<open>ram\<close> is the byte
  memory of the pools. A bank number outside the three arrays, and a table write past the
  end, is \<open>None\<close>.
  Lemmas: the search finds the highest free run; the table invariant \<open>tab\<close>; malloc and free
  keep it; the allocator contract; what \<open>myrealloc\<close> preserves; what an oversized request does.
\<close>

subsection \<open>Data\<close>

record mallco_dev =
  membase :: "u8 \<Rightarrow> u32"
  memmap :: "u8 \<Rightarrow> u16 list"
  memrdy :: "u8 \<Rightarrow> u8"
  ram :: "u32 \<Rightarrow> u8"

definition SRAMBANK :: u8 where "SRAMBANK = 3"

definition memtblsize :: "u8 \<Rightarrow> u32" where
  "memtblsize b = (if b = 0 then 100 * 1024 div 32 else if b = 1 then 200 * 1024 div 32
     else 60 * 1024 div 32)"

definition memblksize :: "u8 \<Rightarrow> u32" where
  "memblksize b = 32"

definition memsize :: "u8 \<Rightarrow> u32" where
  "memsize b = (if b = 0 then 100 * 1024 else if b = 1 then 200 * 1024 else 60 * 1024)"

subsection \<open>Operations\<close>

fun memcpy_loop :: "u32 \<Rightarrow> u32 \<Rightarrow> nat \<Rightarrow> (u32 \<Rightarrow> u8) \<Rightarrow> (u32 \<Rightarrow> u8)" where
  "memcpy_loop des src 0 m = m"
| "memcpy_loop des src (Suc n) m = memcpy_loop (des + 1) (src + 1) n (m(des := m src))"

definition mymemcpy :: "u32 \<Rightarrow> u32 \<Rightarrow> u32 \<Rightarrow> (u32 \<Rightarrow> u8) \<Rightarrow> (u32 \<Rightarrow> u8)" where
  "mymemcpy des src n m = memcpy_loop des src (unat n) m"

fun memset_loop :: "u32 \<Rightarrow> u8 \<Rightarrow> nat \<Rightarrow> (u32 \<Rightarrow> u8) \<Rightarrow> (u32 \<Rightarrow> u8)" where
  "memset_loop s c 0 m = m"
| "memset_loop s c (Suc n) m = memset_loop (s + 1) c n (m(s := c))"

definition mymemset :: "u32 \<Rightarrow> u8 \<Rightarrow> u32 \<Rightarrow> (u32 \<Rightarrow> u8) \<Rightarrow> (u32 \<Rightarrow> u8)" where
  "mymemset s c count m = memset_loop s c (unat count) m"

text \<open>The \<open>memset\<close> of the table writes \<open>memtblsize*2\<close> bytes, that is \<open>memtblsize\<close> entries.\<close>

definition mymem_init :: "u8 \<Rightarrow> mallco_dev \<Rightarrow> mallco_dev option" where
  "mymem_init b d = (if SRAMBANK \<le> b then None else do {
     tbl \<leftarrow> write_range (memmap d b) 0 (unat (memtblsize b)) 0;
     Some (d\<lparr>memmap := (memmap d)(b := tbl),
             ram := mymemset (membase d b) 0 (memsize b) (ram d),
             memrdy := (memrdy d)(b := 1)\<rparr>)
   })"

fun count_used :: "u16 list \<Rightarrow> nat \<Rightarrow> u32" where
  "count_used m 0 = 0"
| "count_used m (Suc i) = count_used m i + (if m ! i \<noteq> 0 then 1 else 0)"

definition mem_perused :: "u8 \<Rightarrow> mallco_dev \<Rightarrow> u8 option" where
  "mem_perused b d = (if SRAMBANK \<le> b then None else
     Some (ucast ((count_used (memmap d b) (unat (memtblsize b)) * 100) div memtblsize b)))"

text \<open>
  The scan of \<open>mymem_malloc\<close>: \<open>offset\<close> runs from \<open>Suc k - 1\<close> down to 0, \<open>cmemb\<close> counts the
  consecutive free entries seen (a \<open>u16\<close>).
\<close>

fun mymem_search :: "u16 list \<Rightarrow> u16 \<Rightarrow> u16 \<Rightarrow> nat \<Rightarrow> nat option" where
  "mymem_search m nmemb cmemb 0 = None"
| "mymem_search m nmemb cmemb (Suc offset) =
     (let cmemb = (if m ! offset = 0 then cmemb + 1 else 0)
      in if cmemb = nmemb then Some offset else mymem_search m nmemb cmemb offset)"

definition block_count :: "u8 \<Rightarrow> u32 \<Rightarrow> u16" where
  "block_count b sz = (let nmemb = (ucast (sz div memblksize b) :: u16)
     in if sz mod memblksize b \<noteq> 0 then nmemb + 1 else nmemb)"

definition mymem_malloc :: "u8 \<Rightarrow> u32 \<Rightarrow> mallco_dev \<Rightarrow> (mallco_dev \<times> u32) option" where
  "mymem_malloc b sz d = (if SRAMBANK \<le> b then None else do {
     d \<leftarrow> (if memrdy d b = 0 then mymem_init b d else Some d);
     if sz = 0 then Some (d, 0xFFFFFFFF)
     else (let nmemb = block_count b sz in
       case mymem_search (memmap d b) nmemb 0 (unat (memtblsize b)) of
         None \<Rightarrow> Some (d, 0xFFFFFFFF)
       | Some offset \<Rightarrow> do {
           tbl \<leftarrow> write_range (memmap d b) offset (unat nmemb) nmemb;
           Some (d\<lparr>memmap := (memmap d)(b := tbl)\<rparr>, of_nat offset * memblksize b)
         })
   })"

definition mymem_free :: "u8 \<Rightarrow> u32 \<Rightarrow> mallco_dev \<Rightarrow> (mallco_dev \<times> u8) option" where
  "mymem_free b offset d = (if SRAMBANK \<le> b then None
     else if memrdy d b = 0 then do { d \<leftarrow> mymem_init b d; Some (d, 1) }
     else if offset < memsize b then do {
       let index = unat (offset div memblksize b);
       let nmemb = unat (memmap d b ! index);
       tbl \<leftarrow> write_range (memmap d b) index nmemb 0;
       Some (d\<lparr>memmap := (memmap d)(b := tbl)\<rparr>, 0)
     }
     else Some (d, 2))"

definition myfree :: "u8 \<Rightarrow> u32 \<Rightarrow> mallco_dev \<Rightarrow> mallco_dev option" where
  "myfree b p d = (if p = 0 then Some d
     else map_option fst (mymem_free b (p - membase d b) d))"

definition mymalloc :: "u8 \<Rightarrow> u32 \<Rightarrow> mallco_dev \<Rightarrow> (mallco_dev \<times> u32) option" where
  "mymalloc b sz d = do {
     (d, offset) \<leftarrow> mymem_malloc b sz d;
     Some (d, if offset = 0xFFFFFFFF then 0 else membase d b + offset)
   }"

definition myrealloc :: "u8 \<Rightarrow> u32 \<Rightarrow> u32 \<Rightarrow> mallco_dev \<Rightarrow> (mallco_dev \<times> u32) option" where
  "myrealloc b p sz d = do {
     (d, offset) \<leftarrow> mymem_malloc b sz d;
     if offset = 0xFFFFFFFF then Some (d, 0)
     else do {
       let d = d\<lparr>ram := mymemcpy (membase d b + offset) p sz (ram d)\<rparr>;
       d \<leftarrow> myfree b p d;
       Some (d, membase d b + offset)
     }
   }"

lemma word_of_nat_unat_id: "of_nat (unat (w :: 'a::len word)) = w"
  by (simp add: word_eq_iff_unsigned)

subsection \<open>The search\<close>

definition free_run :: "u16 list \<Rightarrow> nat \<Rightarrow> nat \<Rightarrow> bool" where
  "free_run m k n \<longleftrightarrow> k + n \<le> length m \<and> (\<forall>i < n. m ! (k + i) = 0)"

lemma free_run_nth: "free_run m k n \<Longrightarrow> k \<le> i \<Longrightarrow> i < k + n \<Longrightarrow> m ! i = 0"
  unfolding free_run_def by (metis le_add_diff_inverse nat_add_left_cancel_less)

text \<open>\<open>c\<close> is the number of consecutive free entries from \<open>off\<close> upwards.\<close>

definition zeros_at :: "u16 list \<Rightarrow> nat \<Rightarrow> nat \<Rightarrow> bool" where
  "zeros_at m off c \<longleftrightarrow> off + c \<le> length m \<and> (\<forall>i < c. m ! (off + i) = 0)
     \<and> (off + c < length m \<longrightarrow> m ! (off + c) \<noteq> 0)"

lemma zeros_at_step:
  assumes "zeros_at m (Suc off) c"
  shows "zeros_at m off (if m ! off = 0 then Suc c else 0)"
proof (cases "m ! off = 0")
  case True
  have "m ! (off + i) = 0" if "i < Suc c" for i
    using that True assms by (cases i) (auto simp: zeros_at_def)
  with True assms show ?thesis by (simp add: zeros_at_def)
next
  case False
  with assms show ?thesis by (simp add: zeros_at_def)
qed

lemma zeros_at_free_run: "zeros_at m off c \<Longrightarrow> free_run m off n \<longleftrightarrow> n \<le> c"
  unfolding zeros_at_def free_run_def
  by (metis add_le_mono add_mono_thms_linordered_field(2) dual_order.trans le_add_diff_inverse
      le_eq_less_or_eq linorder_not_less nat_add_left_cancel_le nat_add_left_cancel_less)

lemma search_spec:
  assumes "zeros_at m off (unat c)" and "unat c < unat n"
  shows "case mymem_search m n c off of
     None \<Rightarrow> \<forall>k < off. \<not> free_run m k (unat n)
   | Some k \<Rightarrow> k < off \<and> free_run m k (unat n) \<and> (\<forall>j. k < j \<and> j < off \<longrightarrow> \<not> free_run m j (unat n))"
  using assms
proof (induction off arbitrary: c)
  case 0
  then show ?case by simp
next
  case (Suc off)
  define c' :: u16 where "c' = (if m ! off = 0 then c + 1 else 0)"
  have "unat c + 1 < 65536" using Suc.prems(2) unat_u16_less [of n] by linarith
  then have uc: "unat c' = (if m ! off = 0 then Suc (unat c) else 0)"
    by (simp add: c'_def unat_add_one_u16)
  have z: "zeros_at m off (unat c')" using zeros_at_step [OF Suc.prems(1)] uc by simp
  show ?case
  proof (cases "c' = n")
    case True
    then have "mymem_search m n c (Suc off) = Some off" by (simp add: c'_def [symmetric])
    then show ?thesis using True z by (auto simp: zeros_at_free_run)
  next
    case False
    then have eq: "mymem_search m n c (Suc off) = mymem_search m n c' off"
      by (simp add: c'_def [symmetric])
    have lt: "unat c' < unat n"
      using False uc Suc.prems(2) by (metis Suc_lessI less_nat_zero_code word_unat_eq_iff gr0I)
    have no: "\<not> free_run m off (unat n)" using z lt by (simp add: zeros_at_free_run)
    have "\<not> free_run m j (unat n)" if "j < Suc off" "\<not> free_run m j (unat n) \<or> j = off" for j
      using that no by auto
    then show ?thesis
      using Suc.IH [OF z lt] no unfolding eq
      by (auto split: option.splits simp: less_Suc_eq)
  qed
qed

lemma search_from_top:
  assumes "n \<noteq> 0"
  shows "case mymem_search m n 0 (length m) of
     None \<Rightarrow> \<forall>k. \<not> free_run m k (unat n)
   | Some k \<Rightarrow> free_run m k (unat n) \<and> (\<forall>j > k. \<not> free_run m j (unat n))"
proof -
  have pos: "0 < unat n" using assms by (simp add: unat_u16_pos)
  have top: "\<not> free_run m j (unat n)" if "length m \<le> j" for j
    using that pos by (simp add: free_run_def)
  have "zeros_at m (length m) (unat (0 :: u16))" by (simp add: zeros_at_def)
  from search_spec [OF this, of n] pos
  have "case mymem_search m n 0 (length m) of
     None \<Rightarrow> \<forall>k < length m. \<not> free_run m k (unat n)
   | Some k \<Rightarrow> k < length m \<and> free_run m k (unat n)
       \<and> (\<forall>j. k < j \<and> j < length m \<longrightarrow> \<not> free_run m j (unat n))" by simp
  then show ?thesis
    using top by (cases "mymem_search m n 0 (length m)") (auto, (metis not_le)+)
qed

subsection \<open>The table invariant\<close>

text \<open>
  \<open>tab m B\<close>: the table \<open>m\<close> records exactly the allocations \<open>B\<close>, a map from the first block
  of an allocation to its length in blocks.
\<close>

definition tab :: "u16 list \<Rightarrow> (nat \<rightharpoonup> nat) \<Rightarrow> bool" where
  "tab m B \<longleftrightarrow>
     (\<forall>k n. B k = Some n \<longrightarrow> 0 < n \<and> n < 65536 \<and> k + n \<le> length m
        \<and> (\<forall>i. k \<le> i \<and> i < k + n \<longrightarrow> m ! i = of_nat n))
   \<and> (\<forall>k n j l. B k = Some n \<and> B j = Some l \<and> k < j \<longrightarrow> k + n \<le> j)
   \<and> (\<forall>i < length m. m ! i \<noteq> 0 \<longrightarrow> (\<exists>k n. B k = Some n \<and> k \<le> i \<and> i < k + n))"

definition fill :: "u16 list \<Rightarrow> nat \<Rightarrow> nat \<Rightarrow> u16 \<Rightarrow> u16 list" where
  "fill m k n v = take k m @ replicate n v @ drop (k + n) m"

lemma fill_length [simp]: "k + n \<le> length m \<Longrightarrow> length (fill m k n v) = length m"
  by (simp add: fill_def)

lemma fill_nth:
  "k + n \<le> length m \<Longrightarrow> i < length m \<Longrightarrow>
   fill m k n v ! i = (if k \<le> i \<and> i < k + n then v else m ! i)"
  by (auto simp: fill_def nth_append min_def)

lemma fill_same:
  assumes "k + n \<le> length m" and "\<forall>i. k \<le> i \<and> i < k + n \<longrightarrow> m ! i = v"
  shows "fill (fill m k n w) k n v = m"
  using assms by (intro nth_equalityI) (simp_all add: fill_nth)

lemma write_range_fill: "k + n \<le> length m \<Longrightarrow> write_range m k n v = Some (fill m k n v)"
  by (simp add: write_range_block fill_def)

lemma tab_block:
  assumes "tab m B" and "B k = Some n"
  shows "0 < n" and "n < 65536" and "k + n \<le> length m" and "k < length m"
    and "k \<le> i \<Longrightarrow> i < k + n \<Longrightarrow> m ! i = of_nat n" and "unat (m ! k) = n"
proof -
  show n: "0 < n" "n < 65536" "k + n \<le> length m"
    and m: "k \<le> i \<Longrightarrow> i < k + n \<Longrightarrow> m ! i = of_nat n" for i
    using assms unfolding tab_def by blast+
  then show "k < length m" by linarith
  have "m ! k = of_nat n" using m [of k] n(1) by simp
  then show "unat (m ! k) = n" using n(2) by (simp add: unat_of_nat_u16)
qed

lemma tab_separate:
  assumes "tab m B" and "B k = Some n" and "B j = Some l" and "k \<noteq> j"
  shows "k + n \<le> j \<or> j + l \<le> k"
  using assms unfolding tab_def by (metis linorder_neqE_nat)

lemma tab_used: "tab m B \<Longrightarrow> i < length m \<Longrightarrow> m ! i \<noteq> 0 \<Longrightarrow> \<exists>k n. B k = Some n \<and> k \<le> i \<and> i < k + n"
  unfolding tab_def by blast

lemma tab_block_nonzero:
  assumes "tab m B" and "B k = Some n" and "k \<le> i" and "i < k + n"
  shows "m ! i \<noteq> 0"
proof -
  have "m ! i = of_nat n" "0 < n" "n < 65536"
    using tab_block(1,2) [OF assms(1,2)] tab_block(5) [OF assms(1,2,3,4)] by simp_all
  then show ?thesis by (metis mod_less unat_0 unat_of_nat_u16 less_irrefl)
qed

lemma tab_empty: "tab (replicate n 0) Map.empty"
  by (simp add: tab_def)

lemma tab_run_free:
  assumes "tab m B" and "free_run m k n" and "B j = Some l" and "0 < n"
  shows "j + l \<le> k \<or> k + n \<le> j"
proof (rule ccontr)
  assume "\<not> ?thesis"
  then have "j < k + n" "k < j + l" by auto
  define i where "i = max j k"
  have "i < k + n" "k \<le> i" "j \<le> i" "i < j + l"
    using \<open>j < k + n\<close> \<open>k < j + l\<close> tab_block(1) [OF assms(1,3)] assms(4) by (auto simp: i_def)
  then have "m ! i = 0"
    using assms(2) by (auto simp: free_run_def dest!: spec [of _ "i - k"])
  moreover have "m ! i \<noteq> 0"
    using tab_block_nonzero [OF assms(1,3) \<open>j \<le> i\<close> \<open>i < j + l\<close>] .
  ultimately show False by simp
qed

lemma tab_alloc:
  assumes t: "tab m B" and f: "free_run m k n" and n: "0 < n" "n < 65536"
  shows "B k = None" and "tab (fill m k n (of_nat n)) (B(k \<mapsto> n))"
proof -
  have kn: "k + n \<le> length m" using f by (simp add: free_run_def)
  have sep: "j + l \<le> k \<or> k + n \<le> j" if "B j = Some l" for j l
    using tab_run_free [OF t f that n(1)] .
  show none: "B k = None"
  proof (rule ccontr)
    assume "B k \<noteq> None"
    then obtain l where "B k = Some l" by blast
    then show False using sep [of k l] tab_block(1) [OF t, of k l] n(1) by simp
  qed
  have keep: "fill m k n (of_nat n) ! i = m ! i" if "B j = Some l" "j \<le> i" "i < j + l" for i j l
    using sep [OF that(1)] that tab_block(3) [OF t that(1)] kn by (auto simp: fill_nth)
  have new: "fill m k n (of_nat n) ! i = of_nat n" if "k \<le> i" "i < k + n" for i
    using that kn by (simp add: fill_nth)
  show "tab (fill m k n (of_nat n)) (B(k \<mapsto> n))"
    unfolding tab_def
  proof (intro conjI allI impI, goal_cases)
    case (1 j l) then show ?case using n tab_block(1) [OF t] by (auto split: if_splits)
  next
    case (2 j l) then show ?case using n tab_block(2) [OF t] by (auto split: if_splits)
  next
    case (3 j l) then show ?case using kn tab_block(3) [OF t] by (auto split: if_splits)
  next
    case (4 j l i)
    then show ?case
      using keep [of j l i] new [of i] tab_block(5) [OF t, of j l i] by (auto split: if_splits)
  next
    case (5 j l j' l')
    then show ?case
      using sep [of j l] sep [of j' l'] tab_separate [OF t, of j l j' l'] n
        tab_block(1) [OF t, of j' l'] by (auto split: if_splits)
  next
    case (6 i)
    then show ?case
      using tab_used [OF t, of i] kn none by (fastforce simp: fill_nth split: if_splits)
  qed
qed

lemma tab_release:
  assumes t: "tab m B" and B: "B k = Some n"
  shows "tab (fill m k n 0) (B(k := None))"
proof -
  have kn: "k + n \<le> length m" using tab_block(3) [OF t B] .
  have keep: "fill m k n 0 ! i = m ! i" if "B j = Some l" "j \<noteq> k" "j \<le> i" "i < j + l" for i j l
    using tab_separate [OF t B that(1)] that tab_block(3) [OF t that(1)] kn
    by (auto simp: fill_nth)
  show ?thesis
    unfolding tab_def
  proof (intro conjI allI impI, goal_cases)
    case (4 j l i)
    then show ?case
      using keep [of j l i] tab_block(5) [OF t, of j l i] by (auto split: if_splits)
  next
    case (5 j l j' l')
    then show ?case
      using tab_separate [OF t, of j l j' l'] tab_block(1) [OF t, of j' l']
      by (auto split: if_splits)
  next
    case (6 i)
    then have i: "i < length m" "m ! i \<noteq> 0" "\<not> (k \<le> i \<and> i < k + n)"
      using kn by (auto simp: fill_nth split: if_splits)
    then obtain j l where "B j = Some l" "j \<le> i" "i < j + l" using tab_used [OF t] by blast
    then show ?case using i B by (intro exI [of _ j] exI [of _ l]) auto
  qed (use tab_block(1-3) [OF t] kn in \<open>auto split: if_splits\<close>)
qed

subsection \<open>Pools\<close>

lemmas bank_defs = SRAMBANK_def memtblsize_def memblksize_def memsize_def

lemma memtblsize_bound: "unat (memtblsize b) \<le> 6400" "0 < unat (memtblsize b)"
  and memsize_blocks: "unat (memsize b) = 32 * unat (memtblsize b)"
  by (simp_all add: memtblsize_def memsize_def)

definition pool_wf :: "u8 \<Rightarrow> mallco_dev \<Rightarrow> bool" where
  "pool_wf b d \<longleftrightarrow> b < SRAMBANK \<and> memrdy d b \<noteq> 0
     \<and> length (memmap d b) = unat (memtblsize b)
     \<and> 0 < membase d b \<and> unat (membase d b) + unat (memsize b) < 2 ^ 32"

lemma pool_wf_table:
  "pool_wf b d \<Longrightarrow> length m = length (memmap d b) \<Longrightarrow> pool_wf b (d\<lparr>memmap := (memmap d)(b := m)\<rparr>)"
  by (simp add: pool_wf_def)

definition blocks_of :: "u32 \<Rightarrow> nat" where
  "blocks_of sz = (unat sz + 31) div 32"

lemma ceil_div_32:
  fixes x :: nat
  shows "x mod 32 = 0 \<Longrightarrow> (x + 31) div 32 = x div 32"
    and "x mod 32 \<noteq> 0 \<Longrightarrow> (x + 31) div 32 = x div 32 + 1"
proof -
  have e: "(x + 31) div 32 = x div 32 + (x mod 32 + 31) div 32"
    using div_add1_eq [of x 31 32] by simp
  show "x mod 32 = 0 \<Longrightarrow> (x + 31) div 32 = x div 32" unfolding e by simp
  assume nz: "x mod 32 \<noteq> 0"
  moreover have "x mod 32 < 32" by simp
  ultimately have "(x mod 32 + 31) div 32 = 1" by (intro div_nat_eqI) auto
  then show "(x + 31) div 32 = x div 32 + 1" unfolding e by simp
qed

lemma block_count_exact:
  assumes "0 < sz" and "sz \<le> 2097120"
  shows "unat (block_count b sz) = blocks_of sz" and "0 < blocks_of sz" and "blocks_of sz < 65536"
    and "block_count b sz = of_nat (blocks_of sz)"
proof -
  have s: "0 < unat sz" "unat sz \<le> 2097120"
    using assms(1) assms(2) [unfolded word_le_nat_alt] by (simp_all add: unat_gt_0)
  have q: "unat sz div 32 \<le> 65535" using div_le_mono [OF s(2), of 32] by simp
  show b: "0 < blocks_of sz" unfolding blocks_of_def
    using s(1) by (simp add: div_greater_zero_iff)
  have d: "unat (ucast (sz div 32) :: u16) = unat sz div 32"
    using q by (simp add: unat_ucast_u32_u16 u32_div_unat)
  have z: "sz mod 32 = 0 \<longleftrightarrow> unat sz mod 32 = 0"
    by (simp add: word_unat_eq_iff u32_mod_unat)
  have "unat (block_count b sz) = blocks_of sz \<and> blocks_of sz < 65536"
  proof (cases "unat sz mod 32 = 0")
    case True
    then show ?thesis
      using z d q by (simp add: block_count_def memblksize_def blocks_of_def ceil_div_32)
  next
    case False
    then have "unat sz \<noteq> 2097120" by auto
    then have "unat sz < 2097120" using s(2) by simp
    then have "unat sz div 32 < 65535" by (simp add: div_less_iff_less_mult)
    then have "unat sz div 32 + 1 < 65536" by simp
    then show ?thesis using False z d
      by (simp add: block_count_def memblksize_def unat_add_one_u16 blocks_of_def ceil_div_32)
  qed
  then show "blocks_of sz < 65536" by simp
  from \<open>unat (block_count b sz) = blocks_of sz \<and> blocks_of sz < 65536\<close>
  show "unat (block_count b sz) = blocks_of sz" "block_count b sz = of_nat (blocks_of sz)"
    using word_of_nat_unat_id [of "block_count b sz"] by simp_all
qed

text \<open>What one call does, on a ready pool.\<close>

lemma mymem_malloc_run:
  assumes w: "pool_wf b d" and t: "tab (memmap d b) B" and sz: "0 < sz" "sz \<le> 2097120"
  defines "n \<equiv> blocks_of sz"
  shows "(\<exists>k. mymem_malloc b sz d = Some (d\<lparr>memmap := (memmap d)(b := fill (memmap d b) k n (of_nat n))\<rparr>, of_nat (32 * k))
      \<and> free_run (memmap d b) k n \<and> (\<forall>j > k. \<not> free_run (memmap d b) j n))
    \<or> (mymem_malloc b sz d = Some (d, 0xFFFFFFFF) \<and> (\<forall>k. \<not> free_run (memmap d b) k n))"
proof -
  have bc: "unat (block_count b sz) = n" "0 < n" "n < 65536" "block_count b sz = of_nat n"
    unfolding n_def using block_count_exact [OF sz] by auto
  have nz: "block_count b sz \<noteq> 0" using bc(1,2) by auto
  have len: "unat (memtblsize b) = length (memmap d b)" and rdy: "memrdy d b \<noteq> 0" "\<not> SRAMBANK \<le> b"
    using w by (auto simp: pool_wf_def)
  note top = search_from_top [OF nz, of "memmap d b", unfolded bc(1)]
  have sz0: "sz \<noteq> 0" using sz(1) by auto
  show ?thesis
  proof (cases "mymem_search (memmap d b) (block_count b sz) 0 (length (memmap d b))")
    case None
    then show ?thesis using top rdy sz0 len by (simp add: mymem_malloc_def)
  next
    case (Some k)
    then have f: "free_run (memmap d b) k n" "\<forall>j > k. \<not> free_run (memmap d b) j n"
      using top by simp_all
    then have "write_range (memmap d b) k n (block_count b sz) = Some (fill (memmap d b) k n (of_nat n))"
      using bc(4) by (simp add: free_run_def write_range_fill)
    then show ?thesis using f Some rdy sz0 len bc
      by (intro disjI1 exI [of _ k]) (simp add: mymem_malloc_def memblksize_def mult.commute)
  qed
qed

lemma mymem_free_run:
  assumes w: "pool_wf b d" and t: "tab (memmap d b) B" and k: "B k = Some n"
  shows "mymem_free b (of_nat (32 * k)) d
    = Some (d\<lparr>memmap := (memmap d)(b := fill (memmap d b) k n 0)\<rparr>, 0)"
proof -
  have len: "unat (memtblsize b) = length (memmap d b)" and rdy: "memrdy d b \<noteq> 0" "\<not> SRAMBANK \<le> b"
    using w by (auto simp: pool_wf_def)
  note kn = tab_block [OF t k]
  have k6: "k < 6400" using kn(4) memtblsize_bound(1) [of b] len by simp
  then have u: "unat (of_nat (32 * k) :: u32) = 32 * k" by (simp only: unat_of_nat_u32) simp
  have "unat (of_nat (32 * k) :: u32) < unat (memsize b)"
    using kn(4) len unfolding u by (simp add: memsize_blocks)
  then have lt: "of_nat (32 * k) < memsize b" by (simp only: word_less_nat_alt)
  have ix: "unat (of_nat (32 * k) div memblksize b) = k"
    by (simp only: memblksize_def u32_div_unat u) simp
  show ?thesis
    using lt rdy kn(3,6) unfolding mymem_free_def
    by (simp add: ix Let_def write_range_fill del: of_nat_mult)
qed

subsection \<open>The pool as an allocator\<close>

definition pool_cells :: "u32 \<Rightarrow> (nat \<rightharpoonup> nat) \<Rightarrow> (u32 \<rightharpoonup> nat set)" where
  "pool_cells base B p =
     (let off = unat (p - base) in if off mod 32 = 0
      then map_option (\<lambda>n. {unat p ..< unat p + 32 * n}) (B (off div 32)) else None)"

definition pool_rep :: "u8 \<Rightarrow> mallco_dev \<Rightarrow> (u32 \<rightharpoonup> nat set) \<Rightarrow> bool" where
  "pool_rep b d M \<longleftrightarrow> pool_wf b d \<and> (\<exists>B. tab (memmap d b) B \<and> M = pool_cells (membase d b) B)"

definition block_ptr :: "u8 \<Rightarrow> mallco_dev \<Rightarrow> nat \<Rightarrow> u32" where
  "block_ptr b d k = membase d b + of_nat (32 * k)"

lemma block_ptr_unat:
  assumes "pool_wf b d" and "k \<le> unat (memtblsize b)"
  shows "unat (block_ptr b d k) = unat (membase d b) + 32 * k" and "block_ptr b d k \<noteq> 0"
    and "unat (block_ptr b d k - membase d b) = 32 * k"
proof -
  have "32 * k < 2 ^ 32" using assms(2) memtblsize_bound(1) [of b] by simp
  then have u: "unat (of_nat (32 * k) :: u32) = 32 * k" by (simp only: unat_of_nat_u32) simp
  have "unat (membase d b) + 32 * k < 2 ^ 32"
    using assms by (simp add: pool_wf_def memsize_blocks)
  then show e: "unat (block_ptr b d k) = unat (membase d b) + 32 * k"
    unfolding block_ptr_def by (simp only: unat_word_ariths u) simp
  have "0 < unat (membase d b)" using assms(1) by (simp add: pool_wf_def unat_gt_0 word_gt_0)
  then show "block_ptr b d k \<noteq> 0" using e by auto
  show "unat (block_ptr b d k - membase d b) = 32 * k" by (simp add: block_ptr_def u del: of_nat_mult)
qed

lemma pool_cells_block:
  assumes "pool_wf b d" and "k \<le> unat (memtblsize b)"
  shows "pool_cells (membase d b) B (block_ptr b d k)
    = map_option (\<lambda>n. {unat (block_ptr b d k) ..< unat (block_ptr b d k) + 32 * n}) (B k)"
  by (simp add: pool_cells_def block_ptr_unat(3) [OF assms])

lemma pool_cells_Some:
  assumes "pool_wf b d" and "tab (memmap d b) B" and "pool_cells (membase d b) B p = Some C"
  obtains k n where "B k = Some n" and "p = block_ptr b d k" and "k < unat (memtblsize b)"
    and "C = {unat p ..< unat p + 32 * n}" and "k + n \<le> unat (memtblsize b)"
proof -
  let ?o = "unat (p - membase d b)"
  obtain n where n: "?o mod 32 = 0" "B (?o div 32) = Some n" "C = {unat p ..< unat p + 32 * n}"
    using assms(3) by (auto simp: pool_cells_def Let_def split: if_splits)
  have "?o = 32 * (?o div 32)" using n(1) by (simp add: dvd_eq_mod_eq_0 [symmetric])
  then have "of_nat (32 * (?o div 32)) = p - membase d b"
    by (metis word_of_nat_unat_id)
  then have "p = block_ptr b d (?o div 32)" by (simp add: block_ptr_def)
  moreover have "?o div 32 + n \<le> unat (memtblsize b)" "?o div 32 < unat (memtblsize b)"
    using tab_block(3,4) [OF assms(2) n(2)] assms(1) by (simp_all add: pool_wf_def)
  ultimately show thesis using that n by blast
qed

lemma pool_cells_upd:
  assumes "pool_wf b d" and "k \<le> unat (memtblsize b)"
  shows "pool_cells (membase d b) (B(k := x)) = (pool_cells (membase d b) B)
    (block_ptr b d k := map_option (\<lambda>n. {unat (block_ptr b d k) ..< unat (block_ptr b d k) + 32 * n}) x)"
proof (rule ext)
  fix p
  let ?o = "unat (p - membase d b)"
  show "pool_cells (membase d b) (B(k := x)) p = ((pool_cells (membase d b) B)
    (block_ptr b d k := map_option (\<lambda>n. {unat (block_ptr b d k) ..< unat (block_ptr b d k) + 32 * n}) x)) p"
  proof (cases "p = block_ptr b d k")
    case True
    then show ?thesis using pool_cells_block [OF assms] by simp
  next
    case False
    have "?o div 32 \<noteq> k" if "?o mod 32 = 0"
    proof
      assume "?o div 32 = k"
      then have "?o = 32 * k" using that by (metis mult_div_mod_eq add.right_neutral)
      then have "p - membase d b = of_nat (32 * k)" by (metis word_of_nat_unat_id)
      then have "p = block_ptr b d k" unfolding block_ptr_def by (metis diff_add_cancel add.commute)
      with False show False ..
    qed
    then show ?thesis using False by (auto simp: pool_cells_def Let_def)
  qed
qed

lemma offset_not_error:
  assumes "k < 6400"
  shows "(of_nat (32 * k) :: u32) \<noteq> 0xFFFFFFFF"
proof -
  have "unat (of_nat (32 * k) :: u32) = 32 * k" using assms by (simp only: unat_of_nat_u32) simp
  then have "unat (of_nat (32 * k) :: u32) \<noteq> unat (0xFFFFFFFF :: u32)" using assms by simp
  then show ?thesis by metis
qed

lemma pool_null: "pool_wf b d \<Longrightarrow> tab (memmap d b) B \<Longrightarrow> pool_cells (membase d b) B 0 = None"
  using pool_cells_Some [of b d B 0] block_ptr_unat(2) [of b d] by (metis not_None_eq order_less_imp_le)

lemma mymalloc_cases:
  assumes w: "pool_wf b d" and t: "tab (memmap d b) B" and sz: "0 < sz" "sz \<le> 2097120"
  obtains k where "k + blocks_of sz \<le> unat (memtblsize b)" and "B k = None"
      and "free_run (memmap d b) k (blocks_of sz)"
      and "mymalloc b sz d = Some (d\<lparr>memmap := (memmap d)(b :=
              fill (memmap d b) k (blocks_of sz) (of_nat (blocks_of sz)))\<rparr>, block_ptr b d k)"
      and "tab (fill (memmap d b) k (blocks_of sz) (of_nat (blocks_of sz))) (B(k \<mapsto> blocks_of sz))"
  | "mymalloc b sz d = Some (d, 0)" and "\<forall>k. \<not> free_run (memmap d b) k (blocks_of sz)"
proof -
  let ?n = "blocks_of sz"
  have n: "0 < ?n" "?n < 65536" using block_count_exact [OF sz] by auto
  have len: "length (memmap d b) = unat (memtblsize b)" using w by (simp add: pool_wf_def)
  consider (found) k where "mymem_malloc b sz d
        = Some (d\<lparr>memmap := (memmap d)(b := fill (memmap d b) k ?n (of_nat ?n))\<rparr>, of_nat (32 * k))"
        "free_run (memmap d b) k ?n"
    | (none) "mymem_malloc b sz d = Some (d, 0xFFFFFFFF)" "\<forall>k. \<not> free_run (memmap d b) k ?n"
    using mymem_malloc_run [OF w t sz] by blast
  then show thesis
  proof cases
    case found
    have kn: "k + ?n \<le> unat (memtblsize b)" using found(2) len by (simp add: free_run_def)
    then have "k < 6400" using memtblsize_bound(1) [of b] n(1) by linarith
    then have "mymalloc b sz d = Some (d\<lparr>memmap := (memmap d)(b := fill (memmap d b) k ?n (of_nat ?n))\<rparr>,
        block_ptr b d k)"
      using found(1) offset_not_error [of k] by (simp add: mymalloc_def block_ptr_def del: of_nat_mult)
    then show thesis using that(1) [of k] kn found(2) tab_alloc [OF t found(2) n] by blast
  next
    case none
    then show thesis using that(2) by (simp add: mymalloc_def)
  qed
qed

lemma myfree_run:
  assumes w: "pool_wf b d" and t: "tab (memmap d b) B" and k: "B k = Some n"
  shows "myfree b (block_ptr b d k) d
    = Some (d\<lparr>memmap := (memmap d)(b := fill (memmap d b) k n 0)\<rparr>)"
proof -
  have "k \<le> unat (memtblsize b)" using tab_block(4) [OF t k] w by (simp add: pool_wf_def)
  then have "block_ptr b d k \<noteq> 0" using block_ptr_unat(2) [OF w] by blast
  moreover have "block_ptr b d k - membase d b = of_nat (32 * k)" by (simp add: block_ptr_def)
  ultimately show ?thesis using mymem_free_run [OF w t k] by (simp add: myfree_def del: of_nat_mult)
qed

definition pool_fits :: "u32 \<Rightarrow> u32 \<Rightarrow> nat set \<Rightarrow> bool" where
  "pool_fits sz p C \<longleftrightarrow> {unat p ..< unat p + unat sz} \<subseteq> C"

lemma blocks_of_bytes: "unat sz \<le> 32 * blocks_of sz"
  by (simp add: blocks_of_def)

interpretation pool: allocator "mymalloc b" "myfree b" 0 "\<lambda>sz. 0 < sz \<and> sz \<le> 2097120"
    pool_fits "pool_rep b" for b
proof unfold_locales
  fix s M
  assume "pool_rep b s M"
  then show "M 0 = None" using pool_null by (auto simp: pool_rep_def)
next
  fix s M p B q C
  assume r: "pool_rep b s M" and p: "M p = Some B" and q: "M q = Some C" and ne: "p \<noteq> q"
  from r obtain T where T: "pool_wf b s" "tab (memmap s b) T" "M = pool_cells (membase s b) T"
    by (auto simp: pool_rep_def)
  obtain k n where k: "T k = Some n" "p = block_ptr b s k" "B = {unat p ..< unat p + 32 * n}"
      "k < unat (memtblsize b)"
    using pool_cells_Some [OF T(1,2)] p T(3) by metis
  obtain j l where j: "T j = Some l" "q = block_ptr b s j" "C = {unat q ..< unat q + 32 * l}"
      "j < unat (memtblsize b)"
    using pool_cells_Some [OF T(1,2)] q T(3) by metis
  have "k \<noteq> j" using ne k(2) j(2) by blast
  then have "k + n \<le> j \<or> j + l \<le> k" using tab_separate [OF T(2) k(1) j(1)] by blast
  then show "B \<inter> C = {}"
    using block_ptr_unat(1) [OF T(1), of k] block_ptr_unat(1) [OF T(1), of j] k j by auto
next
  fix s M and r :: u32
  assume r: "pool_rep b s M" and a: "0 < r \<and> r \<le> 2097120"
  from r obtain T where T: "pool_wf b s" "tab (memmap s b) T" "M = pool_cells (membase s b) T"
    by (auto simp: pool_rep_def)
  show "\<exists>s' p. mymalloc b r s = Some (s', p) \<and> (if p = 0 then pool_rep b s' M
      else M p = None \<and> (\<exists>B. pool_rep b s' (M(p \<mapsto> B)) \<and> pool_fits r p B))"
  proof (cases rule: mymalloc_cases [OF T(1,2) conjunct1 [OF a] conjunct2 [OF a]])
    case (1 k)
    let ?n = "blocks_of r" and ?p = "block_ptr b s k"
    let ?C = "{unat ?p ..< unat ?p + 32 * ?n}"
    let ?s = "s\<lparr>memmap := (memmap s)(b := fill (memmap s b) k ?n (of_nat ?n))\<rparr>"
    have kt: "k \<le> unat (memtblsize b)" using 1(1) by simp
    have "pool_wf b ?s" using T(1) 1(1) by (intro pool_wf_table) (simp_all add: pool_wf_def)
    moreover have "M(?p \<mapsto> ?C) = pool_cells (membase s b) (T(k \<mapsto> ?n))"
      using pool_cells_upd [OF T(1) kt, of T "Some ?n"] T(3) by simp
    ultimately have "pool_rep b ?s (M(?p \<mapsto> ?C))"
      unfolding pool_rep_def using 1(5) by (intro conjI exI [of _ "T(k \<mapsto> ?n)"]) simp_all
    moreover have "M ?p = None" using pool_cells_block [OF T(1) kt] 1(2) T(3) by simp
    moreover have "pool_fits r ?p ?C" using blocks_of_bytes [of r] by (auto simp: pool_fits_def)
    ultimately show ?thesis using 1(4) block_ptr_unat(2) [OF T(1) kt] by auto
  next
    case 2
    then show ?thesis using r by simp
  qed
next
  fix s M p B
  assume r: "pool_rep b s M" and p: "M p = Some B"
  from r obtain T where T: "pool_wf b s" "tab (memmap s b) T" "M = pool_cells (membase s b) T"
    by (auto simp: pool_rep_def)
  obtain k n where k: "T k = Some n" "p = block_ptr b s k" "k < unat (memtblsize b)"
      "k + n \<le> unat (memtblsize b)"
    using pool_cells_Some [OF T(1,2)] p T(3) by metis
  let ?s = "s\<lparr>memmap := (memmap s)(b := fill (memmap s b) k n 0)\<rparr>"
  have "pool_wf b ?s" using T(1) k(4) by (intro pool_wf_table) (simp_all add: pool_wf_def)
  moreover have "M(p := None) = pool_cells (membase s b) (T(k := None))"
    using pool_cells_upd [OF T(1) order_less_imp_le [OF k(3)], of T None] T(3) k(2) by simp
  ultimately have "pool_rep b ?s (M(p := None))"
    unfolding pool_rep_def using tab_release [OF T(2) k(1)]
    by (intro conjI exI [of _ "T(k := None)"]) simp_all
  then show "\<exists>s'. myfree b p s = Some s' \<and> pool_rep b s' (M(p := None))"
    using myfree_run [OF T(1,2) k(1)] k(2) by blast
qed

subsection \<open>Copying\<close>

lemma of_nat_u32_neq:
  assumes "i < j" and "j < 2 ^ 32"
  shows "(of_nat i :: u32) \<noteq> of_nat j"
proof
  assume "(of_nat i :: u32) = of_nat j"
  then have "unat (of_nat i :: u32) = unat (of_nat j :: u32)" by simp
  then show False using assms by (simp add: unat_of_nat_u32)
qed

lemma memcpy_frame:
  "(\<And>j. j < n \<Longrightarrow> a \<noteq> des + of_nat j) \<Longrightarrow> memcpy_loop des src n m a = m a"
proof (induction n arbitrary: des src m)
  case 0
  then show ?case by simp
next
  case (Suc n)
  have "a \<noteq> des" using Suc.prems [of 0] by simp
  moreover have "a \<noteq> des + 1 + of_nat j" if "j < n" for j
    using Suc.prems [of "Suc j"] that by (simp add: add.assoc)
  ultimately show ?case using Suc.IH by simp
qed

lemma memcpy_at:
  "i < n \<Longrightarrow> n < 2 ^ 32 \<Longrightarrow> (\<And>j. j < i \<Longrightarrow> src + of_nat i \<noteq> des + of_nat j) \<Longrightarrow>
   memcpy_loop des src n m (des + of_nat i) = m (src + of_nat i)"
proof (induction n arbitrary: des src m i)
  case 0
  then show ?case by simp
next
  case (Suc n)
  show ?case
  proof (cases i)
    case 0
    have "des \<noteq> des + 1 + of_nat j" if "j < n" for j
      using of_nat_u32_neq [of 0 "Suc j"] that Suc.prems(2) by (simp add: add.assoc)
    then show ?thesis using 0 memcpy_frame [of n des "des + 1"] by simp
  next
    case (Suc k)
    have "src + 1 + of_nat k \<noteq> des + 1 + of_nat j" if "j < k" for j
      using Suc.prems(3) [of "Suc j"] that \<open>i = Suc k\<close> by (simp add: algebra_simps)
    then have "memcpy_loop (des + 1) (src + 1) n (m(des := m src)) (des + 1 + of_nat k)
        = (m(des := m src)) (src + 1 + of_nat k)"
      using Suc.prems(1,2) \<open>i = Suc k\<close> by (intro Suc.IH) auto
    moreover have "src + 1 + of_nat k \<noteq> des"
      using Suc.prems(3) [of 0] \<open>i = Suc k\<close> by (simp add: algebra_simps)
    ultimately show ?thesis using \<open>i = Suc k\<close> by (simp add: algebra_simps)
  qed
qed

lemma unat_add_offset: "unat (p :: u32) + i < 2 ^ 32 \<Longrightarrow> unat (p + of_nat i) = unat p + i"
  by (simp add: unat_word_ariths unat_of_nat_u32)

lemma mymem_malloc_mymalloc:
  assumes "mymem_malloc b sz d = Some (d', off)" and "off \<noteq> 0xFFFFFFFF"
  shows "mymalloc b sz d = Some (d', membase d' b + off)"
  using assms by (simp add: mymalloc_def)

lemma pool_rep_ram [simp]: "pool_rep b (d\<lparr>ram := r\<rparr>) M = pool_rep b d M"
  by (simp add: pool_rep_def pool_wf_def)

lemma pool_cells_range:
  assumes "pool_rep b d M" and "M p = Some C"
  shows "\<exists>n. C = {unat p ..< unat p + 32 * n} \<and> unat p + 32 * n < 2 ^ 32"
proof -
  obtain T where T: "pool_wf b d" "tab (memmap d b) T" "M = pool_cells (membase d b) T"
    using assms(1) by (auto simp: pool_rep_def)
  then obtain k n where k: "p = block_ptr b d k" "k < unat (memtblsize b)"
      "C = {unat p ..< unat p + 32 * n}" "k + n \<le> unat (memtblsize b)"
    using pool_cells_Some [OF T(1,2)] assms(2) by metis
  then have "unat p + 32 * n \<le> unat (membase d b) + unat (memsize b)"
    using block_ptr_unat(1) [OF T(1)] by (simp add: memsize_blocks)
  then show ?thesis using k T(1) by (auto simp: pool_wf_def)
qed

lemma mymem_malloc_ram: "mymem_malloc b sz d = Some (d', off) \<Longrightarrow> memrdy d b \<noteq> 0 \<Longrightarrow> ram d' = ram d"
  by (auto simp: mymem_malloc_def Let_def split: if_splits option.splits bind_splits)

lemma myfree_ram: "myfree b p d = Some d' \<Longrightarrow> memrdy d b \<noteq> 0 \<Longrightarrow> ram d' = ram d"
  by (auto simp: myfree_def mymem_free_def Let_def split: if_splits option.splits bind_splits)

lemma myfree_membase: "myfree b p d = Some d' \<Longrightarrow> memrdy d b \<noteq> 0 \<Longrightarrow> membase d' = membase d"
  by (auto simp: myfree_def mymem_free_def Let_def split: if_splits option.splits bind_splits)

lemma mymem_malloc_memrdy:
  "mymem_malloc b sz d = Some (d', off) \<Longrightarrow> memrdy d b \<noteq> 0 \<Longrightarrow> memrdy d' = memrdy d"
  by (auto simp: mymem_malloc_def Let_def split: if_splits option.splits bind_splits)

subsection \<open>Oversized requests\<close>

lemma search_zero_blocks:
  assumes "i < off" and "m ! i \<noteq> 0" and "\<forall>j. i < j \<and> j < off \<longrightarrow> m ! j = 0"
    and "unat c + off < 65536"
  shows "mymem_search m 0 c off = Some i"
  using assms
proof (induction off arbitrary: c)
  case 0
  then show ?case by simp
next
  case (Suc off)
  show ?case
  proof (cases "i = off")
    case True
    with Suc.prems show ?thesis by simp
  next
    case False
    then have "i < off" "m ! off = 0" using Suc.prems(1,3) by auto
    moreover have u: "unat (c + 1) = unat c + 1" using Suc.prems(4) by (intro unat_add_one_u16) simp
    then have "c + 1 \<noteq> 0" by (metis add_is_0 unat_0 zero_neq_one)
    moreover have "mymem_search m 0 (c + 1) off = Some i"
      using Suc.prems u \<open>i < off\<close> by (intro Suc.IH) auto
    ultimately show ?thesis by simp
  qed
qed

subsection \<open>A concrete controller\<close>

text \<open>The controller after \<open>mymem_init\<close> on the three banks, for the examples.\<close>

definition empty_table :: "nat \<Rightarrow> u16 list" where
  "empty_table n = replicate n 0"

lemma empty_table_length [simp]: "length (empty_table n) = n"
  and empty_table_nth [simp]: "i < n \<Longrightarrow> empty_table n ! i = 0"
  by (simp_all add: empty_table_def)

definition dev0 :: mallco_dev where
  "dev0 = \<lparr>membase = (\<lambda>b. if b = 0 then 0x20000100 else if b = 1 then 0x68000000 else 0x10000000),
     memmap = (\<lambda>b. empty_table (unat (memtblsize b))), memrdy = (\<lambda>_. 1), ram = (\<lambda>_. 0)\<rparr>"

lemma dev0_wf: "b < SRAMBANK \<Longrightarrow> pool_wf b dev0"
  by (simp add: pool_wf_def dev0_def memsize_def SRAMBANK_def)

lemma dev0_tab: "tab (memmap dev0 b) Map.empty"
  by (simp add: dev0_def empty_table_def tab_empty)

lemma dev0_rep: "b < SRAMBANK \<Longrightarrow> pool_rep b dev0 Map.empty"
  unfolding pool_rep_def using dev0_wf dev0_tab
  by (intro conjI exI [of _ Map.empty]) (auto simp: pool_cells_def fun_eq_iff Let_def)

lemma search_numeral:
  "mymem_search m n c (numeral k) =
     (let off = pred_numeral k; c = (if m ! off = 0 then c + 1 else 0)
      in if c = n then Some off else mymem_search m n c off)"
  by (simp add: numeral_eq_Suc Let_def)

lemma dev0_first: "mymem_malloc 0 64 dev0
    = Some (dev0\<lparr>memmap := (memmap dev0)(0 := fill (empty_table 3200) 3198 2 2)\<rparr>, 102336)"
proof -
  have "mymem_search (empty_table 3200) 2 0 3200 = Some 3198"
    by (simp add: search_numeral Let_def)
  then show ?thesis
    by (simp add: mymem_malloc_def dev0_def bank_defs block_count_def Let_def write_range_fill)
qed

lemma dev0_mymalloc: "mymalloc 0 64 dev0
    = Some (dev0\<lparr>memmap := (memmap dev0)(0 := fill (empty_table 3200) 3198 2 2)\<rparr>, 0x200190C0)"
proof -
  have "membase dev0 0 = 0x20000100" by (simp add: dev0_def)
  then show ?thesis by (simp add: mymalloc_def dev0_first)
qed

subsection \<open>Properties\<close>

text \<open>
  C31: on a ready pool whose table records the allocations B, a request of up to 65535 blocks
  either finds the highest run of enough free entries, marks exactly that run with its
  length and returns its byte offset, or returns 0xFFFFFFFF, changes nothing, and then no
  such run exists.
\<close>
theorem mymem_malloc_highest_fit:
  assumes "pool_wf b d" and "tab (memmap d b) B" and "0 < sz" and "sz \<le> 2097120"
    and "mymem_malloc b sz d = Some (d', off)"
  shows "if off = 0xFFFFFFFF
    then d' = d \<and> (\<forall>k. \<not> free_run (memmap d b) k (blocks_of sz))
    else \<exists>k. off = of_nat (32 * k) \<and> free_run (memmap d b) k (blocks_of sz)
      \<and> (\<forall>j > k. \<not> free_run (memmap d b) j (blocks_of sz))
      \<and> d' = d\<lparr>memmap := (memmap d)(b := fill (memmap d b) k (blocks_of sz) (of_nat (blocks_of sz)))\<rparr>
      \<and> tab (memmap d' b) (B(k \<mapsto> blocks_of sz))"
proof -
  have n: "0 < blocks_of sz" "blocks_of sz < 65536" using block_count_exact assms(3,4) by auto
  have e: "(of_nat (32 * k) :: u32) \<noteq> 0xFFFFFFFF" if "free_run (memmap d b) k (blocks_of sz)" for k
    using that assms(1) n(1) memtblsize_bound(1) [of b]
    by (intro offset_not_error) (simp add: free_run_def pool_wf_def)
  show ?thesis
    using mymem_malloc_run [OF assms(1-4)] assms(5) e tab_alloc(2) [OF assms(2) _ n]
    by (auto simp del: of_nat_mult)
qed

theorem mymem_malloc_highest_fit_witness:
  "\<exists>k. (102336 :: u32) = of_nat (32 * k) \<and> free_run (empty_table 3200) k 2
    \<and> (\<forall>j > k. \<not> free_run (empty_table 3200) j 2)"
proof -
  have m: "memmap dev0 0 = empty_table 3200" by (simp add: dev0_def memtblsize_def)
  have b: "blocks_of 64 = 2" by (simp add: blocks_of_def)
  show ?thesis
    using mymem_malloc_highest_fit [OF dev0_wf dev0_tab _ _ dev0_first] m b
    by (auto simp: SRAMBANK_def)
qed



text \<open>
  C33: a block obtained from \<open>mymalloc\<close> and handed straight back by \<open>myfree\<close> leaves the
  controller exactly as it was.
\<close>
theorem mymalloc_myfree_roundtrip:
  assumes "pool_wf b d" and "tab (memmap d b) B" and "0 < sz" and "sz \<le> 2097120"
    and "mymalloc b sz d = Some (d', p)" and "p \<noteq> 0"
  shows "myfree b p d' = Some d"
proof (cases rule: mymalloc_cases [OF assms(1-4)])
  case (1 k)
  let ?n = "blocks_of sz" and ?m = "memmap d b"
  have e: "d' = d\<lparr>memmap := (memmap d)(b := fill ?m k ?n (of_nat ?n))\<rparr>" "p = block_ptr b d k"
    using 1(4) assms(5) by auto
  have kn: "k + ?n \<le> length ?m" using 1(3) by (simp add: free_run_def)
  have "pool_wf b d'" unfolding e(1) using assms(1) kn by (intro pool_wf_table) simp_all
  moreover have "tab (memmap d' b) (B(k \<mapsto> ?n))" using 1(5) e(1) by simp
  ultimately have "myfree b (block_ptr b d' k) d'
      = Some (d'\<lparr>memmap := (memmap d')(b := fill (memmap d' b) k ?n 0)\<rparr>)"
    by (rule myfree_run) simp
  moreover have "fill (fill ?m k ?n (of_nat ?n)) k ?n 0 = ?m"
    using free_run_nth [OF 1(3)] kn by (intro fill_same) auto
  moreover have "block_ptr b d' k = p" by (simp add: e block_ptr_def)
  ultimately show ?thesis by (simp add: e(1))
qed (use assms in auto)

theorem mymalloc_myfree_roundtrip_witness:
  "\<exists>d'. mymalloc 0 64 dev0 = Some (d', 0x200190C0) \<and> myfree 0 0x200190C0 d' = Some dev0"
proof -
  have "pool_wf 0 dev0" by (rule dev0_wf) (simp add: SRAMBANK_def)
  then show ?thesis using mymalloc_myfree_roundtrip [OF _ dev0_tab _ _ dev0_mymalloc] dev0_mymalloc by simp
qed



text \<open>
  A request whose block count is a multiple of 65536 wraps the \<open>u16\<close> counter to 0, and
  \<open>mymem_malloc\<close> then returns the offset of the highest block in use, without marking
  anything: the caller is handed memory that another caller owns.
\<close>
theorem mymem_malloc_oversized:
  assumes "pool_wf b d" and "sz \<noteq> 0" and "block_count b sz = 0"
    and "i < unat (memtblsize b)" and "memmap d b ! i \<noteq> 0"
    and "\<forall>j. i < j \<and> j < unat (memtblsize b) \<longrightarrow> memmap d b ! j = 0"
  shows "mymem_malloc b sz d = Some (d, of_nat (32 * i))"
proof -
  have "mymem_search (memmap d b) 0 0 (unat (memtblsize b)) = Some i"
    using assms(4-6) memtblsize_bound(1) [of b] by (intro search_zero_blocks) auto
  then show ?thesis
    using assms(1-3) by (auto simp: mymem_malloc_def pool_wf_def memblksize_def mult.commute)
qed

theorem mymem_malloc_oversized_witness:
  "mymem_malloc 0 2097152 (dev0\<lparr>memmap := (memmap dev0)(0 := (empty_table 3200)[5 := 1])\<rparr>)
    = Some (dev0\<lparr>memmap := (memmap dev0)(0 := (empty_table 3200)[5 := 1])\<rparr>, 160)"
proof -
  let ?d = "dev0\<lparr>memmap := (memmap dev0)(0 := (empty_table 3200)[5 := 1])\<rparr>"
  have "pool_wf 0 ?d"
    by (rule pool_wf_table [OF dev0_wf]) (simp_all add: SRAMBANK_def dev0_def memtblsize_def)
  moreover have "block_count 0 2097152 = 0" by (simp add: block_count_def memblksize_def)
  ultimately show ?thesis
    using mymem_malloc_oversized [of 0 ?d 2097152 5] by (simp add: memtblsize_def)
qed

end
