(* ===== verification/Byte_Order.thy ===== *)
theory Byte_Order
  imports Prelude
begin

unbundle bit_operations_syntax

text \<open>
  Model of core/def.c: the byte swapping functions of a little-endian host (this target sets
  no \<open>LWIP_PLATFORM_BYTESWAP\<close>), and of the masks and shifts the network code uses.
  Lemmas: what the masks and shifts do to the number, and the swaps as permutations of bytes.
\<close>

subsection \<open>Operations\<close>

definition lwip_htons :: "u16 \<Rightarrow> u16" where
  "lwip_htons n = push_bit 8 (n AND 0xff) OR drop_bit 8 (n AND 0xff00)"

definition lwip_ntohs :: "u16 \<Rightarrow> u16" where
  "lwip_ntohs n = lwip_htons n"

definition lwip_htonl :: "u32 \<Rightarrow> u32" where
  "lwip_htonl n = push_bit 24 (n AND 0xff) OR push_bit 8 (n AND 0xff00)
     OR drop_bit 8 (n AND 0xff0000) OR drop_bit 24 (n AND 0xff000000)"

definition lwip_ntohl :: "u32 \<Rightarrow> u32" where
  "lwip_ntohl n = lwip_htonl n"

subsection \<open>Masks and shifts\<close>

lemma and_ff_u16: "(n :: u16) AND 0xff = take_bit 8 n"
  by (simp add: take_bit_eq_mask mask_eq_exp_minus_1)

lemma and_ff_u32: "(n :: u32) AND 0xff = take_bit 8 n"
  and and_ffff_u32: "(n :: u32) AND 0xffff = take_bit 16 n"
  by (simp_all add: take_bit_eq_mask mask_eq_exp_minus_1)

lemma unat_and_ff_u16: "unat ((n :: u16) AND 0xff) = unat n mod 256"
  unfolding and_ff_u16 unsigned_take_bit_eq by (simp add: take_bit_eq_mod)

lemma unat_and_ffff_u32: "unat ((n :: u32) AND 0xffff) = unat n mod 65536"
  unfolding and_ffff_u32 unsigned_take_bit_eq by (simp add: take_bit_eq_mod)

lemma unat_drop_bit: "unat (drop_bit k (n :: 'a :: len word)) = unat n div 2 ^ k"
proof -
  have "take_bit LENGTH('a) (unat n) = unat n"
    using unsigned_less [of n] by (simp add: take_bit_nat_eq_self)
  then show ?thesis unfolding unsigned_drop_bit_eq by (simp add: drop_bit_eq_div)
qed

lemma bit_mask_byte:
  "bit (0xff :: 'a :: len word) i \<longleftrightarrow> i < 8 \<and> i < LENGTH('a)"
  "bit (0xff00 :: 'a word) i \<longleftrightarrow> 8 \<le> i \<and> i < 16 \<and> i < LENGTH('a)"
  "bit (0xff0000 :: 'a word) i \<longleftrightarrow> 16 \<le> i \<and> i < 24 \<and> i < LENGTH('a)"
  "bit (0xff000000 :: 'a word) i \<longleftrightarrow> 24 \<le> i \<and> i < 32 \<and> i < LENGTH('a)"
proof -
  have m: "(0xff :: 'a word) = mask 8" "(0xff00 :: 'a word) = push_bit 8 (mask 8)"
    "(0xff0000 :: 'a word) = push_bit 16 (mask 8)" "(0xff000000 :: 'a word) = push_bit 24 (mask 8)"
    by (simp_all add: mask_eq_exp_minus_1 push_bit_eq_mult)
  show "bit (0xff :: 'a :: len word) i \<longleftrightarrow> i < 8 \<and> i < LENGTH('a)"
    unfolding m by (auto simp: bit_mask_iff)
  show "bit (0xff00 :: 'a word) i \<longleftrightarrow> 8 \<le> i \<and> i < 16 \<and> i < LENGTH('a)"
    unfolding m by (auto simp: bit_push_bit_iff bit_mask_iff)
  show "bit (0xff0000 :: 'a word) i \<longleftrightarrow> 16 \<le> i \<and> i < 24 \<and> i < LENGTH('a)"
    unfolding m by (auto simp: bit_push_bit_iff bit_mask_iff)
  show "bit (0xff000000 :: 'a word) i \<longleftrightarrow> 24 \<le> i \<and> i < 32 \<and> i < LENGTH('a)"
    unfolding m by (auto simp: bit_push_bit_iff bit_mask_iff)
qed

subsection \<open>The swaps as permutations of bits\<close>

lemma bit_dropped: "bit (drop_bit k n) i = bit n (k + i)"
  by (simp add: bit_drop_bit_eq)

lemmas bit_shift_simps = bit_or_iff bit_push_bit_iff bit_dropped bit_and_iff bit_mask_byte

lemma not_bit_u16: "16 \<le> i \<Longrightarrow> \<not> bit (n :: u16) i"
  and not_bit_u32: "32 \<le> i \<Longrightarrow> \<not> bit (m :: u32) i"
  and not_bit_u8: "8 \<le> i \<Longrightarrow> \<not> bit (o8 :: u8) i"
  by (auto dest: bit_imp_le_length)

lemma bit_htons: "bit (lwip_htons n) i \<longleftrightarrow> i < 16 \<and> bit n (if i < 8 then i + 8 else i - 8)"
proof -
  have "bit (lwip_htons n) i \<longleftrightarrow> (8 \<le> i \<and> i < 16 \<and> i - 8 < 8 \<and> bit n (i - 8))
      \<or> (8 \<le> 8 + i \<and> 8 + i < 16 \<and> bit n (8 + i))"
    unfolding lwip_htons_def by (simp only: bit_shift_simps possible_bit_word) auto
  then show ?thesis by (cases "i < 8"; cases "i < 16") (auto simp: add.commute not_less less_diff_conv2 le_diff_conv2)
qed

lemma bit_htonl: "bit (lwip_htonl n) i \<longleftrightarrow> i < 32 \<and>
    bit n (if i < 8 then i + 24 else if i < 16 then i + 8 else if i < 24 then i - 8 else i - 24)"
proof -
  have "bit (lwip_htonl n) i \<longleftrightarrow> (24 \<le> i \<and> i < 32 \<and> i - 24 < 8 \<and> bit n (i - 24))
      \<or> (8 \<le> i \<and> i < 32 \<and> 8 \<le> i - 8 \<and> i - 8 < 16 \<and> bit n (i - 8))
      \<or> (16 \<le> 8 + i \<and> 8 + i < 24 \<and> bit n (8 + i))
      \<or> (24 \<le> 24 + i \<and> 24 + i < 32 \<and> bit n (24 + i))"
    unfolding lwip_htonl_def by (simp only: bit_shift_simps possible_bit_word) auto
  then show ?thesis
    by (cases "i < 8"; cases "i < 16"; cases "i < 24"; cases "i < 32") (auto simp: add.commute not_less less_diff_conv2 le_diff_conv2)
qed

lemma htons_htons: "lwip_htons (lwip_htons n) = n"
  by (rule bit_word_eqI) (auto simp: bit_htons dest: bit_imp_le_length)

lemma htonl_htonl: "lwip_htonl (lwip_htonl n) = n"
  by (rule bit_word_eqI) (auto simp: bit_htonl dest: bit_imp_le_length)

lemma unat_htons: "unat (lwip_htons n) = unat n mod 256 * 256 + unat n div 256"
proof -
  have d: "push_bit 8 (n AND 0xff) AND drop_bit 8 (n AND 0xff00) = 0"
    by (rule bit_word_eqI) (simp only: bit_shift_simps possible_bit_word, auto)
  have u: "drop_bit 8 (n AND 0xff00) = drop_bit 8 n"
    by (rule bit_word_eqI) (simp only: bit_shift_simps possible_bit_word, auto dest: bit_imp_le_length)
  have p: "unat (push_bit 8 (n AND 0xff)) = unat n mod 256 * 256"
  proof -
    have "unat (push_bit 8 (n AND 0xff)) = (unat (n AND 0xff) * 256) mod 65536"
      unfolding unsigned_push_bit_eq by (simp add: push_bit_eq_mult take_bit_eq_mod)
    also have "\<dots> = unat n mod 256 * 256"
      unfolding unat_and_ff_u16 by (rule mod_less) simp
    finally show ?thesis .
  qed
  have q: "unat (drop_bit 8 n) = unat n div 256" by (simp add: unat_drop_bit)
  have "lwip_htons n = push_bit 8 (n AND 0xff) + drop_bit 8 n"
    unfolding lwip_htons_def using disjunctive_add_eq_or [OF d] u by simp
  moreover have "unat n div 256 < 256"
    using unat_u16_less [of n] by (simp add: div_less_iff_less_mult)
  moreover have "unat n mod 256 \<le> 255" by simp
  ultimately show ?thesis using p q by (simp add: unat_word_ariths)
qed

end
