(* ===== verification/Inet_Chksum.thy ===== *)
theory Inet_Chksum
  imports Byte_Order
begin

unbundle bit_operations_syntax

text \<open>
  Model of core/ipv4/inet_chksum.c: the three versions of \<open>lwip_standard_chksum\<close> and
  \<open>inet_chksum\<close>. A buffer is the list of the \<open>len\<close> octets at \<open>dataptr\<close>; \<open>addr\<close> is the address
  itself, of which the code tests the alignment. The chain versions are in \<open>Pbuf_Chksum\<close>.
  Lemmas: arithmetic of the folded sum (\<open>cong\<close>: equal modulo 65535, and zero together),
  and each version computes the reference sum \<open>rfc_sum\<close>.
\<close>

subsection \<open>Operations\<close>

definition FOLD_U32T :: "u32 \<Rightarrow> u32" where
  "FOLD_U32T u = drop_bit 16 u + (u AND 0xffff)"

definition SWAP_BYTES_IN_WORD :: "u32 \<Rightarrow> u32" where
  "SWAP_BYTES_IN_WORD w = push_bit 8 (w AND 0xff) OR drop_bit 8 (w AND 0xff00)"

text \<open>The little-endian loads \<open>*(u16_t *)\<close> and \<open>*(u32_t *)\<close>.\<close>

definition load16 :: "u8 \<Rightarrow> u8 \<Rightarrow> u16" where
  "load16 a b = push_bit 8 (ucast b) + ucast a"

definition load32 :: "u8 \<Rightarrow> u8 \<Rightarrow> u8 \<Rightarrow> u8 \<Rightarrow> u32" where
  "load32 a b c d = push_bit 16 (ucast (load16 c d)) + ucast (load16 a b)"

text \<open>\<open>src = (*octetptr) << 8; src |= *octetptr\<close>: the first octet is the most significant.\<close>

definition be16 :: "u8 \<Rightarrow> u8 \<Rightarrow> u16" where
  "be16 a b = push_bit 8 (ucast a) OR ucast b"

text \<open>\<open>((u8_t *)&t)[0] = b\<close> and \<open>((u8_t *)&t)[1] = b\<close> on a \<open>u16\<close>.\<close>

definition set_byte0 :: "u16 \<Rightarrow> u8 \<Rightarrow> u16" where
  "set_byte0 t b = (t AND 0xff00) OR ucast b"

definition set_byte1 :: "u16 \<Rightarrow> u8 \<Rightarrow> u16" where
  "set_byte1 t b = (t AND 0xff) OR push_bit 8 (ucast b)"

fun chksum1_loop :: "u32 \<Rightarrow> u8 list \<Rightarrow> u32" where
  "chksum1_loop acc (a # b # bs) = chksum1_loop (acc + ucast (be16 a b)) bs"
| "chksum1_loop acc [a] = acc + ucast (push_bit 8 (ucast a) :: u16)"
| "chksum1_loop acc [] = acc"

definition lwip_standard_chksum1 :: "u8 list \<Rightarrow> u16" where
  "lwip_standard_chksum1 bs =
     (let acc = chksum1_loop 0 bs;
          acc = drop_bit 16 acc + (acc AND 0x0000ffff);
          acc = (if acc AND 0xffff0000 \<noteq> 0 then drop_bit 16 acc + (acc AND 0x0000ffff) else acc)
      in lwip_htons (ucast acc))"

text \<open>The bulk loop: the sum and the bytes that are left (at most one).\<close>

fun bulk16 :: "u32 \<Rightarrow> u8 list \<Rightarrow> u32 \<times> u8 list" where
  "bulk16 sm (a # b # bs) = bulk16 (sm + ucast (load16 a b)) bs"
| "bulk16 sm bs = (sm, bs)"

definition lwip_standard_chksum2 :: "ptr \<Rightarrow> u8 list \<Rightarrow> u16" where
  "lwip_standard_chksum2 addr bs =
     (let odd_addr = (addr mod 2 = 1);
          (t, bs) = (if odd_addr \<and> bs \<noteq> [] then (set_byte1 0 (hd bs), tl bs) else (0, bs));
          (sm, bs) = bulk16 0 bs;
          t = (case bs of [] \<Rightarrow> t | b # _ \<Rightarrow> set_byte0 t b);
          sm = sm + ucast t;
          sm = FOLD_U32T sm;
          sm = FOLD_U32T sm;
          sm = (if odd_addr then SWAP_BYTES_IN_WORD sm else sm)
      in ucast sm)"

text \<open>
  Version 3 adds 32-bit words with an end-around carry, eight bytes at a time.
\<close>

definition add_carry :: "u32 \<Rightarrow> u32 \<Rightarrow> u32" where
  "add_carry s x = (let tmp = s + x in if tmp < s then tmp + 1 else tmp)"

fun bulk32 :: "u32 \<Rightarrow> u8 list \<Rightarrow> u32 \<times> u8 list" where
  "bulk32 sm (a # b # c # d # e # f # g # h # bs) =
     bulk32 (add_carry (add_carry sm (load32 a b c d)) (load32 e f g h)) bs"
| "bulk32 sm bs = (sm, bs)"

definition lwip_standard_chksum3 :: "ptr \<Rightarrow> u8 list \<Rightarrow> u16" where
  "lwip_standard_chksum3 addr bs =
     (let odd_addr = (addr mod 2 = 1);
          (t, pb, bs) = (if odd_addr \<and> bs \<noteq> [] then (set_byte1 0 (hd bs), addr + 1, tl bs)
                         else (0, addr, bs));
          (sm, bs) = (case bs of a # b # rest \<Rightarrow>
                         if pb mod 4 \<noteq> 0 then (ucast (load16 a b), rest) else (0, bs)
                       | _ \<Rightarrow> (0, bs));
          (sm, bs) = bulk32 sm bs;
          sm = FOLD_U32T sm;
          (sm, bs) = bulk16 sm bs;
          t = (case bs of [] \<Rightarrow> t | b # _ \<Rightarrow> set_byte0 t b);
          sm = sm + ucast t;
          sm = FOLD_U32T sm;
          sm = FOLD_U32T sm;
          sm = (if odd_addr then SWAP_BYTES_IN_WORD sm else sm)
      in ucast sm)"

text \<open>\<open>LWIP_CHKSUM\<close> is version 2, the default of this configuration.\<close>

definition inet_chksum :: "ptr \<Rightarrow> u8 list \<Rightarrow> u16" where
  "inet_chksum addr bs = NOT (lwip_standard_chksum2 addr bs)"

subsection \<open>Reference\<close>

text \<open>
  RFC 1071: the sum of the 16-bit words of the data (an odd last byte padded with zero), in
  one's complement arithmetic. \<open>canon\<close> is the representative in 0..65535 that is 0 only for 0.
\<close>

fun wsum :: "u8 list \<Rightarrow> nat" where
  "wsum (a # b # bs) = unat a + 256 * unat b + wsum bs"
| "wsum [a] = unat a"
| "wsum [] = 0"

definition canon :: "nat \<Rightarrow> nat" where
  "canon x = (if x = 0 then 0 else Suc ((x - 1) mod 65535))"

definition rfc_sum :: "u8 list \<Rightarrow> nat" where
  "rfc_sum bs = canon (wsum bs)"

definition cong :: "nat \<Rightarrow> nat \<Rightarrow> bool" where
  "cong x y \<longleftrightarrow> (x = 0 \<longleftrightarrow> y = 0) \<and> x mod 65535 = y mod 65535"

subsection \<open>Arithmetic of the folded sum\<close>

lemma cong_refl [simp]: "cong x x"
  by (simp add: cong_def)

lemma cong_sym: "cong x y \<Longrightarrow> cong y x"
  by (auto simp: cong_def)

lemma cong_trans [trans]: "cong x y \<Longrightarrow> cong y z \<Longrightarrow> cong x z"
  by (auto simp: cong_def)

lemma cong_add: "cong x y \<Longrightarrow> cong u v \<Longrightarrow> cong (x + u) (y + v)"
  unfolding cong_def by (metis add_is_0 mod_add_cong)

lemma cong_mult: "cong x y \<Longrightarrow> cong (k * x) (k * y)"
  unfolding cong_def by (metis mod_mult_cong mult_is_0)

lemma cong_65536: "cong (65536 * q + r) (q + r)"
proof -
  have "65536 * q + r = (q + r) + 65535 * q" by simp
  then have "(65536 * q + r) mod 65535 = (q + r) mod 65535" by (metis mod_mult_self2)
  then show ?thesis by (auto simp: cong_def)
qed

lemma canon_mod: "canon x mod 65535 = x mod 65535"
proof (cases x)
  case (Suc y)
  then show ?thesis by (simp add: canon_def mod_Suc_eq)
qed (simp add: canon_def)

lemma cong_canon: "cong (canon x) x"
  unfolding cong_def canon_mod by (simp add: canon_def)

lemma canon_less: "canon x < 65536"
proof -
  have "(x - 1) mod 65535 < 65535" by simp
  then have "Suc ((x - 1) mod 65535) < 65536" by linarith
  then show ?thesis unfolding canon_def by (cases "x = 0") simp_all
qed

lemma canon_id: "x < 65536 \<Longrightarrow> canon x = x"
  by (simp add: canon_def)

lemma cong_small:
  assumes "cong x y" and "x < 65536" and "y < 65536"
  shows "x = y"
proof (rule ccontr)
  assume ne: "x \<noteq> y"
  have z: "x = 0 \<longleftrightarrow> y = 0" and m: "x mod 65535 = y mod 65535" using assms(1) by (auto simp: cong_def)
  show False
  proof (cases "x < 65535 \<and> y < 65535")
    case True
    then show False using m ne by simp
  next
    case False
    then have "x = 65535 \<or> y = 65535" using assms(2,3) by auto
    then show False using z m ne assms(2,3) by (auto simp: mod_eq_0_iff_dvd dest!: dvd_imp_le)
  qed
qed

lemma cong_iff_canon: "cong x y \<longleftrightarrow> canon x = canon y"
proof
  assume c: "cong x y"
  have "cong (canon x) y" by (rule cong_trans [OF cong_canon c])
  then have "cong (canon x) (canon y)" by (rule cong_trans) (rule cong_sym [OF cong_canon])
  then show "canon x = canon y" by (rule cong_small) (rule canon_less)+
next
  assume e: "canon x = canon y"
  have "cong x (canon x)" by (rule cong_sym [OF cong_canon])
  also have "cong (canon x) y" unfolding e by (rule cong_canon)
  finally show "cong x y" .
qed

lemma canonI: "cong x y \<Longrightarrow> x < 65536 \<Longrightarrow> x = canon y"
  using cong_iff_canon [of x y] canon_id [of x] by simp

subsection \<open>Words as numbers\<close>

lemma unat_push8: "unat (push_bit 8 (ucast (b :: u8)) :: u16) = 256 * unat b"
proof -
  have "256 * unat b < 65536" using unat_u8_less [of b] by simp
  then show ?thesis
    unfolding unsigned_push_bit_eq
    by (simp add: push_bit_eq_mult take_bit_eq_mod unat_ucast_u8_u16 mult.commute)
qed

lemma unat_load16: "unat (load16 a b) = unat a + 256 * unat b"
proof -
  have "unat a + 256 * unat b < 65536" using unat_u8_less [of a] unat_u8_less [of b] by linarith
  then have "unat (push_bit 8 (ucast b) :: u16) + unat (ucast a :: u16) < 65536"
    by (simp only: unat_push8 unat_ucast_u8_u16 add.commute)
  from unat_add_u16 [OF this] show ?thesis
    by (simp only: load16_def unat_push8 unat_ucast_u8_u16 add.commute)
qed

lemma be16_load16: "be16 a b = load16 b a"
proof -
  have "push_bit 8 (ucast a) AND (ucast b :: u16) = 0"
    by (rule bit_word_eqI) (auto simp: bit_and_iff bit_push_bit_iff bit_ucast_iff dest: bit_imp_le_length)
  then show ?thesis by (simp add: be16_def load16_def disjunctive_add_eq_or)
qed

lemma unat_set_byte1: "unat (set_byte1 0 b) = 256 * unat b"
  by (simp add: set_byte1_def unat_push8)

lemma unat_set_byte0: "unat (set_byte0 (set_byte1 0 c) b) = unat b + 256 * unat c"
  and unat_set_byte0_zero: "unat (set_byte0 0 b) = unat b"
proof -
  have "set_byte1 0 c AND 0xff00 = push_bit 8 (ucast c)"
    unfolding set_byte1_def
    by (rule bit_word_eqI)
      (simp only: bit_shift_simps possible_bit_word bit_ucast_iff bit_0_eq bot_apply, auto)
  then have "set_byte0 (set_byte1 0 c) b = be16 c b" by (simp add: set_byte0_def be16_def)
  then show "unat (set_byte0 (set_byte1 0 c) b) = unat b + 256 * unat c"
    by (simp add: be16_load16 unat_load16)
  show "unat (set_byte0 0 b) = unat b" by (simp add: set_byte0_def unat_ucast_u8_u16)
qed

lemma unat_load32: "unat (load32 a b c d) = unat (load16 a b) + 65536 * unat (load16 c d)"
proof -
  have b: "unat (load16 a b) + 65536 * unat (load16 c d) < 4294967296"
    using unat_u16_less [of "load16 a b"] unat_u16_less [of "load16 c d"] by linarith
  have "unat (push_bit 16 (ucast (load16 c d)) :: u32) = (unat (load16 c d) * 65536) mod 4294967296"
    unfolding unsigned_push_bit_eq by (simp add: push_bit_eq_mult take_bit_eq_mod unat_ucast_u16_u32)
  also have "\<dots> = unat (load16 c d) * 65536" using b by (intro mod_less) linarith
  finally have h: "unat (push_bit 16 (ucast (load16 c d)) :: u32) = unat (load16 c d) * 65536" .
  have "unat (push_bit 16 (ucast (load16 c d)) :: u32) + unat (ucast (load16 a b) :: u32)
      = unat (load16 a b) + 65536 * unat (load16 c d)"
    by (simp only: h unat_ucast_u16_u32 mult.commute add.commute)
  then show ?thesis using b unat_add_u32 unfolding load32_def by metis
qed

lemma unat_FOLD: "unat (FOLD_U32T u) = unat u div 65536 + unat u mod 65536"
proof -
  have "unat u div 65536 < 65536" using unat_u32_less [of u] by (simp add: div_less_iff_less_mult)
  then have "unat u div 65536 + unat u mod 65536 < 4294967296" by simp
  then show ?thesis
    unfolding FOLD_U32T_def by (simp add: unat_word_ariths unat_drop_bit unat_and_ffff_u32)
qed

lemma cong_FOLD: "cong (unat (FOLD_U32T u)) (unat u)"
  unfolding unat_FOLD
  using cong_65536 [of "unat u div 65536" "unat u mod 65536"] by (simp add: cong_sym)

lemma FOLD_bound: "unat (FOLD_U32T u) \<le> 131070"
proof -
  have "unat u div 65536 < 65536" using unat_u32_less [of u] by (simp add: div_less_iff_less_mult)
  moreover have "unat u mod 65536 < 65536" by simp
  ultimately show ?thesis unfolding unat_FOLD by linarith
qed

lemma FOLD_small:
  assumes "unat u \<le> 131070"
  shows "unat (FOLD_U32T u) < 65536"
proof (cases "unat u < 65536")
  case False
  then have "unat u div 65536 = 1" "unat u mod 65536 = unat u - 65536"
    using assms by (simp_all add: div_nat_eqI le_mod_geq)
  then show ?thesis unfolding unat_FOLD using assms by linarith
qed (simp add: unat_FOLD)

lemma FOLD_twice: "unat (FOLD_U32T (FOLD_U32T u)) = canon (unat u)"
  by (rule canonI) (use FOLD_small FOLD_bound cong_FOLD cong_trans in blast)+

lemma FOLD_id: "unat u < 65536 \<Longrightarrow> FOLD_U32T u = u"
  by (simp add: word_unat_eq_iff unat_FOLD)

lemma SWAP_htons: "SWAP_BYTES_IN_WORD w = ucast (lwip_htons (ucast w))"
  unfolding SWAP_BYTES_IN_WORD_def
  by (rule bit_word_eqI)
    (simp only: bit_shift_simps possible_bit_word bit_ucast_iff bit_htons,
      auto simp: not_less less_diff_conv2 add.commute)

lemma unat_SWAP: "unat (SWAP_BYTES_IN_WORD w) = unat w mod 65536 mod 256 * 256 + unat w mod 65536 div 256"
  by (simp add: SWAP_htons unat_ucast_u16_u32 unat_htons unat_ucast_u32_u16)

lemma cong_swap:
  assumes "x < 65536"
  shows "cong (x mod 256 * 256 + x div 256) (256 * x)"
proof -
  have "256 * x = 65536 * (x div 256) + x mod 256 * 256"
    using div_mult_mod_eq [of x 256] by linarith
  then show ?thesis using cong_65536 [of "x div 256" "x mod 256 * 256"] by (simp add: cong_sym add.commute)
qed

lemma swap_less: "x < 65536 \<Longrightarrow> x mod 256 * 256 + x div 256 < (65536 :: nat)"
proof -
  assume "x < 65536"
  then have "x div 256 < 256" by (simp add: div_less_iff_less_mult)
  moreover have "x mod 256 \<le> 255" by simp
  ultimately show ?thesis by linarith
qed

subsection \<open>The three versions compute the reference sum\<close>

text \<open>The buffer as a little-endian number, which the sum represents modulo 65535.\<close>

fun lenum :: "u8 list \<Rightarrow> nat" where
  "lenum [] = 0"
| "lenum (b # bs) = unat b + 256 * lenum bs"

lemma cong_wsum: "cong (wsum bs) (lenum bs)"
proof (induction bs rule: wsum.induct)
  case (1 a b bs)
  have "cong (wsum (a # b # bs)) (lenum bs + (unat a + 256 * unat b))"
    using cong_add [OF cong_refl 1, of "unat a + 256 * unat b"] by (simp add: add.commute)
  also have "cong \<dots> (65536 * lenum bs + (unat a + 256 * unat b))"
    by (rule cong_sym [OF cong_65536])
  also have "65536 * lenum bs + (unat a + 256 * unat b) = lenum (a # b # bs)" by simp
  finally show ?case .
qed simp_all

lemma lenum_append: "lenum (xs @ ys) = lenum xs + 256 ^ length xs * lenum ys"
  by (induction xs) (simp_all add: algebra_simps)

lemma wsum_Cons: "cong (wsum (b # bs)) (unat b + 256 * wsum bs)"
proof -
  have "cong (wsum (b # bs)) (unat b + 256 * lenum bs)" using cong_wsum [of "b # bs"] by simp
  moreover have "cong (unat b + 256 * lenum bs) (unat b + 256 * wsum bs)"
    by (intro cong_add cong_refl cong_mult cong_sym [OF cong_wsum])
  ultimately show ?thesis by (rule cong_trans)
qed

lemma wsum_bound: "wsum bs \<le> 65535 * ((length bs + 1) div 2)"
proof (induction bs rule: wsum.induct)
  case (1 a b bs)
  have "unat a + 256 * unat b \<le> 65535" using unat_u8_less [of a] unat_u8_less [of b] by linarith
  then show ?case using 1 by simp
next
  case (2 a)
  have "unat a \<le> 65535" using unat_u8_less [of a] by linarith
  then show ?case by simp
qed simp

text \<open>The 16-bit bulk loop followed by the end byte.\<close>

definition tail_value :: "u8 list \<Rightarrow> nat" where
  "tail_value bs = (case bs of [] \<Rightarrow> 0 | b # _ \<Rightarrow> unat b)"

lemma bulk16_spec:
  "unat s + wsum bs < 4294967296 \<Longrightarrow>
   unat (fst (bulk16 s bs)) + tail_value (snd (bulk16 s bs)) = unat s + wsum bs
   \<and> length (snd (bulk16 s bs)) = length bs mod 2"
proof (induction s bs rule: bulk16.induct)
  case (1 s a b bs)
  have "unat s + unat (ucast (load16 a b) :: u32) < 4294967296"
    using 1(2) by (simp add: unat_ucast_u16_u32 unat_load16)
  then have u: "unat (s + ucast (load16 a b)) = unat s + (unat a + 256 * unat b)"
    using unat_add_u32 by (simp add: unat_ucast_u16_u32 unat_load16)
  have "unat (s + ucast (load16 a b)) + wsum bs < 4294967296" using 1(2) unfolding u by simp
  from 1(1) [OF this] show ?case using u by simp
qed (simp_all add: tail_value_def)

lemma chksum1_loop_spec:
  "unat acc + 65535 * ((length bs + 1) div 2) < 4294967296 \<Longrightarrow>
   cong (unat (chksum1_loop acc bs)) (unat acc + 256 * wsum bs)
   \<and> unat (chksum1_loop acc bs) \<le> unat acc + 65535 * ((length bs + 1) div 2)"
proof (induction acc bs rule: chksum1_loop.induct)
  case (1 acc a b bs)
  let ?w = "256 * unat a + unat b"
  have w: "unat (ucast (be16 a b) :: u32) = ?w"
    by (simp add: be16_load16 unat_ucast_u16_u32 unat_load16)
  have wb: "?w \<le> 65535" using unat_u8_less [of a] unat_u8_less [of b] by linarith
  have len: "(length (a # b # bs) + 1) div 2 = (length bs + 1) div 2 + 1" by simp
  have u: "unat (acc + ucast (be16 a b)) = unat acc + ?w"
    using unat_add_u32 [of acc "ucast (be16 a b)"] 1(2) wb unfolding len w by simp
  have IH: "cong (unat (chksum1_loop acc (a # b # bs))) (unat acc + ?w + 256 * wsum bs)"
    "unat (chksum1_loop acc (a # b # bs)) \<le> unat acc + ?w + 65535 * ((length bs + 1) div 2)"
    using 1 wb unfolding u len by simp_all
  have sw: "cong (256 * unat a + unat b) (65536 * unat b + 256 * unat a)"
    using cong_sym [OF cong_65536 [of "unat b" "256 * unat a"]] by (simp only: add.commute)
  note IH(1)
  also have "unat acc + ?w + 256 * wsum bs = (unat acc + 256 * wsum bs) + (256 * unat a + unat b)"
    by simp
  also have "cong \<dots> ((unat acc + 256 * wsum bs) + (65536 * unat b + 256 * unat a))"
    by (rule cong_add [OF cong_refl sw])
  also have "\<dots> = unat acc + 256 * wsum (a # b # bs)" by simp
  finally show ?case using IH(2) wb unfolding len by simp
next
  case (2 acc a)
  have b: "256 * unat a \<le> 65535" using unat_u8_less [of a] by linarith
  have w: "unat (ucast (push_bit 8 (ucast a) :: u16) :: u32) = 256 * unat a"
    by (simp add: unat_ucast_u16_u32 unat_push8)
  have "unat (acc + ucast (push_bit 8 (ucast a) :: u16)) = unat acc + 256 * unat a"
    using unat_add_u32 [of acc "ucast (push_bit 8 (ucast a) :: u16)"] 2 b w by simp
  then show ?case using b by simp
qed simp

lemma fold_if:
  assumes "unat acc \<le> 131070"
  shows "unat (if acc AND 0xffff0000 \<noteq> 0 then FOLD_U32T acc else acc) = canon (unat acc)"
proof (cases "acc AND 0xffff0000 = 0")
  case True
  have m: "bit (0xffff0000 :: u32) i \<longleftrightarrow> 16 \<le> i \<and> i < 32" for i
  proof -
    have e: "(0xffff0000 :: u32) = push_bit 16 (mask 16)"
      by (simp add: mask_eq_exp_minus_1 push_bit_eq_mult)
    show ?thesis unfolding e
      by (auto simp: bit_push_bit_iff bit_mask_iff)
  qed
  have "drop_bit 16 acc = 0"
  proof (rule bit_word_eqI)
    fix i assume "i < LENGTH(32)"
    have n: "\<not> bit (acc AND 0xffff0000) (16 + i)" unfolding True by simp
    have "\<not> bit acc (16 + i)"
    proof (cases "16 + i < 32")
      case True
      then show ?thesis using n unfolding bit_and_iff m by simp
    next
      case False
      then show ?thesis using not_bit_u32 [of "16 + i" acc] by simp
    qed
    then show "bit (drop_bit 16 acc) i = bit 0 i" by (simp add: bit_dropped)
  qed
  then have "unat acc div 65536 = 0" using unat_drop_bit [of 16 acc] by simp
  then show ?thesis using True canon_id [of "unat acc"] by (simp add: div_eq_0_iff)
next
  case False
  then show ?thesis using FOLD_small [OF assms] canonI [OF cong_FOLD] by simp
qed

theorem chksum1_rfc:
  assumes "length bs \<le> 65535"
  shows "unat (lwip_standard_chksum1 bs) = rfc_sum bs"
proof -
  define acc where "acc = chksum1_loop 0 bs"
  have "65535 * ((length bs + 1) div 2) \<le> 65535 * 32768"
    using assms by (intro mult_le_mono2) simp
  then have acc: "cong (unat acc) (256 * wsum bs)"
    using chksum1_loop_spec [of 0 bs] unfolding acc_def by simp
  define r where "r = (if FOLD_U32T acc AND 0xffff0000 \<noteq> 0 then FOLD_U32T (FOLD_U32T acc) else FOLD_U32T acc)"
  have r: "unat r = canon (unat (FOLD_U32T acc))" unfolding r_def by (rule fold_if [OF FOLD_bound])
  then have rc: "cong (unat r) (256 * wsum bs)"
    using cong_canon [of "unat (FOLD_U32T acc)"] cong_FOLD [of acc] acc cong_trans by metis
  have rl: "unat r < 65536" using r canon_less by simp
  have e: "lwip_standard_chksum1 bs = lwip_htons (ucast r)"
    unfolding lwip_standard_chksum1_def r_def acc_def FOLD_U32T_def Let_def ..
  have "unat (lwip_standard_chksum1 bs) = unat r mod 256 * 256 + unat r div 256"
    unfolding e unat_htons unat_ucast_u32_u16 using rl by simp
  moreover have "cong (unat r mod 256 * 256 + unat r div 256) (wsum bs)"
  proof -
    have "cong (unat r mod 256 * 256 + unat r div 256) (256 * unat r)" by (rule cong_swap [OF rl])
    also have "cong (256 * unat r) (256 * (256 * wsum bs))" by (rule cong_mult [OF rc])
    also have "256 * (256 * wsum bs) = 65536 * wsum bs + 0" by simp
    also have "cong (65536 * wsum bs + 0) (wsum bs + 0)" by (rule cong_65536)
    also have "wsum bs + 0 = wsum bs" by simp
    finally show ?thesis .
  qed
  ultimately show ?thesis unfolding rfc_sum_def using canonI swap_less [OF rl] by simp
qed

text \<open>The end of versions 2 and 3: end byte, two folds, swap at an odd address.\<close>

lemma chksum_finish:
  assumes "cong (unat s) (if odd_addr then 256 * wsum bs else wsum bs)"
  shows "unat (ucast (if odd_addr then SWAP_BYTES_IN_WORD (FOLD_U32T (FOLD_U32T s))
      else FOLD_U32T (FOLD_U32T s)) :: u16) = rfc_sum bs"
proof -
  let ?f = "FOLD_U32T (FOLD_U32T s)"
  have f: "unat ?f = canon (unat s)" by (rule FOLD_twice)
  have fl: "unat ?f < 65536" using f canon_less by simp
  show ?thesis
  proof (cases odd_addr)
    case False
    have "canon (unat s) = canon (wsum bs)" using assms False cong_iff_canon by simp
    then show ?thesis using False f fl by (simp add: unat_ucast_u32_u16 rfc_sum_def)
  next
    case True
    have "cong (unat ?f mod 256 * 256 + unat ?f div 256) (256 * unat ?f)" by (rule cong_swap [OF fl])
    also have "cong (256 * unat ?f) (256 * (256 * wsum bs))"
      using cong_trans [OF cong_canon assms] True f by (intro cong_mult) simp
    also have "256 * (256 * wsum bs) = 65536 * wsum bs + 0" by simp
    also have "cong (65536 * wsum bs + 0) (wsum bs + 0)" by (rule cong_65536)
    also have "wsum bs + 0 = wsum bs" by simp
    finally have "unat ?f mod 256 * 256 + unat ?f div 256 = canon (wsum bs)"
      using canonI swap_less [OF fl] by blast
    then show ?thesis using True fl swap_less [OF fl]
      by (simp add: unat_ucast_u32_u16 rfc_sum_def unat_SWAP)
  qed
qed


lemma bulk16_end:
  assumes "unat s + wsum bs + 65536 < 4294967296" and "t = 0 \<or> t = set_byte1 0 c"
  shows "unat (fst (bulk16 s bs) + ucast (case snd (bulk16 s bs) of [] \<Rightarrow> t | b # _ \<Rightarrow> set_byte0 t b))
    = unat s + wsum bs + unat t"
proof -
  let ?r = "bulk16 s bs"
  let ?t = "case snd ?r of [] \<Rightarrow> t | b # _ \<Rightarrow> set_byte0 t b"
  have sp: "unat (fst ?r) + tail_value (snd ?r) = unat s + wsum bs" using bulk16_spec assms(1) by simp
  have t: "unat ?t = unat t + tail_value (snd ?r)"
    using assms(2)
    by (auto simp: tail_value_def unat_set_byte0 unat_set_byte0_zero unat_set_byte1 split: list.splits)
  have "unat (fst ?r) + unat (ucast ?t :: u32) < 4294967296"
    using sp assms(1) unat_u16_less [of t] unfolding unat_ucast_u16_u32 t by linarith
  from unat_add_u32 [OF this] show ?thesis using sp unfolding unat_ucast_u16_u32 t by linarith
qed

lemma odd_head:
  "cong (wsum bs + 256 * unat b) (256 * wsum (b # bs))"
proof -
  have "cong (wsum bs + 256 * unat b) (65536 * wsum bs + 256 * unat b)"
    by (rule cong_sym [OF cong_65536])
  also have "65536 * wsum bs + 256 * unat b = 256 * (unat b + 256 * wsum bs)" by simp
  also have "cong \<dots> (256 * wsum (b # bs))" by (rule cong_mult [OF cong_sym [OF wsum_Cons]])
  finally show ?thesis .
qed

lemma wsum_bound_64k:
  assumes "length bs \<le> 65535"
  shows "wsum bs \<le> 65535 * 32768"
proof -
  have "65535 * ((length bs + 1) div 2) \<le> 65535 * 32768" using assms by (intro mult_le_mono2) simp
  then show ?thesis using wsum_bound [of bs] by simp
qed

theorem chksum2_rfc:
  assumes "length bs \<le> 65535"
  shows "unat (lwip_standard_chksum2 addr bs) = rfc_sum bs"
proof (cases "addr mod 2 = 1 \<and> bs \<noteq> []")
  case False
  let ?s = "fst (bulk16 0 bs) + ucast (case snd (bulk16 0 bs) of [] \<Rightarrow> 0 | b # _ \<Rightarrow> set_byte0 0 b)"
  have "unat ?s = wsum bs" using bulk16_end [of 0 bs 0] wsum_bound_64k [OF assms] by simp
  then have "cong (unat ?s) (if addr mod 2 = 1 then 256 * wsum bs else wsum bs)" using False by auto
  from chksum_finish [OF this] show ?thesis
    using False unfolding lwip_standard_chksum2_def Let_def if_not_P [OF False] case_prod_beta fst_conv snd_conv by simp
next
  case True
  then obtain b cs where bs: "bs = b # cs" by (cases bs) auto
  let ?t = "set_byte1 0 b"
  let ?s = "fst (bulk16 0 cs) + ucast (case snd (bulk16 0 cs) of [] \<Rightarrow> ?t | b # _ \<Rightarrow> set_byte0 ?t b)"
  have "unat ?s = wsum cs + 256 * unat b"
    using bulk16_end [of 0 cs ?t b] wsum_bound_64k [of cs] assms bs by (simp add: unat_set_byte1)
  then have "cong (unat ?s) (if addr mod 2 = 1 then 256 * wsum bs else wsum bs)"
    using True odd_head bs by simp
  from chksum_finish [OF this] show ?thesis
    using True unfolding lwip_standard_chksum2_def Let_def if_P [OF True] case_prod_beta fst_conv snd_conv
      fst_conv snd_conv
    unfolding bs list.sel by simp
qed

lemma cong_add_carry: "cong (unat (add_carry s x)) (unat s + unat x)"
proof (cases "unat s + unat x < 4294967296")
  case True
  then have "unat (s + x) = unat s + unat x" by (rule unat_add_u32)
  moreover then have "\<not> s + x < s" by (simp add: word_less_nat_alt)
  ultimately show ?thesis by (simp add: add_carry_def)
next
  case False
  let ?n = "unat s + unat x - 4294967296"
  have b: "unat s < 4294967296" "unat x < 4294967296" by (rule unat_u32_less)+
  have "unat (s + x) = (unat s + unat x) mod 4294967296" by (simp add: unat_word_ariths)
  also have "\<dots> = ?n mod 4294967296" using False by (intro le_mod_geq) linarith
  also have "\<dots> = ?n" using b by (intro mod_less) linarith
  finally have u: "unat (s + x) = ?n" .
  have lt: "?n < unat s" using False b by linarith
  then have "s + x < s" by (simp add: word_less_nat_alt u)
  then have a: "add_carry s x = s + x + 1" by (simp add: add_carry_def)
  have "unat (s + x) + unat (1 :: u32) < 4294967296" using lt b(1) unfolding u unsigned_1 by linarith
  then have n: "unat (s + x + 1) = ?n + 1" using unat_add_u32 [of "s + x" 1] u by simp
  have "unat s + unat x = (?n + 1) + 65535 * 65537" using False by simp
  then have "(unat s + unat x) mod 65535 = (?n + 1) mod 65535" by (metis mod_mult_self2)
  moreover have "unat s + unat x \<noteq> 0" "?n + 1 \<noteq> 0" using False by linarith+
  ultimately show ?thesis unfolding a n cong_def by metis
qed

lemma bulk32_spec:
  "cong (unat (fst (bulk32 s bs)) + wsum (snd (bulk32 s bs))) (unat s + wsum bs)
   \<and> length (snd (bulk32 s bs)) < 8"
proof (induction s bs rule: bulk32.induct)
  case (1 s a b c d e f g h bs)
  let ?x = "add_carry s (load32 a b c d)" and ?y = "load32 e f g h"
  have v: "cong (unat (load32 i j k l)) (unat i + 256 * unat j + (unat k + 256 * unat l))" for i j k l
    using cong_65536 [of "unat (load16 k l)" "unat (load16 i j)"]
    by (simp add: unat_load32 unat_load16 add.commute)
  have "cong (unat (add_carry ?x ?y)) (unat ?x + unat ?y)" by (rule cong_add_carry)
  also have "cong (unat ?x + unat ?y) ((unat s + unat (load32 a b c d)) + unat ?y)"
    by (intro cong_add cong_add_carry cong_refl)
  also have "cong \<dots> ((unat s + (unat a + 256 * unat b + (unat c + 256 * unat d)))
      + (unat e + 256 * unat f + (unat g + 256 * unat h)))"
    by (intro cong_add [OF _ v] cong_add [OF cong_refl v])
  finally have s: "cong (unat (add_carry ?x ?y) + wsum bs) (unat s + (unat a + 256 * unat b
      + (unat c + 256 * unat d)) + (unat e + 256 * unat f + (unat g + 256 * unat h)) + wsum bs)"
    by (rule cong_add [OF _ cong_refl])
  have "cong (unat (fst (bulk32 (add_carry ?x ?y) bs)) + wsum (snd (bulk32 (add_carry ?x ?y) bs)))
    (unat s + (unat a + 256 * unat b + (unat c + 256 * unat d))
      + (unat e + 256 * unat f + (unat g + 256 * unat h)) + wsum bs)"
    by (rule cong_trans [OF _ s]) (use 1 in blast)
  then show ?case using 1 by (simp add: add.assoc)
qed simp_all

text \<open>Version 3 from the first aligned 16-bit word on.\<close>

lemma bulk32_end:
  fixes s :: u32 and bs :: "u8 list"
  assumes "t = 0 \<or> t = set_byte1 0 c"
  defines "r \<equiv> bulk16 (FOLD_U32T (fst (bulk32 s bs))) (snd (bulk32 s bs))"
  shows "cong (unat (fst r + ucast (case snd r of [] \<Rightarrow> t | b # _ \<Rightarrow> set_byte0 t b)))
    (unat s + wsum bs + unat t)"
proof -
  let ?a = "FOLD_U32T (fst (bulk32 s bs))" and ?b = "snd (bulk32 s bs)"
  have "65535 * ((length ?b + 1) div 2) \<le> 65535 * 4"
    using bulk32_spec [of s bs] by (intro mult_le_mono2) linarith
  then have "wsum ?b \<le> 65535 * 4" using wsum_bound [of ?b] by linarith
  then have "unat ?a + wsum ?b + 65536 < 4294967296" using FOLD_bound [of "fst (bulk32 s bs)"] by simp
  from bulk16_end [OF this assms(1)]
  have "unat (fst r + ucast (case snd r of [] \<Rightarrow> t | b # _ \<Rightarrow> set_byte0 t b)) = unat ?a + wsum ?b + unat t"
    unfolding r_def .
  also have "cong \<dots> (unat (fst (bulk32 s bs)) + wsum ?b + unat t)"
    by (intro cong_add cong_refl cong_FOLD)
  also have "cong \<dots> (unat s + wsum bs + unat t)"
    by (rule cong_add [OF conjunct1 [OF bulk32_spec] cong_refl])
  finally show ?thesis .
qed

text \<open>The optional 16-bit step that reaches a 4-byte boundary.\<close>

definition head16 :: "ptr \<Rightarrow> u8 list \<Rightarrow> u32 \<times> u8 list" where
  "head16 pb bs = (case bs of a # b # rest \<Rightarrow>
     if pb mod 4 \<noteq> 0 then (ucast (load16 a b), rest) else (0, bs) | _ \<Rightarrow> (0, bs))"

lemma head16_spec: "unat (fst (head16 pb bs)) + wsum (snd (head16 pb bs)) = wsum bs"
  by (auto simp: head16_def unat_ucast_u16_u32 unat_load16 split: list.splits)

theorem chksum3_rfc:
  "unat (lwip_standard_chksum3 addr bs) = rfc_sum bs"
proof (cases "addr mod 2 = 1 \<and> bs \<noteq> []")
  case False
  let ?h = "head16 addr bs"
  let ?r = "bulk16 (FOLD_U32T (fst (bulk32 (fst ?h) (snd ?h)))) (snd (bulk32 (fst ?h) (snd ?h)))"
  let ?s = "fst ?r + ucast (case snd ?r of [] \<Rightarrow> 0 | b # _ \<Rightarrow> set_byte0 0 b)"
  have "cong (unat ?s) (unat (fst ?h) + wsum (snd ?h) + unat (0 :: u16))" by (rule bulk32_end) simp
  then have "cong (unat ?s) (if addr mod 2 = 1 then 256 * wsum bs else wsum bs)"
    using False head16_spec [of addr bs] by auto
  from chksum_finish [OF this] show ?thesis
    using False unfolding lwip_standard_chksum3_def Let_def if_not_P [OF False] case_prod_beta fst_conv snd_conv
      head16_def [symmetric] by simp
next
  case True
  then obtain b cs where bs: "bs = b # cs" by (cases bs) auto
  let ?h = "head16 (addr + 1) cs"
  let ?r = "bulk16 (FOLD_U32T (fst (bulk32 (fst ?h) (snd ?h)))) (snd (bulk32 (fst ?h) (snd ?h)))"
  let ?t = "set_byte1 0 b"
  let ?s = "fst ?r + ucast (case snd ?r of [] \<Rightarrow> ?t | b # _ \<Rightarrow> set_byte0 ?t b)"
  have "cong (unat ?s) (unat (fst ?h) + wsum (snd ?h) + unat ?t)"
    by (rule bulk32_end [where c = b]) simp
  then have "cong (unat ?s) (wsum cs + 256 * unat b)"
    using head16_spec [of "addr + 1" cs] by (simp add: unat_set_byte1)
  then have "cong (unat ?s) (if addr mod 2 = 1 then 256 * wsum bs else wsum bs)"
    using True cong_trans [OF _ odd_head] bs by simp
  from chksum_finish [OF this] show ?thesis
    using True unfolding lwip_standard_chksum3_def Let_def if_P [OF True] case_prod_beta fst_conv snd_conv
      head16_def [symmetric] fst_conv snd_conv
    unfolding bs list.sel by simp
qed

subsection \<open>The interface of a checksum routine\<close>

text \<open>A routine that returns the reference sum of any buffer up to \<open>bound\<close> octets.\<close>

locale checksum =
  fixes ck :: "ptr \<Rightarrow> u8 list \<Rightarrow> u16" and bound :: nat
  assumes rfc: "length bs \<le> bound \<Longrightarrow> unat (ck addr bs) = rfc_sum bs"
begin

lemma alignment_free: "length bs \<le> bound \<Longrightarrow> ck a bs = ck b bs"
  by (simp add: word_unat_eq_iff rfc)

lemma complement_zero: "length bs \<le> bound \<Longrightarrow> NOT (ck a bs) = 0 \<longleftrightarrow> rfc_sum bs = 65535"
proof -
  assume "length bs \<le> bound"
  then have "unat (ck a bs) = rfc_sum bs" by (rule rfc)
  moreover have "NOT (ck a bs) = 0 \<longleftrightarrow> ck a bs = NOT 0" by (metis bit.double_compl)
  moreover have "ck a bs = NOT 0 \<longleftrightarrow> unat (ck a bs) = 65535"
    by (simp add: word_unat_eq_iff unsigned_minus_1_eq_mask mask_eq_exp_minus_1)
  ultimately show ?thesis by simp
qed

end

lemma unat_NOT_u16: "unat (NOT (c :: u16)) = 65535 - unat c"
proof -
  have "NOT c = -1 - c" by (simp add: not_eq_complement)
  then have "unat (NOT c) = unat (-1 :: u16) - unat c" by (simp only: unat_sub word_n1_ge)
  then show ?thesis by (simp add: unsigned_minus_1_eq_mask mask_eq_exp_minus_1)
qed

lemma wsum_append: "even (length xs) \<Longrightarrow> wsum (xs @ ys) = wsum xs + wsum ys"
  by (induction xs rule: wsum.induct) simp_all

lemma wsum_update:
  "i < length bs \<Longrightarrow> wsum (bs[i := b]) + (if even i then 1 else 256) * unat (bs ! i)
    = wsum bs + (if even i then 1 else 256) * unat b"
proof (induction bs arbitrary: i rule: wsum.induct)
  case (1 x y bs)
  show ?case
  proof (cases "i < 2")
    case True
    then show ?thesis by (auto simp: less_2_cases_iff)
  next
    case False
    then obtain j where "i = Suc (Suc j)" by (metis add_2_eq_Suc le_Suc_ex not_less)
    then show ?thesis using 1 by simp
  qed
qed simp_all

lemma rfc_full: "rfc_sum bs = 65535 \<longleftrightarrow> wsum bs \<noteq> 0 \<and> wsum bs mod 65535 = 0"
proof -
  have "rfc_sum bs = canon 65535 \<longleftrightarrow> cong (wsum bs) 65535"
    unfolding rfc_sum_def by (rule cong_iff_canon [symmetric])
  then show ?thesis by (simp add: canon_id cong_def)
qed

text \<open>Changing one octet changes the sum modulo 65535.\<close>

lemma wsum_update_mod:
  assumes i: "i < length bs" and ne: "b \<noteq> bs ! i"
  shows "wsum (bs[i := b]) mod 65535 \<noteq> wsum bs mod 65535"
proof
  let ?w = "if even i then 1 else 256 :: nat"
  let ?x = "?w * unat (bs ! i)" and ?y = "?w * unat b"
  assume m: "wsum (bs[i := b]) mod 65535 = wsum bs mod 65535"
  have "(wsum bs + ?y) mod 65535 = (wsum (bs[i := b]) + ?x) mod 65535" using wsum_update [OF i] by simp
  also have "\<dots> = (wsum bs + ?x) mod 65535" using m by (rule mod_add_cong) simp
  finally have "?y mod 65535 = ?x mod 65535" by (simp only: nat_mod_eq_iff) auto
  moreover have "unat (bs ! i) \<le> 255" "unat b \<le> 255"
    using unat_u8_less [of b] unat_u8_less [of "bs ! i"] by linarith+
  then have "?x < 65535" "?y < 65535" by auto
  ultimately have "?w * unat b = ?w * unat (bs ! i)" by simp
  then have "unat b = unat (bs ! i)" by (simp split: if_splits)
  then show False using ne by (simp add: word_unat_eq_iff)
qed

context checksum begin

lemma detects:
  assumes "length bs \<le> bound" and "NOT (ck a bs) = 0" and "i < length bs" and "b \<noteq> bs ! i"
  shows "NOT (ck a' (bs[i := b])) \<noteq> 0"
  using assms complement_zero [of bs a] complement_zero [of "bs[i := b]" a'] wsum_update_mod [of i bs b]
  by (simp add: rfc_full)

lemma verifies:
  assumes e: "even (length pre)" and l: "length (pre @ [0, 0] @ post) \<le> bound"
    and c: "c = NOT (ck a (pre @ [0, 0] @ post))"
  shows "NOT (ck a' (pre @ [ucast c, ucast (drop_bit 8 c)] @ post)) = 0"
proof -
  let ?X = "wsum pre + wsum post"
  have lo: "load16 (ucast c) (ucast (drop_bit 8 c)) = c"
    unfolding load16_def
    by (subst disjunctive_add_eq_or; rule bit_word_eqI)
      (auto simp: bit_and_iff bit_or_iff bit_push_bit_iff bit_ucast_iff bit_drop_bit_eq)
  have s: "unat (ck a (pre @ [0, 0] @ post)) = canon ?X"
    using rfc [OF l] e by (simp add: rfc_sum_def wsum_append)
  have cn: "unat c = 65535 - canon ?X"
    unfolding c unat_NOT_u16 s ..
  have "wsum (pre @ [ucast c, ucast (drop_bit 8 c)] @ post) = ?X + unat c"
    using e unat_load16 [of "ucast c" "ucast (drop_bit 8 c)"] unfolding lo by (simp add: wsum_append)
  also have "cong \<dots> (canon ?X + unat c)" by (rule cong_add [OF cong_sym [OF cong_canon] cong_refl])
  also have "canon ?X + unat c = 65535" using canon_less [of ?X] cn by simp
  finally have "rfc_sum (pre @ [ucast c, ucast (drop_bit 8 c)] @ post) = 65535"
    unfolding rfc_full cong_def by simp
  then show ?thesis using complement_zero l by simp
qed

end

interpretation ck1: checksum "\<lambda>_. lwip_standard_chksum1" 65535
  by unfold_locales (rule chksum1_rfc)

interpretation ck2: checksum lwip_standard_chksum2 65535
  by unfold_locales (rule chksum2_rfc)

interpretation ck3: checksum lwip_standard_chksum3 65535
  by unfold_locales (rule chksum3_rfc)


subsection \<open>Properties\<close>

text \<open>
  C30: the three versions of the checksum routine are interchangeable: on every buffer of up to
  65535 octets the byte-wise, the 16-bit and the 32-bit version return the same value, the
  sum of RFC 1071, at every address they may be called with (aligned or not).
\<close>

theorem chksum_versions_agree:
  assumes "length bs \<le> 65535"
  shows "lwip_standard_chksum1 bs = lwip_standard_chksum2 a bs
    \<and> lwip_standard_chksum2 a bs = lwip_standard_chksum3 a' bs
    \<and> unat (lwip_standard_chksum2 a bs) = rfc_sum bs"
  using ck1.rfc [OF assms] ck2.rfc [OF assms] ck3.rfc [OF assms] by (simp add: word_unat_eq_iff)

theorem chksum_versions_agree_witness:
  "lwip_standard_chksum1 [1, 2, 3, 4, 5, 6, 7, 8, 9, 0xff, 0xfe] = lwip_standard_chksum3 5 [1, 2, 3, 4, 5, 6, 7, 8, 9, 0xff, 0xfe]"
  using chksum_versions_agree [of "[1, 2, 3, 4, 5, 6, 7, 8, 9, 0xff, 0xfe]" 2 5] by simp

text \<open>
  C29: a sender that zeroes the (16-bit aligned) checksum field, computes \<open>inet_chksum\<close> and stores
  the result in the field, low byte first, produces a packet whose \<open>inet_chksum\<close> is 0, the test
  the receiver makes, whatever addresses the packet has on the two sides; and changing any one
  octet of a packet that passes the test makes it fail.
\<close>

theorem inet_chksum_detects:
  assumes "even (length pre)" and "length (pre @ [0, 0] @ post) \<le> 65535"
    and "c = inet_chksum a (pre @ [0, 0] @ post)"
    and "pkt = pre @ [ucast c, ucast (drop_bit 8 c)] @ post"
  shows "inet_chksum a' pkt = 0
    \<and> (\<forall>i < length pkt. \<forall>b. b \<noteq> pkt ! i \<longrightarrow> inet_chksum a' (pkt[i := b]) \<noteq> 0)"
proof -
  have v: "NOT (lwip_standard_chksum2 a' pkt) = 0"
    using ck2.verifies [OF assms(1,2)] assms(3,4) by (simp add: inet_chksum_def)
  moreover have "length pkt \<le> 65535" using assms(2,4) by simp
  ultimately show ?thesis using ck2.detects unfolding inet_chksum_def by blast
qed

theorem inet_chksum_detects_witness:
  "inet_chksum 1 [0x45, 0, 0xba, 0xff] = 0 \<and> inet_chksum 1 ([0x45, 0, 0xba, 0xff][2 := 0xbb]) \<noteq> 0"
proof -
  have c: "0xffba = inet_chksum 0 ([0x45, 0] @ [0, 0] @ [])" by code_simp
  have p: "[0x45 :: u8, 0, 0xba, 0xff] = [0x45, 0] @ [ucast (0xffba :: u16), ucast (drop_bit 8 (0xffba :: u16))] @ []"
    by code_simp
  from inet_chksum_detects [OF _ _ c p, where a' = 1]
  have d: "inet_chksum 1 [0x45, 0, 0xba, 0xff] = 0"
    and e: "\<forall>i < length [0x45, 0, 0xba, 0xff :: u8]. \<forall>b. b \<noteq> [0x45, 0, 0xba, 0xff] ! i
      \<longrightarrow> inet_chksum 1 ([0x45, 0, 0xba, 0xff][i := b]) \<noteq> 0" by simp_all
  from e have "2 < length [0x45, 0, 0xba, 0xff :: u8] \<longrightarrow> 0xbb \<noteq> [0x45, 0, 0xba, 0xff :: u8] ! 2
      \<longrightarrow> inet_chksum 1 ([0x45, 0, 0xba, 0xff][2 := 0xbb]) \<noteq> 0" by blast
  with d show ?thesis by simp
qed

end
