(* ===== verification/Ip_Addr.thy ===== *)
theory Ip_Addr
  imports Byte_Order
begin

unbundle bit_operations_syntax

text \<open>
  Model of core/ipv4/ip_addr.c without \<open>ip4_addr_isbroadcast\<close> (in \<open>Netif\<close>). Addresses are
  \<open>u32\<close> in network order: octet 0 is the lowest byte. A C string is the list of its octets
  before the terminator; reading at its end gives 0.
\<close>

subsection \<open>Netmasks\<close>

function nm_first_zero :: "u32 \<Rightarrow> u32 \<Rightarrow> u32" where
  "nm_first_zero nm m = (if m = 0 then 0 else if nm AND m = 0 then m else nm_first_zero nm (drop_bit 1 m))"
  by auto
termination
proof (relation "measure (\<lambda>(nm, m). unat m)")
  fix nm m :: u32
  assume "m \<noteq> 0" "nm AND m \<noteq> 0"
  moreover have "unat (drop_bit 1 m) = unat m div 2" using unat_drop_bit [of 1 m] by simp
  ultimately show "((nm, drop_bit 1 m), nm, m) \<in> measure (\<lambda>(nm, m). unat m)"
    by (simp add: unat_gt_0 [symmetric] del: unat_gt_0)
qed simp

function nm_no_one :: "u32 \<Rightarrow> u32 \<Rightarrow> bool" where
  "nm_no_one nm m = (if m = 0 then True else if nm AND m \<noteq> 0 then False else nm_no_one nm (drop_bit 1 m))"
  by auto
termination
proof (relation "measure (\<lambda>(nm, m). unat m)")
  fix nm m :: u32
  assume "m \<noteq> 0"
  moreover have "unat (drop_bit 1 m) = unat m div 2" using unat_drop_bit [of 1 m] by simp
  ultimately show "((nm, drop_bit 1 m), nm, m) \<in> measure (\<lambda>(nm, m). unat m)"
    by (simp add: unat_gt_0 [symmetric] del: unat_gt_0)
qed simp

declare nm_first_zero.simps [simp del] nm_no_one.simps [simp del]

definition ip4_addr_netmask_valid :: "u32 \<Rightarrow> u8" where
  "ip4_addr_netmask_valid netmask =
     (let nm_hostorder = lwip_htonl netmask;
          m = nm_first_zero nm_hostorder (push_bit 31 1)
      in if nm_no_one nm_hostorder m then 1 else 0)"

subsection \<open>Parsing\<close>

definition in_range :: "u8 \<Rightarrow> u8 \<Rightarrow> u8 \<Rightarrow> bool" where
  "in_range c lo up \<longleftrightarrow> lo \<le> c \<and> c \<le> up"

definition isdigit :: "u8 \<Rightarrow> bool" where
  "isdigit c \<longleftrightarrow> in_range c 0x30 0x39"

definition isxdigit :: "u8 \<Rightarrow> bool" where
  "isxdigit c \<longleftrightarrow> isdigit c \<or> in_range c 0x61 0x66 \<or> in_range c 0x41 0x46"

definition islower :: "u8 \<Rightarrow> bool" where
  "islower c \<longleftrightarrow> in_range c 0x61 0x7a"

definition isspace :: "u8 \<Rightarrow> bool" where
  "isspace c \<longleftrightarrow> c = 0x20 \<or> c = 0x0c \<or> c = 0x0a \<or> c = 0x0d \<or> c = 0x09 \<or> c = 0x0b"

text \<open>\<open>*cp\<close>.\<close>

definition ch :: "u8 list \<Rightarrow> u8" where
  "ch cp = (case cp of [] \<Rightarrow> 0 | c # _ \<Rightarrow> c)"

text \<open>The inner loop: digits of one part, from the current character on.\<close>

fun aton_digits :: "u32 \<Rightarrow> u32 \<Rightarrow> u8 list \<Rightarrow> u32 \<times> u8 list" where
  "aton_digits v base (c # cp) =
     (if isdigit c then aton_digits (v * base + (ucast c - 0x30)) base cp
      else if base = 16 \<and> isxdigit c then
        aton_digits (push_bit 4 v OR (ucast c + 10 - (if islower c then 0x61 else 0x41))) base cp
      else (v, c # cp))"
| "aton_digits v base [] = (v, [])"

definition aton_part :: "u8 list \<Rightarrow> (u32 \<times> u8 list) option" where
  "aton_part cp =
     (if \<not> isdigit (ch cp) then None
      else if ch cp = 0x30 then
        (if ch (tl cp) = 0x78 \<or> ch (tl cp) = 0x58 then Some (aton_digits 0 16 (tl (tl cp)))
         else Some (aton_digits 0 8 (tl cp)))
      else Some (aton_digits 0 10 cp))"

text \<open>The outer loop: the parts stored before the last, its value, and what follows it.\<close>

function aton_loop :: "u32 list \<Rightarrow> u8 list \<Rightarrow> (u32 list \<times> u32 \<times> u8 list) option" where
  "aton_loop parts cp = (case aton_part cp of
       None \<Rightarrow> None
     | Some (v, cp') \<Rightarrow>
         if ch cp' = 0x2e then
           (if length parts \<ge> 3 then None else aton_loop (parts @ [v]) (tl cp'))
         else Some (parts, v, cp'))"
  by auto
termination by (relation "measure (\<lambda>(parts, cp). 3 - length parts)") auto

declare aton_loop.simps [simp del]

definition aton_concoct :: "u32 list \<Rightarrow> u32 \<Rightarrow> u32 option" where
  "aton_concoct parts v = (case parts of
       [] \<Rightarrow> Some v
     | [a] \<Rightarrow> if v > 0xffffff then None else Some (v OR push_bit 24 a)
     | [a, b] \<Rightarrow> if v > 0xffff then None else Some (v OR (push_bit 24 a OR push_bit 16 b))
     | [a, b, c] \<Rightarrow> if v > 0xff then None else Some (v OR (push_bit 24 a OR push_bit 16 b OR push_bit 8 c))
     | _ \<Rightarrow> Some v)"

text \<open>\<open>Some\<close>: the function returns 1 and stores the address; \<open>None\<close>: it returns 0.\<close>

definition ipaddr_aton :: "u8 list \<Rightarrow> u32 option" where
  "ipaddr_aton cp = (case aton_loop [] cp of
       None \<Rightarrow> None
     | Some (parts, v, cp') \<Rightarrow>
         if ch cp' \<noteq> 0 \<and> \<not> isspace (ch cp') then None
         else map_option lwip_htonl (aton_concoct parts v))"

definition IPADDR_NONE :: u32 where "IPADDR_NONE = 0xffffffff"

definition ipaddr_addr :: "u8 list \<Rightarrow> u32" where
  "ipaddr_addr cp = (case ipaddr_aton cp of Some a \<Rightarrow> a | None \<Rightarrow> IPADDR_NONE)"

subsection \<open>Printing\<close>

text \<open>The digits \<open>inv[0..i)\<close> of one octet, least significant first.\<close>

function ntoa_inv :: "u8 \<Rightarrow> u8 list" where
  "ntoa_inv a = (0x30 + a mod 10) # (if a div 10 = 0 then [] else ntoa_inv (a div 10))"
  by auto
termination
proof (relation "measure unat")
  fix a :: u8
  assume "a div 10 \<noteq> 0"
  then have "unat (a div 10) \<noteq> 0" by (metis unat_eq_zero)
  moreover have d: "unat (a div 10) = unat a div 10" by (simp only: unat_div) simp
  ultimately have "unat a div 10 < unat a" by simp
  then show "(a div 10, a) \<in> measure unat" using d by simp
qed simp

declare ntoa_inv.simps [simp del]

text \<open>
  Writing characters at \<open>rp\<close>; \<open>rp - buf\<close> and \<open>len\<close> are the same number. False: \<open>buflen\<close>
  reached, the function returns NULL.
\<close>

fun ntoa_puts :: "int \<Rightarrow> u8 list \<Rightarrow> u8 list \<times> nat \<Rightarrow> bool \<times> u8 list \<times> nat" where
  "ntoa_puts buflen [] (buf, len) = (True, buf, len)"
| "ntoa_puts buflen (c # cs) (buf, len) =
     (if int len \<ge> buflen then (False, buf, len) else ntoa_puts buflen cs (buf[len := c], len + 1))"

fun ntoa_octets :: "int \<Rightarrow> u8 list \<Rightarrow> u8 list \<times> nat \<Rightarrow> bool \<times> u8 list \<times> nat" where
  "ntoa_octets buflen [] s = (True, s)"
| "ntoa_octets buflen (a # as) s =
     (case ntoa_puts buflen (rev (ntoa_inv a)) s of
        (False, s) \<Rightarrow> (False, s)
      | (True, s) \<Rightarrow> (case ntoa_puts buflen [0x2e] s of
            (False, s) \<Rightarrow> (False, s)
          | (True, s) \<Rightarrow> ntoa_octets buflen as s))"

text \<open>The octets of the address in memory.\<close>

definition octets :: "u32 \<Rightarrow> u8 list" where
  "octets a = [ucast a, ucast (drop_bit 8 a), ucast (drop_bit 16 a), ucast (drop_bit 24 a)]"

text \<open>The result is the buffer, with \<open>True\<close> for \<open>buf\<close> and \<open>False\<close> for NULL.\<close>

definition ipaddr_ntoa_r :: "u32 \<Rightarrow> u8 list \<Rightarrow> int \<Rightarrow> u8 list \<times> bool" where
  "ipaddr_ntoa_r addr buf buflen =
     (case ntoa_octets buflen (octets addr) (buf, 0) of
        (False, buf, _) \<Rightarrow> (buf, False)
      | (True, buf, rp) \<Rightarrow> (buf[rp - 1 := 0], True))"

text \<open>\<open>str\<close> is the static buffer of 16 octets.\<close>

definition ipaddr_ntoa :: "u32 \<Rightarrow> u8 list \<Rightarrow> u8 list \<times> bool" where
  "ipaddr_ntoa addr str = ipaddr_ntoa_r addr str 16"

text \<open>\<open>IP4_ADDR\<close>, little-endian version.\<close>

definition IP4_ADDR :: "u8 \<Rightarrow> u8 \<Rightarrow> u8 \<Rightarrow> u8 \<Rightarrow> u32" where
  "IP4_ADDR a b c d = push_bit 24 (ucast d) OR push_bit 16 (ucast c) OR push_bit 8 (ucast b) OR ucast a"

subsection \<open>Decimal numerals\<close>

fun dec :: "nat \<Rightarrow> u8 list" where
  "dec n = (if n < 10 then [of_nat (48 + n)] else dec (n div 10) @ [of_nat (48 + n mod 10)])"

declare dec.simps [simp del]

text \<open>\<open>a.b.c.d\<close>.\<close>

definition quad :: "nat \<Rightarrow> nat \<Rightarrow> nat \<Rightarrow> nat \<Rightarrow> u8 list" where
  "quad a b c d = dec a @ [0x2e] @ dec b @ [0x2e] @ dec c @ [0x2e] @ dec d"

lemma digit_value:
  assumes "n < 10"
  shows "unat (of_nat (48 + n) :: u8) = 48 + n"
proof -
  have "48 + n < 256" using assms by simp
  then show ?thesis using unat_of_nat_u8 [of "48 + n"] by simp
qed

lemma isdigit_digit: "n < 10 \<Longrightarrow> isdigit (of_nat (48 + n))"
  using digit_value [of n] unfolding isdigit_def in_range_def word_le_nat_alt by simp

lemma digit_ucast: "n < 10 \<Longrightarrow> (ucast (of_nat (48 + n) :: u8) :: u32) - 0x30 = of_nat n"
proof -
  assume n: "n < 10"
  have "(ucast (of_nat (48 + n) :: u8) :: u32) = of_nat (unat (of_nat (48 + n) :: u8))" by simp
  also have "\<dots> = of_nat (48 + n)" using digit_value [OF n] by simp
  finally show ?thesis by simp
qed

lemma digit_nonzero: "n < 10 \<Longrightarrow> n \<noteq> 0 \<Longrightarrow> (of_nat (48 + n) :: u8) \<noteq> 0x30"
  using digit_value [of n] by (auto simp: word_unat_eq_iff)

lemma dec_nonempty: "dec n \<noteq> []"
  by (subst dec.simps) simp

lemma dec_isdigit: "c \<in> set (dec n) \<Longrightarrow> isdigit c"
proof (induction n rule: dec.induct)
  case (1 n)
  then show ?case
    using isdigit_digit [of n] isdigit_digit [of "n mod 10"] by (subst (asm) (2) dec.simps) (auto split: if_splits)
qed

lemma dec_head: "n \<noteq> 0 \<Longrightarrow> hd (dec n) \<noteq> 0x30"
proof (induction n rule: dec.induct)
  case (1 n)
  show ?case
  proof (cases "n < 10")
    case True
    then show ?thesis using digit_nonzero [of n] 1(2) by (subst dec.simps) simp
  next
    case False
    then have "hd (dec (n div 10)) \<noteq> 0x30" using 1(1) by simp
    then show ?thesis using False dec_nonempty by (subst dec.simps) (simp add: hd_append)
  qed
qed

lemma aton_digits_dec:
  "aton_digits v 10 (dec n @ rest) = aton_digits (v * 10 ^ length (dec n) + of_nat n) 10 rest"
proof (induction n arbitrary: v rest rule: dec.induct)
  case (1 n)
  show ?case
  proof (cases "n < 10")
    case True
    then have "dec n = [of_nat (48 + n)]" by (subst dec.simps) simp
    then show ?thesis
      using isdigit_digit [OF True] digit_ucast [OF True] by (simp only: aton_digits.simps append.simps if_True) simp
  next
    case False
    let ?q = "n div 10" and ?r = "n mod 10"
    have r: "?r < 10" by simp
    have d: "dec n = dec ?q @ [of_nat (48 + ?r)]" using False by (subst dec.simps) simp
    have "(v * 10 ^ length (dec ?q) + of_nat ?q) * 10 + of_nat ?r
      = v * 10 ^ length (dec n) + (of_nat 10 * of_nat ?q + of_nat ?r)"
      unfolding d by (simp add: algebra_simps)
    also have "of_nat 10 * of_nat ?q + of_nat ?r = (of_nat (10 * ?q + ?r) :: u32)"
      by (simp only: of_nat_add of_nat_mult)
    also have "10 * ?q + ?r = n" by simp
    finally have e: "(v * 10 ^ length (dec ?q) + of_nat ?q) * 10 + of_nat ?r
      = v * 10 ^ length (dec n) + of_nat n" .
    have "aton_digits v 10 (dec n @ rest) = aton_digits v 10 (dec ?q @ (of_nat (48 + ?r) # rest))"
      unfolding d by simp
    also have "\<dots> = aton_digits (v * 10 ^ length (dec ?q) + of_nat ?q) 10 (of_nat (48 + ?r) # rest)"
      by (rule 1 [OF False])
    also have "\<dots> = aton_digits ((v * 10 ^ length (dec ?q) + of_nat ?q) * 10 + of_nat ?r) 10 rest"
      using isdigit_digit [OF r] digit_ucast [OF r] by (simp only: aton_digits.simps if_True)
    finally show ?thesis unfolding e .
  qed
qed

text \<open>What may follow a part.\<close>

definition ends_part :: "u8 list \<Rightarrow> bool" where
  "ends_part cp \<longleftrightarrow> \<not> isdigit (ch cp) \<and> ch cp \<noteq> 0x78 \<and> ch cp \<noteq> 0x58"

lemma aton_digits_stop: "ends_part cp \<Longrightarrow> base \<noteq> 16 \<Longrightarrow> aton_digits v base cp = (v, cp)"
  by (cases cp) (simp_all add: ends_part_def ch_def)

lemma aton_part_dec:
  assumes "ends_part rest"
  shows "aton_part (dec n @ rest) = Some (of_nat n, rest)"
proof (cases "n = 0")
  case True
  then have "dec n = [0x30]" by (simp add: dec.simps)
  then show ?thesis
    using assms aton_digits_stop [OF assms, of 8 0] True
    by (simp add: aton_part_def ch_def ends_part_def isdigit_def in_range_def)
next
  case False
  obtain c cs where d: "dec n = c # cs" using dec_nonempty [of n] by (cases "dec n") auto
  then have "isdigit c" "c \<noteq> 0x30" using dec_isdigit [of c n] dec_head [OF False] by simp_all
  then have "aton_part (dec n @ rest) = Some (aton_digits 0 10 (dec n @ rest))"
    by (simp add: d aton_part_def ch_def)
  also have "aton_digits 0 10 (dec n @ rest) = (of_nat n, rest)"
    unfolding aton_digits_dec using aton_digits_stop [OF assms] by simp
  finally show ?thesis .
qed

lemma ends_part_dot: "ends_part (0x2e # cp)"
  by (simp add: ends_part_def ch_def isdigit_def in_range_def)

lemma aton_loop_dot:
  "length parts < 3 \<Longrightarrow> aton_loop parts (dec n @ 0x2e # cp) = aton_loop (parts @ [of_nat n]) cp"
  using aton_part_dec [OF ends_part_dot] by (subst aton_loop.simps) (simp add: ch_def)

lemma aton_loop_end:
  "ends_part cp \<Longrightarrow> ch cp \<noteq> 0x2e \<Longrightarrow> aton_loop parts (dec n @ cp) = Some (parts, of_nat n, cp)"
  by (subst aton_loop.simps) (simp add: aton_part_dec)

text \<open>The end of an address: the terminator or white space.\<close>

definition ends_addr :: "u8 list \<Rightarrow> bool" where
  "ends_addr cp \<longleftrightarrow> ch cp = 0 \<or> isspace (ch cp)"

lemma ends_addr_part: "ends_addr cp \<Longrightarrow> ends_part cp \<and> ch cp \<noteq> 0x2e"
  by (auto simp: ends_addr_def ends_part_def isspace_def isdigit_def in_range_def)

lemma aton_loop_quad:
  assumes "ends_addr cp"
  shows "aton_loop [] (quad a b c d @ cp) = Some ([of_nat a, of_nat b, of_nat c], of_nat d, cp)"
  using ends_addr_part [OF assms] by (simp add: quad_def aton_loop_dot aton_loop_end)

lemma ipaddr_aton_quad_word:
  assumes "ends_addr cp"
  shows "ipaddr_aton (quad a b c d @ cp) = map_option lwip_htonl
    (if (of_nat d :: u32) > 0xff then None
     else Some (of_nat d OR (push_bit 24 (of_nat a) OR push_bit 16 (of_nat b) OR push_bit 8 (of_nat c))))"
  using assms by (simp add: ipaddr_aton_def aton_loop_quad ends_addr_def aton_concoct_def)

lemma htonl_quad:
  assumes "a < 256" "b < 256" "c < 256" "d < 256"
  shows "lwip_htonl (of_nat d OR (push_bit 24 (of_nat a) OR push_bit 16 (of_nat b) OR push_bit 8 (of_nat c)))
    = IP4_ADDR (of_nat a) (of_nat b) (of_nat c) (of_nat d)"
proof -
  have u: "(of_nat n :: u32) = ucast (of_nat n :: u8)" if "n < 256" for n
  proof -
    have "(ucast (of_nat n :: u8) :: u32) = of_nat (unat (of_nat n :: u8))" by simp
    then show ?thesis using unat_of_nat_u8 [of n] that by simp
  qed
  have "lwip_htonl (ucast d' OR (push_bit 24 (ucast a') OR push_bit 16 (ucast b') OR push_bit 8 (ucast c')))
    = IP4_ADDR a' b' c' d'" for a' b' c' d' :: u8
    unfolding IP4_ADDR_def
    by (rule bit_word_eqI)
      (simp only: bit_shift_simps possible_bit_word bit_ucast_iff bit_htonl,
        auto simp: not_less less_diff_conv2 add.commute not_bit_u8)
  then show ?thesis unfolding u [OF assms(1)] u [OF assms(2)] u [OF assms(3)] u [OF assms(4)] .
qed


lemma IP4_ADDR_octets:
  "IP4_ADDR (ucast addr) (ucast (drop_bit 8 addr)) (ucast (drop_bit 16 addr)) (ucast (drop_bit 24 addr)) = addr"
proof (rule bit_word_eqI)
  fix n assume "n < LENGTH(32)"
  then consider "n < 8" | "8 \<le> n" "n < 16" | "16 \<le> n" "n < 24" | "24 \<le> n" "n < 32" by fastforce
  then show "bit (IP4_ADDR (ucast addr) (ucast (drop_bit 8 addr)) (ucast (drop_bit 16 addr))
      (ucast (drop_bit 24 addr))) n = bit addr n"
    by cases (auto simp: IP4_ADDR_def bit_or_iff bit_push_bit_iff bit_ucast_iff bit_drop_bit_eq less_diff_conv2)
qed

subsection \<open>Printing\<close>

lemma rev_ntoa_inv: "rev (ntoa_inv a) = dec (unat a)"
proof (induction a rule: ntoa_inv.induct)
  case (1 a)
  have m: "(0x30 + a mod 10 :: u8) = of_nat (48 + unat a mod 10)"
    by (simp add: word_unat_eq_iff unat_word_ariths unat_of_nat_u8 unat_mod mod_simps)
  have q: "unat (a div 10) = unat a div 10" by (simp add: unat_div)
  show ?case
  proof (cases "a div 10 = 0")
    case True
    then have "unat a < 10" using q by (simp add: div_eq_0_iff)
    then show ?thesis using True m by (subst ntoa_inv.simps, subst dec.simps) simp
  next
    case False
    then have "\<not> unat a < 10" using q by (auto simp: word_unat_eq_iff)
    moreover have "rev (ntoa_inv (a div 10)) = dec (unat a div 10)" using 1 False q by simp
    ultimately show ?thesis using False m by (subst ntoa_inv.simps, subst dec.simps) simp
  qed
qed

lemma dec_length: "n < 256 \<Longrightarrow> length (dec n) \<le> 3"
proof -
  assume "n < 256"
  then have "n div 10 div 10 < 10" by simp
  then show ?thesis
    by (subst dec.simps, cases "n < 10", simp, subst dec.simps, cases "n div 10 < 10", simp, subst dec.simps) simp
qed

lemma ntoa_puts_ok:
  "\<lbrakk>int (length done' + length cs) \<le> buflen; length done' + length cs \<le> length done' + length gap\<rbrakk> \<Longrightarrow>
   ntoa_puts buflen cs (done' @ gap, length done')
     = (True, (done' @ cs) @ drop (length cs) gap, length (done' @ cs))"
proof (induction cs arbitrary: done' gap)
  case (Cons c cs)
  then obtain g gs where g: "gap = g # gs" by (cases gap) auto
  have "ntoa_puts buflen (c # cs) (done' @ gap, length done')
      = ntoa_puts buflen cs ((done' @ [c]) @ gs, length (done' @ [c]))"
    using Cons.prems g by simp
  also have "\<dots> = (True, ((done' @ [c]) @ cs) @ drop (length cs) gs, length ((done' @ [c]) @ cs))"
    using Cons.prems g by (intro Cons.IH) simp_all
  finally show ?case using g by simp
qed simp

fun dotted :: "u8 list \<Rightarrow> u8 list" where
  "dotted [] = []"
| "dotted (a # as) = dec (unat a) @ [0x2e] @ dotted as"

lemma dotted_length: "length (dotted as) \<le> 4 * length as"
proof (induction as)
  case (Cons a as)
  then show ?case using dec_length [of "unat a"] by simp
qed simp

lemma ntoa_octets_ok:
  "\<lbrakk>int (length done' + length (dotted as)) \<le> buflen; length (dotted as) \<le> length gap\<rbrakk> \<Longrightarrow>
   ntoa_octets buflen as (done' @ gap, length done')
     = (True, (done' @ dotted as) @ drop (length (dotted as)) gap, length (done' @ dotted as))"
proof (induction as arbitrary: done' gap)
  case (Cons a as)
  let ?d = "dec (unat a)" and ?g = "drop (length (dec (unat a))) gap"
  have 1: "ntoa_puts buflen (rev (ntoa_inv a)) (done' @ gap, length done') = (True, (done' @ ?d) @ ?g, length (done' @ ?d))"
    unfolding rev_ntoa_inv using Cons.prems by (intro ntoa_puts_ok) simp_all
  have 2: "ntoa_puts buflen [0x2e] ((done' @ ?d) @ ?g, length (done' @ ?d))
      = (True, ((done' @ ?d) @ [0x2e]) @ drop (length [0x2e :: u8]) ?g, length ((done' @ ?d) @ [0x2e]))"
    using Cons.prems by (intro ntoa_puts_ok) simp_all
  have 3: "ntoa_octets buflen as (((done' @ ?d) @ [0x2e]) @ drop (length [0x2e :: u8]) ?g, length ((done' @ ?d) @ [0x2e]))
      = (True, (((done' @ ?d) @ [0x2e]) @ dotted as) @ drop (length (dotted as)) (drop (length [0x2e :: u8]) ?g),
          length (((done' @ ?d) @ [0x2e]) @ dotted as))"
    using Cons.prems by (intro Cons.IH) simp_all
  show ?case unfolding ntoa_octets.simps 1 prod.case bool.case 2 3 by (simp add: add.commute)
qed simp

definition cstring :: "u8 list \<Rightarrow> u8 list" where
  "cstring buf = takeWhile (\<lambda>c. c \<noteq> 0) buf"

lemma dec_nonzero: "0 \<notin> set (dec n)"
  using dec_isdigit [of 0 n] by (auto simp: isdigit_def in_range_def)

lemma ipaddr_ntoa_r_ok:
  assumes "length (dotted (octets addr)) \<le> length buf" and "int (length (dotted (octets addr))) \<le> buflen"
  obtains buf' where "ipaddr_ntoa_r addr buf buflen = (buf', True)" and "length buf' = length buf"
    and "cstring buf' = quad (unat (ucast addr :: u8)) (unat (ucast (drop_bit 8 addr) :: u8))
      (unat (ucast (drop_bit 16 addr) :: u8)) (unat (ucast (drop_bit 24 addr) :: u8))"
proof -
  let ?q = "quad (unat (ucast addr :: u8)) (unat (ucast (drop_bit 8 addr) :: u8))
      (unat (ucast (drop_bit 16 addr) :: u8)) (unat (ucast (drop_bit 24 addr) :: u8))"
  have d: "dotted (octets addr) = ?q @ [0x2e]" by (simp add: octets_def quad_def)
  have l: "length (dotted (octets addr)) = length ?q + 1" unfolding d by simp
  let ?gap = "drop (length ?q + 1) buf"
  have "ntoa_octets buflen (octets addr) ([] @ buf, length ([] :: u8 list))
      = (True, ([] @ dotted (octets addr)) @ ?gap, length ([] @ dotted (octets addr)))"
    unfolding l [symmetric] using assms by (intro ntoa_octets_ok) simp_all
  then have "ipaddr_ntoa_r addr buf buflen = ((?q @ [0x2e] @ ?gap)[length ?q := 0], True)"
    unfolding ipaddr_ntoa_r_def d by simp
  moreover have "(?q @ [0x2e] @ ?gap)[length ?q := 0] = ?q @ [0] @ ?gap" by (simp add: list_update_append)
  moreover have "cstring (?q @ [0] @ ?gap) = ?q"
  proof -
    have "\<forall>c \<in> set ?q. c \<noteq> 0" using dec_nonzero by (auto simp: quad_def)
    then show ?thesis by (simp add: cstring_def takeWhile_append)
  qed
  moreover have "length (?q @ [0] @ ?gap) = length buf" using assms(1) l by simp
  ultimately show ?thesis using that by simp
qed

subsection \<open>Netmasks\<close>

lemma and_bit:
  fixes nm :: u32
  assumes "i < 32"
  shows "nm AND push_bit i 1 = 0 \<longleftrightarrow> \<not> bit nm i"
  by (simp add: and_exp_eq_0_iff_not_bit)

lemma push_one_nonzero: "i < 32 \<Longrightarrow> (push_bit i 1 :: u32) \<noteq> 0"
  by (simp add: exp_eq_zero_iff)

lemma shift_down:
  "drop_bit 1 (push_bit 0 1 :: u32) = 0"
  "Suc i < 32 \<Longrightarrow> drop_bit 1 (push_bit (Suc i) 1 :: u32) = push_bit i 1"
proof -
  show "drop_bit 1 (push_bit 0 1 :: u32) = 0" by (rule bit_word_eqI) (simp add: bit_drop_bit_eq bit_1_iff)
  assume "Suc i < 32"
  then show "drop_bit 1 (push_bit (Suc i) 1 :: u32) = push_bit i 1"
    by (intro bit_word_eqI) (auto simp: bit_drop_bit_eq bit_exp_iff simp flip: power_Suc)
qed

lemma nm_zero [simp]: "nm_first_zero nm 0 = 0" "nm_no_one nm 0 = True"
  by (simp_all add: nm_first_zero.simps nm_no_one.simps)

lemma nm_first_zero_ones: "i < 32 \<Longrightarrow> \<forall>j \<le> i. bit nm j \<Longrightarrow> nm_first_zero nm (push_bit i 1) = 0"
proof (induction i)
  case 0
  then show ?case using and_bit [of 0 nm] push_one_nonzero [of 0] by (subst nm_first_zero.simps) (simp only: shift_down nm_zero, simp)
next
  case (Suc i)
  then show ?case using and_bit [of "Suc i" nm] push_one_nonzero [of "Suc i"] by (subst nm_first_zero.simps) (simp only: shift_down, simp)
qed

lemma nm_first_zero_at:
  "\<lbrakk>i < 32; k \<le> i; \<not> bit nm k; \<forall>j. k < j \<and> j \<le> i \<longrightarrow> bit nm j\<rbrakk> \<Longrightarrow> nm_first_zero nm (push_bit i 1) = push_bit k 1"
proof (induction i)
  case 0
  then show ?case using and_bit [of 0 nm] push_one_nonzero [of 0] by (subst nm_first_zero.simps) simp
next
  case (Suc i)
  show ?case
  proof (cases "k = Suc i")
    case True
    then show ?thesis using Suc.prems and_bit [of "Suc i" nm] push_one_nonzero [of "Suc i"] by (subst nm_first_zero.simps) simp
  next
    case False
    then have "nm_first_zero nm (push_bit i 1) = push_bit k 1" using Suc by simp
    moreover have "bit nm (Suc i)" using Suc.prems False by simp
    ultimately show ?thesis
      using Suc.prems(1) and_bit [of "Suc i" nm] push_one_nonzero [of "Suc i"] by (subst nm_first_zero.simps) (simp only: shift_down if_False, simp)
  qed
qed

lemma nm_no_one_spec: "i < 32 \<Longrightarrow> nm_no_one nm (push_bit i 1) \<longleftrightarrow> (\<forall>j \<le> i. \<not> bit nm j)"
proof (induction i)
  case 0
  then show ?case using and_bit [of 0 nm] push_one_nonzero [of 0] by (subst nm_no_one.simps) (simp only: shift_down nm_zero, simp)
next
  case (Suc i)
  then show ?case
    using and_bit [of "Suc i" nm] push_one_nonzero [of "Suc i"] by (subst nm_no_one.simps) (simp only: shift_down, auto simp: le_Suc_eq)
qed

text \<open>
  C39: \<open>ip4_addr_netmask_valid\<close> returns 1 exactly for the masks that are, in host order, ones
  followed by zeros (all ones and all zeros included), and 0 for every other word.
\<close>

theorem ip4_addr_netmask_valid_prefix:
  "ip4_addr_netmask_valid netmask =
    (if \<exists>k \<le> 32. lwip_htonl netmask = NOT (mask k) then 1 else 0)"
proof -
  let ?h = "lwip_htonl netmask"
  have m: "?h = NOT (mask k) \<longleftrightarrow> (\<forall>j < 32. bit ?h j \<longleftrightarrow> k \<le> j)" for k
    by (auto simp: bit_eq_iff bit_not_iff bit_mask_iff)
  show ?thesis
  proof (cases "\<forall>j \<le> 31. bit ?h j")
    case True
    then have "?h = NOT (mask 0)" unfolding m by simp
    then have "\<exists>k \<le> 32. ?h = NOT (mask k)" by blast
    moreover have "nm_first_zero ?h (push_bit 31 1) = 0" using True by (rule nm_first_zero_ones [rotated]) simp
    ultimately show ?thesis by (simp only: ip4_addr_netmask_valid_def Let_def nm_zero if_True)
  next
    case False
    define z where "z = Max {j. j \<le> 31 \<and> \<not> bit ?h j}"
    have fin: "finite {j. j \<le> (31 :: nat) \<and> \<not> bit ?h j}" by simp
    have "z \<in> {j. j \<le> 31 \<and> \<not> bit ?h j}" unfolding z_def using False by (intro Max_in [OF fin]) auto
    then have z: "z \<le> 31" "\<not> bit ?h z" by auto
    have above: "\<forall>j. z < j \<and> j \<le> 31 \<longrightarrow> bit ?h j"
    proof (intro allI impI)
      fix j assume j: "z < j \<and> j \<le> 31"
      show "bit ?h j"
      proof (rule ccontr)
        assume "\<not> bit ?h j"
        then have "j \<le> z" unfolding z_def using j by (intro Max_ge [OF fin]) simp
        then show False using j by simp
      qed
    qed
    have "nm_first_zero ?h (push_bit 31 1) = push_bit z 1"
      using z above by (intro nm_first_zero_at) simp_all
    then have "ip4_addr_netmask_valid netmask = (if \<forall>j \<le> z. \<not> bit ?h j then 1 else 0)"
      using z by (simp only: ip4_addr_netmask_valid_def Let_def nm_no_one_spec)
    moreover have "(\<forall>j \<le> z. \<not> bit ?h j) \<longleftrightarrow> (\<exists>k \<le> 32. ?h = NOT (mask k))"
    proof
      assume "\<forall>j \<le> z. \<not> bit ?h j"
      then have "?h = NOT (mask (Suc z))" unfolding m using above by (auto simp: Suc_le_eq not_le [symmetric])
      then show "\<exists>k \<le> 32. ?h = NOT (mask k)" using z by (intro exI [of _ "Suc z"]) simp
    next
      assume "\<exists>k \<le> 32. ?h = NOT (mask k)"
      then obtain k where k: "\<forall>j < 32. bit ?h j \<longleftrightarrow> k \<le> j" unfolding m by blast
      have "bit ?h z \<longleftrightarrow> k \<le> z" using k z(1) by simp
      then have "z < k" using z(2) by simp
      then show "\<forall>j \<le> z. \<not> bit ?h j" using k z by auto
    qed
    ultimately show ?thesis by simp
  qed
qed

text \<open>
  C38: printing an address and parsing the text gives the address back: \<open>ipaddr_ntoa\<close> succeeds
  for every address (16 octets are enough) and leaves in its buffer a string that
  \<open>ipaddr_aton\<close> accepts, even when characters follow it after white space, and reads as the
  same address.
\<close>

theorem ipaddr_ntoa_aton:
  assumes "length str = 16" and "ipaddr_ntoa addr str = (buf, ok)"
  shows "ok \<and> length buf = 16 \<and> ipaddr_aton (cstring buf) = Some addr
    \<and> (isspace c \<longrightarrow> ipaddr_aton (cstring buf @ c # rest) = Some addr)"
proof -
  let ?a = "ucast addr :: u8" and ?b = "ucast (drop_bit 8 addr) :: u8"
  let ?c = "ucast (drop_bit 16 addr) :: u8" and ?d = "ucast (drop_bit 24 addr) :: u8"
  have l: "length (dotted (octets addr)) \<le> 16" using dotted_length [of "octets addr"] by (simp add: octets_def)
  obtain buf' where b: "ipaddr_ntoa_r addr str 16 = (buf', True)" and bl: "length buf' = length str"
    and cs: "cstring buf' = quad (unat ?a) (unat ?b) (unat ?c) (unat ?d)"
    by (rule ipaddr_ntoa_r_ok [of addr str 16]) (use l assms(1) in simp_all)
  have d: "\<not> (of_nat (unat ?d) :: u32) > 0xff"
  proof -
    have "unat ?d \<le> 255" using unat_u8_less [of ?d] by linarith
    then show ?thesis by (simp add: word_less_nat_alt unat_ucast_u8_u32 not_less)
  qed
  have f: "(of_nat (unat x) :: u8) = x" for x :: u8 by simp
  have e: "lwip_htonl (of_nat (unat ?d) OR (push_bit 24 (of_nat (unat ?a)) OR push_bit 16 (of_nat (unat ?b))
      OR push_bit 8 (of_nat (unat ?c)))) = addr"
    unfolding htonl_quad [OF unat_u8_less unat_u8_less unat_u8_less unat_u8_less] f by (rule IP4_ADDR_octets)
  have p: "ipaddr_aton (cstring buf' @ cp) = Some addr" if "ends_addr cp" for cp
    unfolding cs ipaddr_aton_quad_word [OF that] using d
    by (simp only: if_False option.map e)
  have "ipaddr_aton (cstring buf') = Some addr" using p [of "[]"] by (simp add: ends_addr_def ch_def)
  moreover have "isspace c \<longrightarrow> ipaddr_aton (cstring buf' @ c # rest) = Some addr"
    using p [of "c # rest"] by (simp add: ends_addr_def ch_def)
  ultimately show ?thesis using b bl assms by (simp add: ipaddr_ntoa_def)
qed

theorem ipaddr_ntoa_aton_witness:
  "ipaddr_aton (cstring (fst (ipaddr_ntoa 0x6801a8c0 (replicate 16 7)))) = Some 0x6801a8c0"
  using ipaddr_ntoa_aton [where str = "replicate 16 7" and addr = "0x6801a8c0"] prod.collapse
  by (metis length_replicate)

text \<open>
  What \<open>ipaddr_aton\<close> makes of four decimal numbers of any size below $2^{32}$: the last one is
  checked against 255; the first one is not, so that it counts modulo 256 (256.0.0.1 is
  accepted as 0.0.0.1); with all four below 256 the result is the address \<open>IP4_ADDR\<close> builds.
\<close>

theorem ipaddr_aton_quad:
  assumes "a < 2 ^ 32" and "b < 256" and "c < 256" and "d < 2 ^ 32" and "ends_addr rest"
  shows "ipaddr_aton (quad a b c d @ rest) =
    (if d > 255 then None else Some (IP4_ADDR (of_nat (a mod 256)) (of_nat b) (of_nat c) (of_nat d)))"
proof -
  have d: "(of_nat d :: u32) > 0xff \<longleftrightarrow> d > 255"
    using assms(4) unat_of_nat_u32 [of d] by (simp add: word_less_nat_alt)
  have a: "push_bit 24 (of_nat a :: u32) = push_bit 24 (of_nat (a mod 256))"
    by (rule bit_word_eqI) (auto simp: bit_push_bit_iff bit_of_nat_iff take_bit_eq_mod [symmetric, where n = 8, simplified] bit_take_bit_iff)
  show ?thesis
    unfolding ipaddr_aton_quad_word [OF assms(5)] d a
    using htonl_quad [of "a mod 256" b c d] assms(2,3) by simp
qed

theorem ipaddr_aton_quad_witness:
  "ipaddr_aton (quad 256 0 0 1 @ [0x20]) = Some (IP4_ADDR 0 0 0 1) \<and> ipaddr_aton (quad 10 0 0 256 @ [0x20]) = None"
  using ipaddr_aton_quad [of 256 0 0 1 "[0x20]"] ipaddr_aton_quad [of 10 0 0 256 "[0x20]"]
  by (simp add: ends_addr_def ch_def isspace_def)

end
