(* ===== verification/Mem.thy ===== *)
theory Mem
  imports Allocator
begin

text \<open>
  Model of core/mem.c, the heap of the network stack (\<open>MEM_SIZE\<close> 16000, \<open>MEM_ALIGNMENT\<close> 4, no
  pools, no overflow checks, \<open>mem_size_t\<close> 16 bits). A header \<open>struct mem\<close> is addressed by its
  index into \<open>ram\<close>; \<open>mem_size_t\<close> values are \<open>int\<close>s in 0..65535, with the truncation written
  out where a value is stored. \<open>lfree\<close> and \<open>ram_end\<close> are indices as well.
\<close>

subsection \<open>State\<close>

record struct_mem =
  m_next :: int
  m_prev :: int
  m_used :: bool

record heap =
  ram :: ptr
  hdr :: "int \<Rightarrow> struct_mem"
  lfree :: int
  bytes :: "ptr \<Rightarrow> u8"

definition LWIP_MEM_ALIGN_SIZE :: "int \<Rightarrow> int" where
  "LWIP_MEM_ALIGN_SIZE sz = (sz + 4 - 1) div 4 * 4"

definition MEM_SIZE_ALIGNED :: int where "MEM_SIZE_ALIGNED = 16000"
definition SIZEOF_STRUCT_MEM :: int where "SIZEOF_STRUCT_MEM = 8"
definition MIN_SIZE_ALIGNED :: int where "MIN_SIZE_ALIGNED = 12"
definition mem_size_t :: "int \<Rightarrow> int" where "mem_size_t x = x mod 65536"
definition ram_end :: int where "ram_end = MEM_SIZE_ALIGNED"

lemmas mem_consts = MEM_SIZE_ALIGNED_def SIZEOF_STRUCT_MEM_def MIN_SIZE_ALIGNED_def ram_end_def

subsection \<open>Operations\<close>

text \<open>Field assignments through a \<open>struct mem *\<close>.\<close>

definition put_next :: "int \<Rightarrow> int \<Rightarrow> heap \<Rightarrow> heap" where
  "put_next p v H = H\<lparr>hdr := (hdr H)(p := (hdr H p)\<lparr>m_next := v\<rparr>)\<rparr>"

definition put_prev :: "int \<Rightarrow> int \<Rightarrow> heap \<Rightarrow> heap" where
  "put_prev p v H = H\<lparr>hdr := (hdr H)(p := (hdr H p)\<lparr>m_prev := v\<rparr>)\<rparr>"

definition put_used :: "int \<Rightarrow> bool \<Rightarrow> heap \<Rightarrow> heap" where
  "put_used p v H = H\<lparr>hdr := (hdr H)(p := (hdr H p)\<lparr>m_used := v\<rparr>)\<rparr>"

abbreviation mnx :: "heap \<Rightarrow> int \<Rightarrow> int" where "mnx H p \<equiv> m_next (hdr H p)"
abbreviation mpv :: "heap \<Rightarrow> int \<Rightarrow> int" where "mpv H p \<equiv> m_prev (hdr H p)"
abbreviation mus :: "heap \<Rightarrow> int \<Rightarrow> bool" where "mus H p \<equiv> m_used (hdr H p)"

definition plug_forward :: "int \<Rightarrow> heap \<Rightarrow> heap" where
  "plug_forward mem H =
     (let nmem = mnx H mem in
      if mem \<noteq> nmem \<and> \<not> mus H nmem \<and> nmem \<noteq> ram_end then
        let H = (if lfree H = nmem then H\<lparr>lfree := mem\<rparr> else H);
            H = put_next mem (mnx H nmem) H
        in put_prev (mnx H nmem) mem H
      else H)"

definition plug_backward :: "int \<Rightarrow> heap \<Rightarrow> heap" where
  "plug_backward mem H =
     (let pmem = mpv H mem in
      if pmem \<noteq> mem \<and> \<not> mus H pmem then
        let H = (if lfree H = mem then H\<lparr>lfree := pmem\<rparr> else H);
            H = put_next pmem (mnx H mem) H
        in put_prev (mnx H mem) pmem H
      else H)"

definition plug_holes :: "int \<Rightarrow> heap \<Rightarrow> heap" where
  "plug_holes mem H = plug_backward mem (plug_forward mem H)"

definition mem_init :: "ptr \<Rightarrow> heap \<Rightarrow> heap" where
  "mem_init ram_heap H =
     (let H = H\<lparr>ram := (ram_heap + 4 - 1) div 4 * 4\<rparr>;
          H = put_next 0 MEM_SIZE_ALIGNED H;
          H = put_prev 0 0 H;
          H = put_used 0 False H;
          H = put_used ram_end True H;
          H = put_next ram_end MEM_SIZE_ALIGNED H;
          H = put_prev ram_end MEM_SIZE_ALIGNED H
      in H\<lparr>lfree := 0\<rparr>)"

definition mem_free :: "ptr \<Rightarrow> heap \<Rightarrow> heap" where
  "mem_free rmem H =
     (if rmem = NULL then H
      else if rmem < ram H \<or> rmem \<ge> ram H + ram_end then H
      else let mem = rmem - SIZEOF_STRUCT_MEM - ram H;
               H = put_used mem False H;
               H = (if mem < lfree H then H\<lparr>lfree := mem\<rparr> else H)
           in plug_holes mem H)"

text \<open>The size a request is given: aligned, in 16 bits, at least \<open>MIN_SIZE_ALIGNED\<close>.\<close>

definition adjust_size :: "int \<Rightarrow> int" where
  "adjust_size sz =
     (let sz = mem_size_t (LWIP_MEM_ALIGN_SIZE sz)
      in if sz < MIN_SIZE_ALIGNED then MIN_SIZE_ALIGNED else sz)"

definition mem_trim :: "ptr \<Rightarrow> int \<Rightarrow> heap \<Rightarrow> heap \<times> ptr" where
  "mem_trim rmem newsize H =
     (let newsize = adjust_size newsize
      in if newsize > MEM_SIZE_ALIGNED then (H, NULL)
      else if rmem < ram H \<or> rmem \<ge> ram H + ram_end then (H, rmem)
      else
       (let mem = rmem - SIZEOF_STRUCT_MEM - ram H;
            ptr = mem_size_t mem;
            sz = mem_size_t (mnx H mem - ptr - SIZEOF_STRUCT_MEM)
        in if newsize > sz then (H, NULL)
        else if newsize = sz then (H, rmem)
        else
         (let mem2 = mnx H mem
          in if \<not> mus H mem2 then
              (let next = mnx H mem2;
                   ptr2 = mem_size_t (ptr + SIZEOF_STRUCT_MEM + newsize);
                   H = (if lfree H = mem2 then H\<lparr>lfree := ptr2\<rparr> else H);
                   H = put_used ptr2 False H;
                   H = put_next ptr2 next H;
                   H = put_prev ptr2 ptr H;
                   H = put_next mem ptr2 H;
                   H = (if mnx H ptr2 \<noteq> MEM_SIZE_ALIGNED then put_prev (mnx H ptr2) ptr2 H else H)
               in (H, rmem))
             else if newsize + SIZEOF_STRUCT_MEM + MIN_SIZE_ALIGNED \<le> sz then
              (let ptr2 = mem_size_t (ptr + SIZEOF_STRUCT_MEM + newsize);
                   H = (if ptr2 < lfree H then H\<lparr>lfree := ptr2\<rparr> else H);
                   H = put_used ptr2 False H;
                   H = put_next ptr2 (mnx H mem) H;
                   H = put_prev ptr2 ptr H;
                   H = put_next mem ptr2 H;
                   H = (if mnx H ptr2 \<noteq> MEM_SIZE_ALIGNED then put_prev (mnx H ptr2) ptr2 H else H)
               in (H, rmem))
             else (H, rmem))))"

text \<open>The first loop of \<open>mem_malloc\<close>: the header found, if any. \<open>None\<close>: it does not end.\<close>

partial_function (option) mem_scan :: "int \<Rightarrow> int \<Rightarrow> heap \<Rightarrow> int option option" where
  "mem_scan sz ptr H =
     (if ptr < MEM_SIZE_ALIGNED - sz then
        (if \<not> mus H ptr \<and> mnx H ptr - (ptr + SIZEOF_STRUCT_MEM) \<ge> sz then Some (Some ptr)
         else mem_scan sz (mnx H ptr) H)
      else Some None)"

text \<open>The loop that looks for the next free block.\<close>

partial_function (option) mem_next_free :: "int \<Rightarrow> heap \<Rightarrow> int option" where
  "mem_next_free cur H =
     (if mus H cur \<and> cur \<noteq> ram_end then mem_next_free (mnx H cur) H else Some cur)"

text \<open>Taking the block at \<open>ptr\<close>: split it when the rest can hold a block.\<close>

definition mem_take :: "int \<Rightarrow> int \<Rightarrow> heap \<Rightarrow> heap" where
  "mem_take ptr sz H =
     (if mnx H ptr - (ptr + SIZEOF_STRUCT_MEM) \<ge> sz + SIZEOF_STRUCT_MEM + MIN_SIZE_ALIGNED then
        let ptr2 = mem_size_t (ptr + SIZEOF_STRUCT_MEM + sz);
            H = put_used ptr2 False H;
            H = put_next ptr2 (mnx H ptr) H;
            H = put_prev ptr2 ptr H;
            H = put_next ptr ptr2 H;
            H = put_used ptr True H
        in if mnx H ptr2 \<noteq> MEM_SIZE_ALIGNED then put_prev (mnx H ptr2) ptr2 H else H
      else put_used ptr True H)"

definition mem_malloc :: "int \<Rightarrow> heap \<Rightarrow> (heap \<times> ptr) option" where
  "mem_malloc sz H =
     (if sz = 0 then Some (H, NULL)
      else let sz = adjust_size sz
           in if sz > MEM_SIZE_ALIGNED then Some (H, NULL)
           else do {
             found \<leftarrow> mem_scan sz (lfree H) H;
             case found of
               None \<Rightarrow> Some (H, NULL)
             | Some ptr \<Rightarrow>
                 let H = mem_take ptr sz H in
                 if ptr = lfree H then do {
                   cur \<leftarrow> mem_next_free (lfree H) H;
                   Some (H\<lparr>lfree := cur\<rparr>, ram H + ptr + SIZEOF_STRUCT_MEM)
                 }
                 else Some (H, ram H + ptr + SIZEOF_STRUCT_MEM)
           })"

text \<open>
  \<open>count * size\<close> is an \<open>int\<close>, cut to 16 bits for \<open>mem_malloc\<close> and not for \<open>memset\<close>.
\<close>

definition mem_calloc :: "int \<Rightarrow> int \<Rightarrow> heap \<Rightarrow> (heap \<times> ptr) option" where
  "mem_calloc count sz H = do {
     (H, p) \<leftarrow> mem_malloc (mem_size_t (count * sz)) H;
     if p \<noteq> NULL then
       Some (H\<lparr>bytes := (\<lambda>a. if p \<le> a \<and> a < p + count * sz then 0 else bytes H a)\<rparr>, p)
     else Some (H, p) }"

subsection \<open>Well-formed heaps\<close>

text \<open>
  \<open>hs\<close> is the set of the indices that carry a header. Headers form a chain from 0 to
  \<open>ram_end\<close>; each block has at least 12 octets of data, no two free blocks are neighbours, and
  \<open>lfree\<close> is the lowest free block (\<open>ram_end\<close> when there is none).
\<close>

definition linked :: "heap \<Rightarrow> int set \<Rightarrow> bool" where
  "linked H hs \<longleftrightarrow> 0 \<in> hs \<and> mpv H 0 = 0 \<and> mus H 16000 \<and> 16000 \<notin> hs \<and> 0 < ram H \<and> ram H mod 4 = 0
    \<and> (\<forall>p \<in> hs. 0 \<le> p \<and> p mod 4 = 0 \<and> p + 20 \<le> mnx H p \<and> mnx H p \<le> 16000
         \<and> (mnx H p = 16000 \<or> mnx H p \<in> hs \<and> mpv H (mnx H p) = p)
         \<and> (\<forall>q \<in> hs. q \<le> p \<or> mnx H p \<le> q))
    \<and> (\<forall>p \<in> hs. p = 0 \<or> mpv H p \<in> hs \<and> mnx H (mpv H p) = p)"

definition no_adjacent :: "heap \<Rightarrow> int set \<Rightarrow> bool" where
  "no_adjacent H hs \<longleftrightarrow> (\<forall>p \<in> hs. mus H p \<or> mus H (mnx H p))"

definition lowest_free :: "heap \<Rightarrow> int set \<Rightarrow> bool" where
  "lowest_free H hs \<longleftrightarrow> (lfree H = 16000 \<or> lfree H \<in> hs \<and> \<not> mus H (lfree H))
     \<and> (\<forall>p \<in> hs. mus H p \<or> lfree H \<le> p)"

definition heap_ok :: "heap \<Rightarrow> int set \<Rightarrow> bool" where
  "heap_ok H hs \<longleftrightarrow> linked H hs \<and> no_adjacent H hs \<and> lowest_free H hs"

lemmas put_field = put_next_def put_prev_def put_used_def

lemma linkedD:
  assumes "linked H hs"
  shows "0 \<in> hs" "mpv H 0 = 0" "mus H 16000" "16000 \<notin> hs" "0 < ram H" "ram H mod 4 = 0"
    and "p \<in> hs \<Longrightarrow> 0 \<le> p" "p \<in> hs \<Longrightarrow> p mod 4 = 0" "p \<in> hs \<Longrightarrow> p + 20 \<le> mnx H p"
    and "p \<in> hs \<Longrightarrow> mnx H p \<le> 16000" "p \<in> hs \<Longrightarrow> mnx H p \<noteq> 16000 \<Longrightarrow> mnx H p \<in> hs"
    and "p \<in> hs \<Longrightarrow> mnx H p \<noteq> 16000 \<Longrightarrow> mpv H (mnx H p) = p"
    and "p \<in> hs \<Longrightarrow> q \<in> hs \<Longrightarrow> p < q \<Longrightarrow> mnx H p \<le> q"
    and "p \<in> hs \<Longrightarrow> p \<noteq> 0 \<Longrightarrow> mpv H p \<in> hs" "p \<in> hs \<Longrightarrow> p \<noteq> 0 \<Longrightarrow> mnx H (mpv H p) = p"
    and "p \<in> hs \<Longrightarrow> p < 16000"
proof -
  note l = assms [unfolded linked_def]
  show "0 \<in> hs" "mpv H 0 = 0" "mus H 16000" "16000 \<notin> hs" "0 < ram H" "ram H mod 4 = 0" using l by blast+
  show "p \<in> hs \<Longrightarrow> 0 \<le> p" "p \<in> hs \<Longrightarrow> p mod 4 = 0" "p \<in> hs \<Longrightarrow> p + 20 \<le> mnx H p"
    "p \<in> hs \<Longrightarrow> mnx H p \<le> 16000" "p \<in> hs \<Longrightarrow> mnx H p \<noteq> 16000 \<Longrightarrow> mnx H p \<in> hs"
    "p \<in> hs \<Longrightarrow> mnx H p \<noteq> 16000 \<Longrightarrow> mpv H (mnx H p) = p"
    "p \<in> hs \<Longrightarrow> p \<noteq> 0 \<Longrightarrow> mpv H p \<in> hs" "p \<in> hs \<Longrightarrow> p \<noteq> 0 \<Longrightarrow> mnx H (mpv H p) = p" using l by blast+
  show "p \<in> hs \<Longrightarrow> q \<in> hs \<Longrightarrow> p < q \<Longrightarrow> mnx H p \<le> q" using l by (meson not_le)
  show "p \<in> hs \<Longrightarrow> p < 16000" using l by fastforce
qed


subsection \<open>Inserting and removing a header\<close>

lemma linked_insert:
  assumes l: "linked H hs" and p: "p \<in> hs" and b: "p + 20 \<le> r" "r + 20 \<le> mnx H p" "r mod 4 = 0"
    and new: "mnx G p = r" "mnx G r = mnx H p" "mpv G r = p" "mnx H p \<noteq> 16000 \<Longrightarrow> mpv G (mnx H p) = r"
    and frame: "\<And>q. q \<in> hs \<Longrightarrow> q \<noteq> p \<Longrightarrow> mnx G q = mnx H q"
      "\<And>q. q \<in> hs \<Longrightarrow> q \<noteq> mnx H p \<Longrightarrow> mpv G q = mpv H q" "ram G = ram H" "mus G 16000"
  shows "linked G (insert r hs)"
proof -
  note D = linkedD [OF l]
  have r: "r \<notin> hs" "0 < r" "r < 16000" using D(13) [OF p, of r] D(7) [OF p] D(10) [OF p] b by auto
  have n0: "mnx H p \<noteq> 0" using D(7,9) [OF p] by linarith
  have sep: "q \<le> p \<or> mnx H p \<le> q" if "q \<in> hs" for q using D(13) [OF p that] by linarith
  have pq: "q = p \<or> mnx H q \<le> p" if "q \<in> hs" "q \<le> p" for q using D(13) [OF that(1) p] that(2) by fastforce
  have nxt: "mnx H q \<noteq> mnx H p" if "q \<in> hs" "q \<noteq> p" for q
  proof (cases "q < p")
    case True
    then show ?thesis using pq [OF that(1)] that(2) b by force
  next
    case False
    then show ?thesis using sep [OF that(1)] that D(9) [OF that(1)] by force
  qed
  have old: "0 \<le> q \<and> q mod 4 = 0 \<and> q + 20 \<le> mnx G q \<and> mnx G q \<le> 16000
      \<and> (mnx G q = 16000 \<or> mnx G q \<in> insert r hs \<and> mpv G (mnx G q) = q)
      \<and> (\<forall>s \<in> insert r hs. s \<le> q \<or> mnx G q \<le> s)" if q: "q \<in> hs" for q
  proof (cases "q = p")
    case True
    have "\<forall>s \<in> insert r hs. s \<le> p \<or> r \<le> s" using sep b by force
    then show ?thesis using True new b D(7,8,10) [OF p] by simp
  next
    case False
    have "\<forall>s \<in> insert r hs. s \<le> q \<or> mnx H q \<le> s"
    proof
      fix s assume "s \<in> insert r hs"
      then consider "s \<in> hs" | "s = r" by blast
      then show "s \<le> q \<or> mnx H q \<le> s"
      proof cases
        case 1
        then show ?thesis using D(13) [OF q, of s] by linarith
      next
        case 2
        then show ?thesis using sep [OF q] pq [OF q] False b by linarith
      qed
    qed
    then show ?thesis
      using False q frame(1,2) D(7,8,9,10,11,12) [OF q] nxt [OF q False] by auto
  qed
  have rr: "0 \<le> r \<and> r mod 4 = 0 \<and> r + 20 \<le> mnx G r \<and> mnx G r \<le> 16000
      \<and> (mnx G r = 16000 \<or> mnx G r \<in> insert r hs \<and> mpv G (mnx G r) = r)
      \<and> (\<forall>s \<in> insert r hs. s \<le> r \<or> mnx G r \<le> s)"
  proof -
    have "\<forall>s \<in> insert r hs. s \<le> r \<or> mnx H p \<le> s" using sep b by force
    then show ?thesis using r b D(10,11) [OF p] new by auto
  qed
  have prevs: "q = 0 \<or> mpv G q \<in> insert r hs \<and> mnx G (mpv G q) = q" if "q \<in> hs" for q
  proof (cases "q = mnx H p")
    case True
    then have "q \<noteq> 16000" using that D(4) by blast
    then show ?thesis using True new by simp
  next
    case False
    have "mpv H q \<noteq> p" if "q \<noteq> 0" using D(15) [OF \<open>q \<in> hs\<close> that] False by auto
    then show ?thesis using False that frame D(14,15) [OF that] by auto
  qed
  have zero: "mpv G 0 = 0" using frame(2) [OF D(1)] n0 D(2) by simp
  show ?thesis
    unfolding linked_def
    using D(1,4,5,6) zero frame(3,4) r old rr prevs new(1,3) p by auto
qed

lemma linked_remove:
  assumes l: "linked H hs" and p: "p \<in> hs" and n: "mnx H p \<noteq> 16000"
    and new: "mnx G p = mnx H (mnx H p)" "mnx H (mnx H p) \<noteq> 16000 \<Longrightarrow> mpv G (mnx H (mnx H p)) = p"
    and frame: "\<And>q. q \<in> hs \<Longrightarrow> q \<noteq> p \<Longrightarrow> mnx G q = mnx H q"
      "\<And>q. q \<in> hs \<Longrightarrow> q \<noteq> mnx H (mnx H p) \<Longrightarrow> mpv G q = mpv H q" "ram G = ram H" "mus G 16000"
  shows "linked G (hs - {mnx H p})"
proof -
  let ?n = "mnx H p"
  note D = linkedD [OF l]
  have nh: "?n \<in> hs" by (rule D(11) [OF p n])
  have pn: "p + 20 \<le> ?n" "?n + 20 \<le> mnx H ?n" using D(9) p nh by auto
  have sep: "q \<le> p \<or> q = ?n \<or> mnx H ?n \<le> q" if "q \<in> hs" for q
    using D(13) [OF p that] D(13) [OF nh that] by force
  have nn: "q = p" if "q \<in> hs" "mnx H q = ?n" for q
    using D(12) [OF that(1)] D(12) [OF p] that(2) n by metis
  have nn2: "q = ?n" if "q \<in> hs" "mnx H q = mnx H ?n" "mnx H ?n \<noteq> 16000" for q
    using D(12) [OF that(1)] D(12) [OF nh] that(2,3) by metis
  have n0: "mnx H ?n \<noteq> 0" "?n \<noteq> 0" using D(7) [OF p] pn by linarith+
  have old: "0 \<le> q \<and> q mod 4 = 0 \<and> q + 20 \<le> mnx G q \<and> mnx G q \<le> 16000
      \<and> (mnx G q = 16000 \<or> mnx G q \<in> hs - {?n} \<and> mpv G (mnx G q) = q)
      \<and> (\<forall>s \<in> hs - {?n}. s \<le> q \<or> mnx G q \<le> s)" if q: "q \<in> hs - {?n}" for q
  proof (cases "q = p")
    case True
    have "\<forall>s \<in> hs - {?n}. s \<le> p \<or> mnx H ?n \<le> s" using sep by blast
    moreover have "mnx H ?n = 16000 \<or> mnx H ?n \<in> hs - {?n} \<and> mpv G (mnx H ?n) = p"
      using D(11) [OF nh] new(2) pn(2) by auto
    moreover have "p + 20 \<le> mnx H ?n" using pn by linarith
    ultimately show ?thesis unfolding True new(1) using D(7,8) [OF p] D(10) [OF nh] by blast
  next
    case False
    then have e: "mnx G q = mnx H q" using q frame(1) by blast
    have qh: "q \<in> hs" using q by blast
    have ne: "mnx H q \<noteq> ?n" using nn [OF qh] False by blast
    have "\<forall>s \<in> hs. s \<le> q \<or> mnx H q \<le> s" using D(13) [OF qh] by (meson not_le)
    moreover have "mnx H q = 16000 \<or> mnx H q \<in> hs - {?n} \<and> mpv G (mnx H q) = q"
    proof (cases "mnx H q = 16000")
      case n16: False
      have "mnx H q \<noteq> mnx H ?n" using nn2 [OF qh] q n16 by auto
      then show ?thesis using D(11,12) [OF qh n16] ne frame(2) by simp
    qed simp
    ultimately show ?thesis using D(7,8,9,10) [OF qh] unfolding e by blast
  qed
  have prevs: "q = 0 \<or> mpv G q \<in> hs - {?n} \<and> mnx G (mpv G q) = q" if q: "q \<in> hs - {?n}" for q
  proof (cases "q = mnx H ?n")
    case True
    then have "q \<noteq> 16000" using q D(4) by blast
    then have "mpv G q = p" using True new(2) by simp
    moreover have "p \<in> hs - {?n}" using p pn(1) by auto
    ultimately show ?thesis using new(1) True by simp
  next
    case False
    have qh: "q \<in> hs" "q \<noteq> ?n" using q by blast+
    have e: "mpv G q = mpv H q" by (rule frame(2) [OF qh(1) False])
    show ?thesis
    proof (cases "q = 0")
      case nz: False
      note b = D(14,15) [OF qh(1) nz]
      have "mpv H q \<noteq> ?n" "mpv H q \<noteq> p" using b(2) False qh(2) by auto
      then show ?thesis unfolding e using b frame(1) by simp
    qed simp
  qed
  have zero: "mpv G 0 = 0" using frame(2) [OF D(1)] n0 D(2) by simp
  have z: "0 \<in> hs - {?n}" "16000 \<notin> hs - {?n}" using D(1,4) n0(2) by auto
  show ?thesis
    unfolding linked_def using z zero frame(3,4) D(5,6) old prevs by (intro conjI) simp_all
qed


lemma linked_cong:
  assumes "linked H hs"
    and "\<And>q. q \<in> hs \<Longrightarrow> mnx G q = mnx H q" "\<And>q. q \<in> hs \<Longrightarrow> mpv G q = mpv H q"
    and "ram G = ram H" "mus G 16000"
  shows "linked G hs"
  using assms unfolding linked_def by auto

subsection \<open>The blocks in use\<close>

definition live :: "heap \<Rightarrow> int set \<Rightarrow> ptr \<rightharpoonup> int set" where
  "live H hs q = (if q - 8 - ram H \<in> hs \<and> mus H (q - 8 - ram H)
     then Some {q ..< ram H + mnx H (q - 8 - ram H)} else None)"

lemma live_cong:
  assumes "ram G = ram H" and "\<And>p. p \<in> hs \<and> mus H p \<longleftrightarrow> p \<in> gs \<and> mus G p"
    and "\<And>p. p \<in> hs \<Longrightarrow> mus H p \<Longrightarrow> mnx G p = mnx H p"
  shows "live G gs = live H hs"
proof
  fix q
  show "live G gs q = live H hs q"
    using assms(1) assms(2) [of "q - 8 - ram H"] assms(3) [of "q - 8 - ram H"]
    by (cases "q - 8 - ram H \<in> hs \<and> mus H (q - 8 - ram H)") (auto simp: live_def)
qed

lemma live_at: "p \<in> hs \<Longrightarrow> mus H p \<Longrightarrow> live H hs (ram H + p + 8) = Some {ram H + p + 8 ..< ram H + mnx H p}"
  by (simp add: live_def)

lemma live_upd:
  assumes "ram G = ram H" and "p \<in> gs" "mus G p"
    and "\<And>q. q \<noteq> p \<Longrightarrow> q \<in> gs \<and> mus G q \<longleftrightarrow> q \<in> hs \<and> mus H q"
    and "\<And>q. q \<noteq> p \<Longrightarrow> q \<in> hs \<Longrightarrow> mus H q \<Longrightarrow> mnx G q = mnx H q"
  shows "live G gs = (live H hs)(ram H + p + 8 \<mapsto> {ram H + p + 8 ..< ram H + mnx G p})"
proof
  fix x
  show "live G gs x = ((live H hs)(ram H + p + 8 \<mapsto> {ram H + p + 8 ..< ram H + mnx G p})) x"
  proof (cases "x = ram H + p + 8")
    case True
    then show ?thesis using assms(1-3) by (simp add: live_def)
  next
    case False
    then have "x - 8 - ram H \<noteq> p" by linarith
    then show ?thesis
      using False assms(1) assms(4,5) [of "x - 8 - ram H"]
      by (cases "x - 8 - ram H \<in> hs \<and> mus H (x - 8 - ram H)") (auto simp: live_def)
  qed
qed

subsection \<open>Merging\<close>

lemma plug_forward_ok:
  assumes l: "linked H hs" and p: "p \<in> hs" "\<not> mus H p" and low: "lowest_free H hs"
    and adj: "\<And>q. q \<in> hs \<Longrightarrow> mus H q \<or> mus H (mnx H q) \<or> q = p \<or> mnx H q = p"
  defines "G \<equiv> plug_forward p H"
  shows "\<exists>gs. linked G gs \<and> p \<in> gs \<and> \<not> mus G p \<and> mus G (mnx G p) \<and> lowest_free G gs \<and> ram G = ram H
    \<and> live G gs = live H hs \<and> (\<forall>q \<in> gs. mus G q \<or> mus G (mnx G q) \<or> mnx G q = p)"
proof -
  note D = linkedD [OF l]
  have pn: "p \<noteq> mnx H p" using D(9) [OF p(1)] by linarith
  show ?thesis
  proof (cases "\<not> mus H (mnx H p) \<and> mnx H p \<noteq> 16000")
    case False
    then have G: "G = H" by (auto simp: G_def plug_forward_def Let_def mem_consts)
    have "mus H (mnx H p)" using False D(3) by auto
    then show ?thesis unfolding G using assms by blast
  next
    case True
    let ?n = "mnx H p"
    have nh: "?n \<in> hs" using D(11) [OF p(1)] True by blast
    have lf: "lfree H \<le> p" using low p unfolding lowest_free_def by blast
    then have nl: "lfree H \<noteq> ?n" using D(9) [OF p(1)] by linarith
    have G: "G = put_prev (mnx H ?n) p (put_next p (mnx H ?n) H)"
      using True pn nl by (auto simp: G_def plug_forward_def Let_def mem_consts put_field)
    have ne: "?n \<noteq> p" "mnx H ?n \<noteq> p" "mnx H ?n \<noteq> ?n" using D(9) [OF nh] D(9) [OF p(1)] by linarith+
    have f: "mnx G p = mnx H ?n" "mpv G (mnx H ?n) = p" "ram G = ram H" "mus G q = mus H q" "lfree G = lfree H"
      "q \<noteq> p \<Longrightarrow> mnx G q = mnx H q" "q \<noteq> mnx H ?n \<Longrightarrow> mpv G q = mpv H q" for q
      unfolding G by (simp_all add: put_field)
    have lk: "linked G (hs - {?n})"
      using True D(3) f by (intro linked_remove [OF l p(1)]) simp_all
    have un: "mus H (mnx H ?n)" using adj [OF nh] True ne by blast
    have lv: "live G (hs - {?n}) = live H hs"
    proof (intro live_cong)
      show "mnx G q = mnx H q" if "mus H q" for q using f(6) p(2) that by metis
    qed (use f True in auto)
    have lw: "lowest_free G (hs - {?n})"
      using low nl f unfolding lowest_free_def by auto
    have ad: "mus G q \<or> mus G (mnx G q) \<or> mnx G q = p" if "q \<in> hs - {?n}" for q
    proof (cases "q = p")
      case True
      then show ?thesis using un f(1,4) by simp
    next
      case False
      then show ?thesis using adj [of q] that f(4,6) by auto
    qed
    show ?thesis
      using lk p ne(1) un f(1,3,4) lw lv ad by (intro exI [of _ "hs - {?n}"]) auto
  qed
qed

lemma plug_backward_ok:
  assumes l: "linked H hs" and p: "p \<in> hs" "\<not> mus H p" "mus H (mnx H p)" and low: "lowest_free H hs"
    and adj: "\<And>q. q \<in> hs \<Longrightarrow> mus H q \<or> mus H (mnx H q) \<or> mnx H q = p"
  defines "G \<equiv> plug_backward p H"
  shows "\<exists>gs. heap_ok G gs \<and> ram G = ram H \<and> live G gs = live H hs"
proof -
  note D = linkedD [OF l]
  show ?thesis
  proof (cases "p \<noteq> 0 \<and> \<not> mus H (mpv H p)")
    case False
    have pp: "mpv H p = p" if "p = 0" using D(2) that by simp
    then have G: "G = H" using False by (auto simp: G_def plug_backward_def Let_def)
    have "mus H q" if "q \<in> hs" "mnx H q = p" for q
    proof -
      have "mpv H p = q" using D(12) [OF that(1)] that(2) D(16) [OF p(1)] by auto
      moreover have "p \<noteq> 0" using D(7,9) [OF that(1)] that(2) by auto
      ultimately show ?thesis using False by blast
    qed
    then have "no_adjacent H hs" using adj unfolding no_adjacent_def by blast
    then show ?thesis unfolding G heap_ok_def using l low by blast
  next
    case True
    let ?m = "mpv H p"
    have m: "?m \<in> hs" "mnx H ?m = p" using D(14,15) [OF p(1)] True by blast+
    have lt: "?m < p" using D(9) [OF m(1)] m(2) by linarith
    have lf: "lfree H \<le> ?m" using low m True unfolding lowest_free_def by blast
    have G: "G = put_prev (mnx H p) ?m (put_next ?m (mnx H p) H)"
      using True lt lf by (auto simp: G_def plug_backward_def Let_def put_field)
    have ne: "mnx H p \<noteq> p" "mnx H p \<noteq> ?m" using D(9) [OF p(1)] lt by linarith+
    have f: "mnx G ?m = mnx H p" "mpv G (mnx H p) = ?m" "ram G = ram H" "mus G q = mus H q" "lfree G = lfree H"
      "q \<noteq> ?m \<Longrightarrow> mnx G q = mnx H q" "q \<noteq> mnx H p \<Longrightarrow> mpv G q = mpv H q" for q
      unfolding G by (simp_all add: put_field)
    have "linked G (hs - {mnx H ?m})"
      by (rule linked_remove [OF l m(1)]) (use m f D(3) D(16) [OF p(1)] in simp_all)
    then have lk: "linked G (hs - {p})" unfolding m(2) .
    have lv: "live G (hs - {p}) = live H hs"
    proof (intro live_cong)
      show "mnx G q = mnx H q" if "mus H q" for q using f(6) True that by metis
    qed (use f True p(2) in auto)
    have lw: "lowest_free G (hs - {p})"
      using low lf lt f unfolding lowest_free_def by auto
    have ad: "mus G q \<or> mus G (mnx G q)" if q: "q \<in> hs - {p}" for q
    proof (cases "q = ?m")
      case True
      then show ?thesis using p(3) f(1,4) by simp
    next
      case False
      have "mnx H q \<noteq> p"
      proof
        assume "mnx H q = p"
        then have "q = ?m" using D(12) [of q] q D(16) [OF p(1)] by auto
        then show False using False by blast
      qed
      then show ?thesis using adj [of q] q False f(4,6) by auto
    qed
    then show ?thesis using lk lw lv f(3) unfolding heap_ok_def no_adjacent_def by blast
  qed
qed

lemma mem_free_ok:
  assumes h: "heap_ok H hs" and p: "p \<in> hs" "mus H p"
  shows "\<exists>gs. heap_ok (mem_free (ram H + p + 8) H) gs \<and> ram (mem_free (ram H + p + 8) H) = ram H
    \<and> live (mem_free (ram H + p + 8) H) gs = (live H hs)(ram H + p + 8 := None)"
proof -
  have l: "linked H hs" and na: "no_adjacent H hs" and low: "lowest_free H hs"
    using h unfolding heap_ok_def by blast+
  note D = linkedD [OF l]
  define J where "J = (put_used p False H)\<lparr>lfree := min p (lfree H)\<rparr>"
  have e: "mem_free (ram H + p + 8) H = plug_holes p J"
    using D(5) D(7,16) [OF p(1)] D(9,10) [OF p(1)]
    by (simp add: mem_free_def Let_def mem_consts J_def put_field min_def)
  have f: "mnx J q = mnx H q" "mpv J q = mpv H q" "ram J = ram H" "mus J q \<longleftrightarrow> mus H q \<and> q \<noteq> p" for q
    by (simp_all add: J_def put_field)
  have "p \<noteq> 16000" using D(4) p(1) by blast
  then have lJ: "linked J hs" by (intro linked_cong [OF l]) (simp_all add: f D(3))
  have lw: "lowest_free J hs"
    using low p unfolding lowest_free_def f by (auto simp: J_def min_def)
  have adj: "mus J q \<or> mus J (mnx J q) \<or> q = p \<or> mnx J q = p" if "q \<in> hs" for q
    using na that unfolding no_adjacent_def f by blast
  have lvJ: "live J hs = (live H hs)(ram H + p + 8 := None)"
    unfolding live_def f by (intro ext) auto
  obtain gs where g: "linked (plug_forward p J) gs" "p \<in> gs" "\<not> mus (plug_forward p J) p"
    "mus (plug_forward p J) (mnx (plug_forward p J) p)" "lowest_free (plug_forward p J) gs"
    "ram (plug_forward p J) = ram J" "live (plug_forward p J) gs = live J hs"
    "\<forall>q \<in> gs. mus (plug_forward p J) q \<or> mus (plug_forward p J) (mnx (plug_forward p J) q)
        \<or> mnx (plug_forward p J) q = p"
    using plug_forward_ok [OF lJ p(1) _ lw adj] f(4) by blast
  show ?thesis
    using plug_backward_ok [OF g(1-5)] g(6-8) unfolding e plug_holes_def lvJ f by auto
qed


subsection \<open>Searching\<close>

text \<open>\<open>small H p sz\<close>: the block at \<open>p\<close> cannot serve \<open>sz\<close> octets.\<close>

definition small :: "heap \<Rightarrow> int \<Rightarrow> int \<Rightarrow> bool" where
  "small H p sz \<longleftrightarrow> mus H p \<or> mnx H p - p - 8 < sz"

lemma mem_scan_ok:
  assumes l: "linked H hs" and sz: "12 \<le> sz" "sz \<le> 16000"
  shows "ptr \<in> hs \<or> ptr = 16000 \<Longrightarrow>
    (\<exists>p. mem_scan sz ptr H = Some (Some p) \<and> p \<in> hs \<and> ptr \<le> p \<and> \<not> small H p sz
        \<and> (\<forall>q \<in> hs. ptr \<le> q \<and> q < p \<longrightarrow> small H q sz))
    \<or> mem_scan sz ptr H = Some None \<and> (\<forall>q \<in> hs. ptr \<le> q \<longrightarrow> small H q sz)"
proof (induction "nat (16000 - ptr)" arbitrary: ptr rule: less_induct)
  case less
  note D = linkedD [OF l]
  have end': "small H q sz" if "\<not> ptr < 16000 - sz" "q \<in> hs" "ptr \<le> q" for q
    using D(10) [OF that(2)] that sz unfolding small_def by linarith
  show ?case
  proof (cases "ptr < 16000 - sz")
    case False
    then show ?thesis using end' by (simp add: mem_scan.simps mem_consts)
  next
    case True
    then have p: "ptr \<in> hs" using less.prems sz by auto
    show ?thesis
    proof (cases "small H ptr sz")
      case False
      then have "mem_scan sz ptr H = Some (Some ptr)"
        using True by (simp add: mem_scan.simps mem_consts small_def)
      then show ?thesis using p False by auto
    next
      case sm: True
      then have e: "mem_scan sz ptr H = mem_scan sz (mnx H ptr) H"
        using True by (subst mem_scan.simps) (auto simp: mem_consts small_def)
      have next': "mnx H ptr \<in> hs \<or> mnx H ptr = 16000" using D(11) [OF p] by blast
      have lt: "nat (16000 - mnx H ptr) < nat (16000 - ptr)" using D(9,10) [OF p] by linarith
      have step: "q = ptr \<or> mnx H ptr \<le> q" if "q \<in> hs" "ptr \<le> q" for q
        using D(13) [OF p that(1)] that(2) by linarith
      have le: "ptr \<le> mnx H ptr" using D(9) [OF p] by linarith
      have ext: "small H q sz" if "q \<in> hs" "ptr \<le> q" "mnx H ptr \<le> q \<Longrightarrow> small H q sz" for q
        using step [OF that(1,2)] that(3) sm by auto
      consider (found) r where "mem_scan sz (mnx H ptr) H = Some (Some r)" "r \<in> hs" "mnx H ptr \<le> r"
          "\<not> small H r sz" "\<forall>q \<in> hs. mnx H ptr \<le> q \<and> q < r \<longrightarrow> small H q sz"
        | (none) "mem_scan sz (mnx H ptr) H = Some None" "\<forall>q \<in> hs. mnx H ptr \<le> q \<longrightarrow> small H q sz"
        using less.hyps [OF lt next'] by blast
      then show ?thesis
      proof cases
        case found
        then have "ptr \<le> r" "\<forall>q \<in> hs. ptr \<le> q \<and> q < r \<longrightarrow> small H q sz" using le ext by auto
        then show ?thesis unfolding e using found by blast
      next
        case none
        then show ?thesis unfolding e using ext by blast
      qed
    qed
  qed
qed

lemma mem_next_free_ok:
  assumes l: "linked H hs"
  shows "cur \<in> hs \<or> cur = 16000 \<Longrightarrow>
    \<exists>c. mem_next_free cur H = Some c \<and> cur \<le> c \<and> (c = 16000 \<or> c \<in> hs \<and> \<not> mus H c)
      \<and> (\<forall>q \<in> hs. cur \<le> q \<and> q < c \<longrightarrow> mus H q)"
proof (induction "nat (16000 - cur)" arbitrary: cur rule: less_induct)
  case less
  note D = linkedD [OF l]
  show ?case
  proof (cases "mus H cur \<and> cur \<noteq> 16000")
    case False
    then have "mem_next_free cur H = Some cur" by (subst mem_next_free.simps) (auto simp: mem_consts)
    then show ?thesis using False less.prems by auto
  next
    case True
    then have p: "cur \<in> hs" using less.prems by blast
    have e: "mem_next_free cur H = mem_next_free (mnx H cur) H"
      using True by (subst mem_next_free.simps) (simp add: mem_consts)
    have next': "mnx H cur \<in> hs \<or> mnx H cur = 16000" using D(11) [OF p] by blast
    have lt: "nat (16000 - mnx H cur) < nat (16000 - cur)" "cur \<le> mnx H cur" using D(9,10) [OF p] by linarith+
    have step: "q = cur \<or> mnx H cur \<le> q" if "q \<in> hs" "cur \<le> q" for q
      using D(13) [OF p that(1)] that(2) by linarith
    obtain c where c: "mem_next_free (mnx H cur) H = Some c" "mnx H cur \<le> c" "c = 16000 \<or> c \<in> hs \<and> \<not> mus H c"
      "\<forall>q \<in> hs. mnx H cur \<le> q \<and> q < c \<longrightarrow> mus H q" using less.hyps [OF lt(1) next'] by blast
    have "mus H q" if "q \<in> hs" "cur \<le> q" "q < c" for q
      using step [OF that(1,2)] c(4) that True by auto
    then show ?thesis unfolding e using c(1,2,3) lt(2) by (intro exI [of _ c]) auto
  qed
qed

subsection \<open>Taking a block\<close>

lemma mem_take_ok:
  assumes l: "linked H hs" and na: "no_adjacent H hs" and p: "p \<in> hs" "\<not> small H p sz"
    and sz: "12 \<le> sz" "sz \<le> 16000" "sz mod 4 = 0"
  defines "G \<equiv> mem_take p sz H"
  shows "\<exists>gs. linked G gs \<and> no_adjacent G gs \<and> p \<in> gs \<and> mus G p \<and> p + 8 + sz \<le> mnx G p
    \<and> ram G = ram H \<and> lfree G = lfree H
    \<and> live G gs = (live H hs)(ram H + p + 8 \<mapsto> {ram H + p + 8 ..< ram H + mnx G p})
    \<and> (\<forall>q. q \<noteq> p \<and> q \<in> hs \<and> \<not> mus H q \<longrightarrow> q \<in> gs \<and> \<not> mus G q)
    \<and> (\<forall>q \<in> gs. q \<noteq> p \<and> \<not> mus G q \<longrightarrow> p < q \<or> q \<in> hs \<and> \<not> mus H q)"
proof -
  note D = linkedD [OF l]
  have free: "\<not> mus H p" "p + 8 + sz \<le> mnx H p" using p(2) unfolding small_def by auto
  have un: "mus H (mnx H p)" using na p(1) free(1) unfolding no_adjacent_def by blast
  show ?thesis
  proof (cases "mnx H p - (p + 8) \<ge> sz + 20")
    case False
    then have G: "G = put_used p True H" by (simp add: G_def mem_take_def mem_consts)
    have f: "mnx G q = mnx H q" "mpv G q = mpv H q" "ram G = ram H" "mus G q \<longleftrightarrow> mus H q \<or> q = p"
      "lfree G = lfree H" for q
      unfolding G by (simp_all add: put_field)
    have "linked G hs" by (intro linked_cong [OF l]) (simp_all add: f D(3))
    moreover have "no_adjacent G hs" using na unfolding no_adjacent_def f by blast
    moreover have "live G hs = (live H hs)(ram H + p + 8 \<mapsto> {ram H + p + 8 ..< ram H + mnx G p})"
      unfolding live_def f using p(1) by (intro ext) auto
    ultimately show ?thesis using p(1) f free(2) by (intro exI [of _ hs]) auto
  next
    case True
    let ?r = "p + 8 + sz"
    have b: "p + 20 \<le> ?r" "?r + 20 \<le> mnx H p" "?r mod 4 = 0" "?r < 16000"
    proof -
      have "4 dvd p" "4 dvd sz" using D(8) [OF p(1)] sz(3) by presburger+
      then show "?r mod 4 = 0" by simp
    qed (use sz True D(10) [OF p(1)] in linarith)+
    have r: "mem_size_t ?r = ?r" using b D(7) [OF p(1)] by (simp add: mem_size_t_def)
    have rh: "?r \<notin> hs" using D(13) [OF p(1), of ?r] b by force
    have nr: "mnx H p \<noteq> ?r" "mnx H p \<noteq> p" "?r \<noteq> p" using b D(9) [OF p(1)] by linarith+
    have G: "G = (let J = put_used p True (put_next p ?r (put_prev ?r p (put_next ?r (mnx H p) (put_used ?r False H))))
        in if mnx H p \<noteq> 16000 then put_prev (mnx H p) ?r J else J)"
      using True nr r by (simp add: G_def mem_take_def mem_consts Let_def put_field)
    have f: "mnx G p = ?r" "mnx G ?r = mnx H p" "mpv G ?r = p" "mnx H p \<noteq> 16000 \<Longrightarrow> mpv G (mnx H p) = ?r"
      "q \<noteq> p \<Longrightarrow> q \<noteq> ?r \<Longrightarrow> mnx G q = mnx H q"
      "q \<noteq> mnx H p \<Longrightarrow> q \<noteq> ?r \<Longrightarrow> mpv G q = mpv H q"
      "ram G = ram H" "mus G q \<longleftrightarrow> (mus H q \<or> q = p) \<and> q \<noteq> ?r" "lfree G = lfree H" for q
      unfolding G using nr by (auto simp: Let_def put_field)
    have lk: "linked G (insert ?r hs)"
    proof (rule linked_insert [OF l p(1) b(1,2,3) f(1,2,3,4)])
      show "mnx G q = mnx H q" if "q \<in> hs" "q \<noteq> p" for q using f(5) that rh by metis
      show "mpv G q = mpv H q" if "q \<in> hs" "q \<noteq> mnx H p" for q using f(6) that rh by metis
    qed (use f(7,8) D(3) b(4) in auto)
    have na': "no_adjacent G (insert ?r hs)"
      unfolding no_adjacent_def
    proof
      fix q assume q: "q \<in> insert ?r hs"
      consider "q = ?r" | "q = p" | "q \<in> hs" "q \<noteq> p" "q \<noteq> ?r" using q by blast
      then show "mus G q \<or> mus G (mnx G q)"
      proof cases
        case 1
        then show ?thesis using un nr f(2,8) by simp
      next
        case 2
        then show ?thesis using nr f(8) by simp
      next
        case 3
        have "mus H q \<or> mus H (mnx H q)" using na 3(1) unfolding no_adjacent_def by blast
        moreover have "mnx H q \<noteq> ?r" using D(11) [OF 3(1)] rh b(4) by force
        ultimately show ?thesis using f(5) f(8) 3 by metis
      qed
    qed
    have lv: "live G (insert ?r hs) = (live H hs)(ram H + p + 8 \<mapsto> {ram H + p + 8 ..< ram H + mnx G p})"
    proof (rule live_upd [OF f(7)])
      show "q \<in> insert ?r hs \<and> mus G q \<longleftrightarrow> q \<in> hs \<and> mus H q" if "q \<noteq> p" for q
        using f(8) [of q] that rh by (cases "q = ?r") auto
      show "mnx G q = mnx H q" if "q \<noteq> p" "q \<in> hs" for q using f(5) that rh by metis
    qed (use p(1) f(8) nr in auto)
    have "\<forall>q. q \<noteq> p \<and> q \<in> hs \<and> \<not> mus H q \<longrightarrow> q \<in> insert ?r hs \<and> \<not> mus G q" using f(8) by blast
    moreover have "\<forall>q \<in> insert ?r hs. q \<noteq> p \<and> \<not> mus G q \<longrightarrow> p < q \<or> q \<in> hs \<and> \<not> mus H q"
    proof (intro ballI impI)
      fix q assume "q \<in> insert ?r hs" "q \<noteq> p \<and> \<not> mus G q"
      then show "p < q \<or> q \<in> hs \<and> \<not> mus H q" using f(8) [of q] b(1) by (cases "q = ?r") auto
    qed
    ultimately show ?thesis
      using lk na' lv p(1) nr(3)
      by (intro exI [of _ "insert ?r hs"] conjI; (assumption | simp add: f(1,7,8,9)))
  qed
qed


subsection \<open>Requests\<close>

lemma adjust_size:
  "12 \<le> adjust_size sz" "adjust_size sz mod 4 = 0" "0 \<le> sz \<Longrightarrow> sz \<le> 65532 \<Longrightarrow> sz \<le> adjust_size sz"
proof -
  show "12 \<le> adjust_size sz" by (simp add: adjust_size_def Let_def mem_consts)
  have "((sz + 4 - 1) div 4 * 4) mod 65536 mod 4 = (0 :: int)" by (simp add: mod_mod_cancel)
  then show "adjust_size sz mod 4 = 0"
    by (simp add: adjust_size_def Let_def mem_consts mem_size_t_def LWIP_MEM_ALIGN_SIZE_def)
  assume "0 \<le> sz" "sz \<le> 65532"
  moreover have "sz \<le> (sz + 4 - 1) div 4 * 4" "(sz + 4 - 1) div 4 * 4 \<le> sz + 3" by presburger+
  moreover have "sz \<le> 65532 \<Longrightarrow> (sz + 4 - 1) div 4 * 4 < 65536" by presburger
  ultimately show "sz \<le> adjust_size sz"
    by (simp add: adjust_size_def Let_def mem_consts mem_size_t_def LWIP_MEM_ALIGN_SIZE_def)
qed

lemma linked_lfree [simp]: "linked (G\<lparr>lfree := c\<rparr>) gs = linked G gs"
  and no_adjacent_lfree [simp]: "no_adjacent (G\<lparr>lfree := c\<rparr>) gs = no_adjacent G gs"
  by (simp_all add: linked_def no_adjacent_def)

lemma live_lfree [simp]: "live (G\<lparr>lfree := c\<rparr>) gs = live G gs"
  by (rule live_cong) simp_all

lemma mem_malloc_cases:
  assumes h: "heap_ok H hs" and sz: "sz \<noteq> 0"
  obtains (full) "mem_malloc sz H = Some (H, 0)" "\<forall>q \<in> hs. small H q (adjust_size sz)"
  | (block) p G gs where "mem_malloc sz H = Some (G, ram H + p + 8)" "p \<in> hs" "\<not> small H p (adjust_size sz)"
      "\<forall>q \<in> hs. q < p \<longrightarrow> small H q (adjust_size sz)" "heap_ok G gs" "ram G = ram H"
      "live G gs = (live H hs)(ram H + p + 8 \<mapsto> {ram H + p + 8 ..< ram H + mnx G p})"
      "p + 8 + adjust_size sz \<le> mnx G p"
proof -
  have l: "linked H hs" and na: "no_adjacent H hs" and low: "lowest_free H hs"
    using h unfolding heap_ok_def by blast+
  note D = linkedD [OF l]
  let ?n = "adjust_size sz"
  have n: "12 \<le> ?n" "?n mod 4 = 0" by (rule adjust_size)+
  have lf: "lfree H \<in> hs \<or> lfree H = 16000" using low unfolding lowest_free_def by blast
  have below: "small H q ?n" if "q \<in> hs" "\<not> lfree H \<le> q" for q
    using low that unfolding lowest_free_def small_def by blast
  show thesis
  proof (cases "?n > 16000")
    case True
    have "small H q ?n" if "q \<in> hs" for q using True D(7,10) [OF that] unfolding small_def by linarith
    then show thesis using True sz full by (simp add: mem_malloc_def Let_def mem_consts)
  next
    case False
    then consider (none) "mem_scan ?n (lfree H) H = Some None" "\<forall>q \<in> hs. lfree H \<le> q \<longrightarrow> small H q ?n"
      | (some) p where "mem_scan ?n (lfree H) H = Some (Some p)" "p \<in> hs" "lfree H \<le> p" "\<not> small H p ?n"
          "\<forall>q \<in> hs. lfree H \<le> q \<and> q < p \<longrightarrow> small H q ?n"
      using mem_scan_ok [OF l n(1) _ lf] by fastforce
    then show thesis
    proof cases
      case none
      then have "mem_malloc sz H = Some (H, 0)" using False sz by (simp add: mem_malloc_def Let_def mem_consts)
      then show thesis using full none(2) below by blast
    next
      case some
      let ?T = "mem_take p ?n H"
      obtain gs where g: "linked ?T gs" "no_adjacent ?T gs" "p \<in> gs" "mus ?T p" "p + 8 + ?n \<le> mnx ?T p"
        "ram ?T = ram H" "lfree ?T = lfree H"
        "live ?T gs = (live H hs)(ram H + p + 8 \<mapsto> {ram H + p + 8 ..< ram H + mnx ?T p})"
        "\<forall>q. q \<noteq> p \<and> q \<in> hs \<and> \<not> mus H q \<longrightarrow> q \<in> gs \<and> \<not> mus ?T q"
        "\<forall>q \<in> gs. q \<noteq> p \<and> \<not> mus ?T q \<longrightarrow> p < q \<or> q \<in> hs \<and> \<not> mus H q"
        using mem_take_ok [OF l na some(2,4) n(1) _ n(2)] False by auto
      have first: "\<forall>q \<in> hs. q < p \<longrightarrow> small H q ?n" using some(5) below by blast
      have free: "lfree H \<le> q" if "q \<in> gs" "\<not> mus ?T q" for q
      proof -
        have "q \<noteq> p" using that(2) g(4) by blast
        then have "p < q \<or> q \<in> hs \<and> \<not> mus H q" using g(10) that by blast
        then show ?thesis using some(3) low unfolding lowest_free_def by force
      qed
      show thesis
      proof (cases "p = lfree H")
        case True
        obtain c where c: "mem_next_free p ?T = Some c" "p \<le> c" "c = 16000 \<or> c \<in> gs \<and> \<not> mus ?T c"
          "\<forall>q \<in> gs. p \<le> q \<and> q < c \<longrightarrow> mus ?T q"
          using mem_next_free_ok [OF g(1)] g(3) by blast
        have "mem_malloc sz H = Some (?T\<lparr>lfree := c\<rparr>, ram H + p + 8)"
          using False sz some(1) True c(1) g(6,7) by (simp add: mem_malloc_def Let_def mem_consts)
        moreover have "lowest_free (?T\<lparr>lfree := c\<rparr>) gs"
          unfolding lowest_free_def using c(3,4) free True by (auto simp: not_le [symmetric])
        ultimately show thesis
          using block [of "?T\<lparr>lfree := c\<rparr>" p gs] some(2,4) first g by (simp add: heap_ok_def)
      next
        case False
        then have "lfree H \<in> hs \<and> \<not> mus H (lfree H)"
          using low some(3) D(16) [OF some(2)] unfolding lowest_free_def by auto
        then have "lfree H \<in> gs \<and> \<not> mus ?T (lfree H)" using g(9) False by metis
        then have "lowest_free ?T gs" unfolding lowest_free_def g(7) using free by blast
        moreover have "mem_malloc sz H = Some (?T, ram H + p + 8)"
          using \<open>\<not> ?n > 16000\<close> sz some(1) False g(6,7) by (simp add: mem_malloc_def Let_def mem_consts)
        ultimately show thesis
          using block [of ?T p gs] some(2,4) first g by (simp add: heap_ok_def)
      qed
    qed
  qed
qed

lemma mem_init_ok:
  assumes "0 < ram_heap"
  shows "heap_ok (mem_init ram_heap H) {0} \<and> live (mem_init ram_heap H) {0} = Map.empty
    \<and> mnx (mem_init ram_heap H) 0 = 16000 \<and> lfree (mem_init ram_heap H) = 0
    \<and> ram (mem_init ram_heap H) = (ram_heap + 3) div 4 * 4"
proof -
  have "0 < (ram_heap + 3) div 4 * 4" using assms by presburger
  moreover have "live (mem_init ram_heap H) {0} = Map.empty"
    by (rule ext) (auto simp: live_def mem_init_def Let_def mem_consts put_field)
  ultimately show ?thesis
    by (simp add: heap_ok_def linked_def no_adjacent_def lowest_free_def mem_init_def Let_def
        mem_consts put_field)
qed


subsection \<open>Shrinking\<close>


text \<open>A free header \<open>r\<close> now follows \<open>p\<close>; \<open>hs0\<close> are the old headers that are left.\<close>

lemma shrink_finish:
  assumes lk: "linked G (insert r hs0)" and na: "no_adjacent H hs" and p: "p \<in> hs0" "mus H p"
    and sub: "hs0 \<subseteq> hs" "\<And>q. q \<in> hs \<Longrightarrow> mus H q \<Longrightarrow> q \<in> hs0" and r: "r \<notin> hs"
    and f: "ram G = ram H" "\<And>q. mus G q \<longleftrightarrow> mus H q \<and> q \<noteq> r" "mnx G p = r"
      "\<And>q. q \<in> hs0 \<Longrightarrow> q \<noteq> p \<Longrightarrow> mnx G q = mnx H q" "mus H (mnx G r)" "mnx G r \<noteq> r"
    and low: "lowest_free G (insert r hs0)"
    and nx: "\<And>q. q \<in> hs0 \<Longrightarrow> mnx H q \<noteq> r"
  shows "heap_ok G (insert r hs0)
    \<and> live G (insert r hs0) = (live H hs)(ram H + p + 8 \<mapsto> {ram H + p + 8 ..< ram H + mnx G p})"
proof
  have pr: "p \<noteq> r" using p(1) sub(1) r by blast
  have "mus G q \<or> mus G (mnx G q)" if q: "q \<in> insert r hs0" for q
  proof -
    consider "q = r" | "q = p" | "q \<in> hs0" "q \<noteq> p" "q \<noteq> r" using q by blast
    then show ?thesis
    proof cases
      case 3
      have "mus H q \<or> mus H (mnx H q)" using na 3(1) sub(1) unfolding no_adjacent_def by blast
      then show ?thesis using f(2,4) 3 nx by simp
    qed (use f(2,5,6) p(2) pr in auto)
  qed
  then show "heap_ok G (insert r hs0)" unfolding heap_ok_def no_adjacent_def using lk low by blast
  show "live G (insert r hs0) = (live H hs)(ram H + p + 8 \<mapsto> {ram H + p + 8 ..< ram H + mnx G p})"
  proof (rule live_upd [OF f(1)])
    show "q \<in> insert r hs0 \<and> mus G q \<longleftrightarrow> q \<in> hs \<and> mus H q" if "q \<noteq> p" for q
      using sub r f(2) [of q] by (cases "q = r") auto
    show "mnx G q = mnx H q" if "q \<noteq> p" "q \<in> hs" "mus H q" for q using f(4) sub(2) that by blast
  qed (use p f(2) pr in auto)
qed

text \<open>The next block is in use: the freed end becomes a block of its own.\<close>

lemma shrink_split:
  assumes h: "heap_ok H hs" and p: "p \<in> hs" "mus H p" and b: "p + 20 \<le> r" "r + 20 \<le> mnx H p" "r mod 4 = 0"
    and un: "mus H (mnx H p)"
    and new: "mnx G p = r" "mnx G r = mnx H p" "mpv G r = p" "mnx H p \<noteq> 16000 \<Longrightarrow> mpv G (mnx H p) = r"
    and frame: "\<And>q. q \<noteq> p \<Longrightarrow> q \<noteq> r \<Longrightarrow> mnx G q = mnx H q"
      "\<And>q. q \<noteq> mnx H p \<Longrightarrow> q \<noteq> r \<Longrightarrow> mpv G q = mpv H q" "ram G = ram H"
      "\<And>q. mus G q \<longleftrightarrow> mus H q \<and> q \<noteq> r"
    and lf: "lfree G = (if r < lfree H then r else lfree H)"
  shows "heap_ok G (insert r hs)
    \<and> live G (insert r hs) = (live H hs)(ram H + p + 8 \<mapsto> {ram H + p + 8 ..< ram H + mnx G p})"
proof -
  have l: "linked H hs" and na: "no_adjacent H hs" and low: "lowest_free H hs"
    using h unfolding heap_ok_def by blast+
  note D = linkedD [OF l]
  have r: "r \<notin> hs" "r < 16000" using D(13) [OF p(1), of r] D(10) [OF p(1)] b by force+
  have lk: "linked G (insert r hs)"
  proof (rule linked_insert [OF l p(1) b new])
    show "mnx G q = mnx H q" if "q \<in> hs" "q \<noteq> p" for q using frame(1) that r(1) by metis
    show "mpv G q = mpv H q" if "q \<in> hs" "q \<noteq> mnx H p" for q using frame(2) that r(1) by metis
  qed (use frame(3,4) D(3) r(2) in auto)
  have lw: "lowest_free G (insert r hs)"
    using low r unfolding lowest_free_def lf frame(4) by auto
  show ?thesis
  proof (rule shrink_finish [OF lk na p _ _ r(1) frame(3,4) new(1)])
    show "mnx G q = mnx H q" if "q \<in> hs" "q \<noteq> p" for q using frame(1) that r(1) by metis
    show "mnx H q \<noteq> r" if "q \<in> hs" for q using D(11) [OF that] r by fastforce
    show "mnx G r \<noteq> r" using new(2) b(2) by simp
  qed (use un new(2) lw in auto)
qed

text \<open>The next block is free: its header moves down.\<close>

lemma shrink_move:
  assumes h: "heap_ok H hs" and p: "p \<in> hs" "mus H p" and b: "p + 20 \<le> r" "r < mnx H p" "r mod 4 = 0"
    and fr: "\<not> mus H (mnx H p)"
    and new: "mnx G p = r" "mnx G r = mnx H (mnx H p)" "mpv G r = p"
      "mnx H (mnx H p) \<noteq> 16000 \<Longrightarrow> mpv G (mnx H (mnx H p)) = r"
    and frame: "\<And>q. q \<noteq> p \<Longrightarrow> q \<noteq> r \<Longrightarrow> mnx G q = mnx H q"
      "\<And>q. q \<noteq> mnx H (mnx H p) \<Longrightarrow> q \<noteq> r \<Longrightarrow> mpv G q = mpv H q" "ram G = ram H"
      "\<And>q. mus G q \<longleftrightarrow> mus H q \<and> q \<noteq> r"
    and lf: "lfree G = (if lfree H = mnx H p then r else lfree H)"
  shows "heap_ok G (insert r (hs - {mnx H p}))
    \<and> live G (insert r (hs - {mnx H p}))
      = (live H hs)(ram H + p + 8 \<mapsto> {ram H + p + 8 ..< ram H + mnx G p})"
proof -
  have l: "linked H hs" and na: "no_adjacent H hs" and low: "lowest_free H hs"
    using h unfolding heap_ok_def by blast+
  note D = linkedD [OF l]
  let ?m = "mnx H p"
  have m1: "?m \<noteq> 16000" "?m \<noteq> p" using fr D(3) p(2) by metis+
  then have m: "?m \<noteq> 16000" "?m \<in> hs" "?m \<noteq> p" using D(11) [OF p(1)] by blast+
  have r: "r \<notin> hs" "r < 16000" using D(13) [OF p(1), of r] D(10) [OF p(1)] b by force+
  define K where "K = (let J = put_next p (mnx H ?m) H in if mnx H ?m \<noteq> 16000 then put_prev (mnx H ?m) p J else J)"
  have pm: "mnx H ?m \<noteq> p" using D(9) [OF p(1)] D(9) [OF m(2)] by linarith
  have K: "mnx K p = mnx H ?m" "mnx H ?m \<noteq> 16000 \<Longrightarrow> mpv K (mnx H ?m) = p" "q \<noteq> p \<Longrightarrow> mnx K q = mnx H q"
    "q \<noteq> mnx H ?m \<Longrightarrow> mpv K q = mpv H q" "ram K = ram H" "mus K q = mus H q" for q
    by (simp_all add: K_def Let_def put_field)
  have lK: "linked K (hs - {?m})"
    by (rule linked_remove [OF l p(1) m(1) K(1,2)]) (use K(3-6) D(3) in simp_all)
  have p': "p \<in> hs - {?m}" using p(1) m(3) by simp
  have lk: "linked G (insert r (hs - {?m}))"
  proof (rule linked_insert [OF lK p' b(1)])
    show "r + 20 \<le> mnx K p" using b(2) D(9) [OF m(2)] K(1) by linarith
    show "mnx G q = mnx K q" if "q \<in> hs - {?m}" "q \<noteq> p" for q
      using frame(1) [of q] K(3) [of q] that r(1) by auto
    show "mpv G q = mpv K q" if "q \<in> hs - {?m}" "q \<noteq> mnx K p" for q
      using frame(2) [of q] K(4) [of q] that r(1) K(1) by auto
  qed (use new frame(3,4) b(3) K(1,5) D(3) r(2) in auto)
  have lw: "lowest_free G (insert r (hs - {?m}))"
  proof (cases "lfree H = ?m")
    case True
    have "r \<le> q" if "q \<in> hs" "\<not> mus H q" for q using low that b(2) True unfolding lowest_free_def by force
    then show ?thesis using True unfolding lowest_free_def lf frame(4) by auto
  next
    case False
    have le: "lfree H \<le> ?m" using low m(2) fr unfolding lowest_free_def by blast
    then have lh: "lfree H \<in> hs" "\<not> mus H (lfree H)"
      using low D(16) [OF m(2)] unfolding lowest_free_def by auto
    have "\<not> p < lfree H" using D(13) [OF p(1) lh(1)] le False by auto
    then have "lfree H < r" using b(1) by linarith
    then show ?thesis using False low lh r(1) unfolding lowest_free_def lf frame(4) by auto
  qed
  show ?thesis
  proof (rule shrink_finish [OF lk na p' p(2) _ _ r(1) frame(3,4) new(1)])
    show "mnx G q = mnx H q" if "q \<in> hs - {?m}" "q \<noteq> p" for q using frame(1) [of q] that r(1) by auto
    show "mnx H q \<noteq> r" if "q \<in> hs - {?m}" for q using D(11) [of q] that r by fastforce
    show "mus H (mnx G r)" unfolding new(2) using na m(2) fr unfolding no_adjacent_def by blast
    show "mnx G r \<noteq> r" using new(2) b(2) D(9) [OF m(2)] by linarith
  qed (use fr lw in auto)
qed

lemma mem_trim_ok:
  assumes h: "heap_ok H hs" and p: "p \<in> hs" "mus H p" and n_def: "n = adjust_size newsize"
  shows "if n \<le> mnx H p - p - 8
    then \<exists>G gs. mem_trim (ram H + p + 8) newsize H = (G, ram H + p + 8) \<and> heap_ok G gs \<and> ram G = ram H
      \<and> live G gs = (live H hs)(ram H + p + 8 \<mapsto> {ram H + p + 8 ..< ram H + mnx G p})
      \<and> p + 8 + n \<le> mnx G p \<and> mnx G p \<le> mnx H p
    else mem_trim (ram H + p + 8) newsize H = (H, NULL)"
proof -
  have l: "linked H hs" using h unfolding heap_ok_def by blast
  note D = linkedD [OF l]
  have n: "12 \<le> n" "n mod 4 = 0" unfolding n_def by (rule adjust_size)+
  have p16: "p mod 65536 = p" "(mnx H p - p - 8) mod 65536 = mnx H p - p - 8"
    using D(7,9,10,16) [OF p(1)] by (auto intro: mod_pos_pos_trivial)
  have in_ram: "\<not> (ram H + p + 8 < ram H \<or> ram H + 16000 \<le> ram H + p + 8)"
    using D(7,9,10) [OF p(1)] by linarith
  let ?r = "p + 8 + n" and ?m = "mnx H p" and ?q = "ram H + p + 8"
  show ?thesis
  proof (cases "n \<le> ?m - p - 8")
    case False
    then have "mem_trim ?q newsize H = (H, NULL)"
      using in_ram p16 by (simp add: mem_trim_def n_def [symmetric] Let_def mem_consts mem_size_t_def)
    then show ?thesis using False by simp
  next
    case fits: True
    have r16: "?r mod 65536 = ?r" using fits D(7,10) [OF p(1)] n by (intro mod_pos_pos_trivial) linarith+
    have r4: "?r mod 4 = 0"
    proof -
      have "4 dvd p" "4 dvd n" using D(8) [OF p(1)] n(2) by presburger+
      then show ?thesis by simp
    qed
    have ne: "?r \<noteq> p" "16000 \<ge> n" using n fits D(7,10) [OF p(1)] by linarith+
    have keep: "live H hs = (live H hs)(?q \<mapsto> {?q ..< ram H + ?m})"
      using live_at [OF p] by (simp add: fun_upd_idem)
    have result: ?thesis if "mem_trim ?q newsize H = (G, ?q)" "heap_ok G gs
        \<and> live G gs = (live H hs)(?q \<mapsto> {?q ..< ram H + mnx G p})" "ram G = ram H" "p + 8 + n \<le> mnx G p"
        "mnx G p \<le> ?m" for G gs
      unfolding if_P [OF fits] using that by blast
    have stay: ?thesis if "mem_trim ?q newsize H = (H, ?q)"
      by (rule result [OF that]) (use h keep fits in simp_all)
    define I where "I z lf = (let J = put_next p ?r (put_prev ?r p (put_next ?r z (put_used ?r False (H\<lparr>lfree := lf\<rparr>))))
        in if z \<noteq> 16000 then put_prev z ?r J else J)" for z lf
    have f: "ram (I z lf) = ram H" "mus (I z lf) q \<longleftrightarrow> mus H q \<and> q \<noteq> ?r" "mnx (I z lf) p = ?r" "mnx (I z lf) ?r = z"
      "q \<noteq> p \<Longrightarrow> q \<noteq> ?r \<Longrightarrow> mnx (I z lf) q = mnx H q" "lfree (I z lf) = lf" for z lf q
      unfolding I_def using ne(1) by (auto simp: Let_def put_field)
    have fp: "mpv (I z lf) ?r = p" "z \<noteq> 16000 \<Longrightarrow> mpv (I z lf) z = ?r"
      "q \<noteq> z \<Longrightarrow> q \<noteq> ?r \<Longrightarrow> mpv (I z lf) q = mpv H q" if "z \<noteq> ?r" for z lf q
      unfolding I_def using ne(1) that by (auto simp: Let_def put_field)
    have eval: "mem_trim ?q newsize H =
      (if n = ?m - p - 8 then (H, ?q)
       else if \<not> mus H ?m then (I (mnx H ?m) (if lfree H = ?m then ?r else lfree H), ?q)
       else if n + 20 \<le> ?m - p - 8 then (I ?m (if ?r < lfree H then ?r else lfree H), ?q)
       else (H, ?q))"
      using in_ram fits ne p16 r16
      by (simp add: mem_trim_def n_def [symmetric] Let_def mem_consts mem_size_t_def put_field I_def)
    consider (same) "n = ?m - p - 8" | (move) "n \<noteq> ?m - p - 8" "\<not> mus H ?m"
      | (split) "n \<noteq> ?m - p - 8" "mus H ?m" "n + 20 \<le> ?m - p - 8"
      | (tight) "n \<noteq> ?m - p - 8" "mus H ?m" "\<not> n + 20 \<le> ?m - p - 8" by blast
    then show ?thesis
    proof cases
      case move
      let ?G = "I (mnx H ?m) (if lfree H = ?m then ?r else lfree H)"
      have "?m \<noteq> 16000" using move(2) D(3) by metis
      then have "?m + 20 \<le> mnx H ?m" using D(9) D(11) [OF p(1)] by blast
      then have z: "mnx H ?m \<noteq> ?r" "?r < ?m" "p + 20 \<le> ?r" using fits move(1) n by linarith+
      have "heap_ok ?G (insert ?r (hs - {?m})) \<and> live ?G (insert ?r (hs - {?m}))
          = (live H hs)(ram H + p + 8 \<mapsto> {ram H + p + 8 ..< ram H + mnx ?G p})"
        by (rule shrink_move [OF h p z(3,2) r4 move(2) f(3,4) fp(1) [OF z(1)] fp(2) [OF z(1)] f(5) fp(3) [OF z(1)]
            f(1,2,6)])
      moreover have "mem_trim ?q newsize H = (?G, ?q)" using move by (simp add: eval)
      ultimately show ?thesis using f(1,3) z(2) by (intro result [of ?G "insert ?r (hs - {?m})"]) simp_all
    next
      case split
      let ?G = "I ?m (if ?r < lfree H then ?r else lfree H)"
      have z: "?m \<noteq> ?r" "?r + 20 \<le> ?m" "p + 20 \<le> ?r" using split n by linarith+
      have "heap_ok ?G (insert ?r hs) \<and> live ?G (insert ?r hs)
          = (live H hs)(ram H + p + 8 \<mapsto> {ram H + p + 8 ..< ram H + mnx ?G p})"
        by (rule shrink_split [OF h p z(3,2) r4 split(2) f(3,4) fp(1) [OF z(1)] fp(2) [OF z(1)] f(5) fp(3) [OF z(1)]
            f(1,2,6)])
      moreover have "mem_trim ?q newsize H = (?G, ?q)" using split by (simp add: eval)
      ultimately show ?thesis using f(1,3) z(2) by (intro result [of ?G "insert ?r hs"]) simp_all
    qed (rule stay, simp add: eval)+
  qed
qed


subsection \<open>The heap as an allocator\<close>

definition heap_rep :: "heap \<Rightarrow> (ptr \<rightharpoonup> int set) \<Rightarrow> bool" where
  "heap_rep H M \<longleftrightarrow> (\<exists>hs. heap_ok H hs \<and> M = live H hs)"

definition heap_fits :: "int \<Rightarrow> ptr \<Rightarrow> int set \<Rightarrow> bool" where
  "heap_fits sz q C \<longleftrightarrow> {q ..< q + sz} \<subseteq> C"

lemma live_Some:
  assumes "live H hs q = Some C"
  obtains p where "p \<in> hs" "mus H p" "q = ram H + p + 8" "C = {ram H + p + 8 ..< ram H + mnx H p}"
proof -
  have "q - 8 - ram H \<in> hs" "mus H (q - 8 - ram H)" "C = {q ..< ram H + mnx H (q - 8 - ram H)}"
    using assms by (auto simp: live_def split: if_splits)
  then show thesis using that [of "q - 8 - ram H"] by simp
qed

interpretation heap: allocator mem_malloc "\<lambda>q H. Some (mem_free q H)" 0
    "\<lambda>sz. 0 \<le> sz \<and> sz \<le> 65532" heap_fits heap_rep
proof unfold_locales
  fix H M
  assume "heap_rep H M"
  then obtain hs where h: "heap_ok H hs" "M = live H hs" by (auto simp: heap_rep_def)
  then have "linked H hs" by (simp add: heap_ok_def)
  then have "0 < ram H" "\<And>p. p \<in> hs \<Longrightarrow> 0 \<le> p" using linkedD(5,7) by blast+
  then show "M 0 = None" unfolding h(2) by (force simp: live_def)
next
  fix H M p q B C
  assume r: "heap_rep H M" and p: "M p = Some B" and q: "M q = Some C" and ne: "p \<noteq> q"
  obtain hs where h: "linked H hs" "M = live H hs" using r by (auto simp: heap_rep_def heap_ok_def)
  obtain a where a: "a \<in> hs" "p = ram H + a + 8" "B = {ram H + a + 8 ..< ram H + mnx H a}"
    using live_Some p unfolding h(2) by metis
  obtain b where b: "b \<in> hs" "q = ram H + b + 8" "C = {ram H + b + 8 ..< ram H + mnx H b}"
    using live_Some q unfolding h(2) by metis
  have "mnx H a \<le> b \<or> mnx H b \<le> a"
    using linkedD(13) [OF h(1) a(1) b(1)] linkedD(13) [OF h(1) b(1) a(1)] ne a(2) b(2) by linarith
  then show "B \<inter> C = {}" unfolding a(3) b(3) by auto
next
  fix H M and sz :: int
  assume r: "heap_rep H M" and a: "0 \<le> sz \<and> sz \<le> 65532"
  obtain hs where h: "heap_ok H hs" "M = live H hs" using r by (auto simp: heap_rep_def)
  have pos: "0 < ram H" "\<And>p. p \<in> hs \<Longrightarrow> 0 \<le> p"
    using h(1) linkedD(5,7) unfolding heap_ok_def by blast+
  show "\<exists>G q. mem_malloc sz H = Some (G, q) \<and> (if q = 0 then heap_rep G M
      else M q = None \<and> (\<exists>C. heap_rep G (M(q \<mapsto> C)) \<and> heap_fits sz q C))"
  proof (cases "sz = 0")
    case True
    then show ?thesis using r by (simp add: mem_malloc_def)
  next
    case False
    show ?thesis
    proof (cases rule: mem_malloc_cases [OF h(1) False])
      case 1
      then show ?thesis using r by simp
    next
      case (2 p G gs)
      let ?q = "ram H + p + 8"
      have "M ?q = None" using 2(3) by (simp add: h(2) live_def small_def)
      moreover have "heap_rep G (M(?q \<mapsto> {?q ..< ram H + mnx G p}))"
        unfolding heap_rep_def h(2) using 2(5,7) by metis
      moreover have "heap_fits sz ?q {?q ..< ram H + mnx G p}"
        using 2(8) adjust_size(3) [of sz] a by (auto simp: heap_fits_def)
      moreover have "?q \<noteq> 0" using pos(1) pos(2) [OF 2(2)] by linarith
      ultimately show ?thesis using 2(1) by auto
    qed
  qed
next
  fix H M q B
  assume r: "heap_rep H M" and q: "M q = Some B"
  obtain hs where h: "heap_ok H hs" "M = live H hs" using r by (auto simp: heap_rep_def)
  obtain p where p: "p \<in> hs" "mus H p" "q = ram H + p + 8" using live_Some q unfolding h(2) by metis
  show "\<exists>G. Some (mem_free q H) = Some G \<and> heap_rep G (M(q := None))"
    using mem_free_ok [OF h(1) p(1,2)] unfolding p(3) h(2) heap_rep_def by auto
qed

lemma all_free:
  assumes "heap_ok H hs" and "live H hs = Map.empty"
  shows "hs = {0} \<and> mnx H 0 = 16000 \<and> \<not> mus H 0"
proof -
  have l: "linked H hs" and na: "no_adjacent H hs" using assms(1) by (simp_all add: heap_ok_def)
  note D = linkedD [OF l]
  have free: "\<not> mus H p" if "p \<in> hs" for p
    using live_at [OF that, of H] assms(2) by (metis option.distinct(1))
  have e: "mnx H 0 = 16000" using na D(1) D(11) [OF D(1)] free unfolding no_adjacent_def by blast
  then have "p = 0" if "p \<in> hs" for p using D(13) [OF D(1) that] D(7,16) [OF that] by force
  then show ?thesis using e D(1) free by blast
qed

lemma adjust_size_upper: "0 \<le> sz \<Longrightarrow> sz \<le> 15992 \<Longrightarrow> adjust_size sz \<le> 15992"
proof -
  assume s: "0 \<le> sz" "sz \<le> 15992"
  have "(sz + 4 - 1) div 4 * 4 \<le> 15992" using s by presburger
  moreover have "0 \<le> (sz + 4 - 1) div 4 * 4" using s by simp
  ultimately show ?thesis
    by (simp add: adjust_size_def Let_def mem_consts mem_size_t_def LWIP_MEM_ALIGN_SIZE_def)
qed

lemma empty_serves:
  assumes "heap_ok G gs" and "live G gs = Map.empty" and "0 < sz" and "sz \<le> 15992"
  shows "\<exists>G' q. mem_malloc sz G = Some (G', q) \<and> q \<noteq> NULL"
proof -
  have a: "gs = {0}" "mnx G 0 = 16000" "\<not> mus G 0" using all_free [OF assms(1,2)] by auto
  have l: "linked G gs" using assms(1) by (simp add: heap_ok_def)
  have s: "\<not> small G 0 (adjust_size sz)" using a adjust_size_upper [of sz] assms(3,4) unfolding small_def by simp
  have nz: "sz \<noteq> 0" using assms(3) by simp
  show ?thesis
  proof (cases rule: mem_malloc_cases [OF assms(1) nz])
    case 1
    then show ?thesis using s a(1) by simp
  next
    case (2 p G' gs')
    moreover have "ram G + p + 8 \<noteq> NULL" using linkedD(5) [OF l] linkedD(7) [OF l 2(2)] by linarith
    ultimately show ?thesis by blast
  qed
qed

subsection \<open>Properties\<close>

text \<open>
  C13: on a well-formed heap a request of 1 to 65532 octets terminates and takes the lowest block
  that is free and large enough, leaving a well-formed heap whose blocks in use are the old
  ones and the new one (at least as long as requested, 8 octets after the header); it returns
  NULL and changes nothing only if no free block is large enough.
\<close>

theorem mem_malloc_first_fit:
  assumes "heap_ok H hs" and "0 < sz" and "sz \<le> 65532"
  shows "\<exists>G q. mem_malloc sz H = Some (G, q) \<and>
    (if q = NULL then G = H \<and> (\<forall>p \<in> hs. mus H p \<or> mnx H p - p - 8 < adjust_size sz)
     else \<exists>gs. q - 8 - ram H \<in> hs \<and> \<not> mus H (q - 8 - ram H)
       \<and> (\<forall>p \<in> hs. p < q - 8 - ram H \<longrightarrow> mus H p \<or> mnx H p - p - 8 < adjust_size sz)
       \<and> heap_ok G gs \<and> (\<exists>e \<ge> q + sz. live G gs = (live H hs)(q \<mapsto> {q ..< e})))"
proof -
  have pos: "0 < ram H" "\<And>p. p \<in> hs \<Longrightarrow> 0 \<le> p"
    using assms(1) linkedD(5,7) unfolding heap_ok_def by blast+
  show ?thesis
  proof (cases rule: mem_malloc_cases [OF assms(1) less_imp_neq [OF assms(2), symmetric]])
    case 1
    then show ?thesis by (intro exI [of _ H] exI [of _ 0]) (simp add: small_def)
  next
    case (2 p G gs)
    let ?q = "ram H + p + 8"
    have n: "?q \<noteq> NULL" using pos(1) pos(2) [OF 2(2)] by linarith
    have e: "ram H + mnx G p \<ge> ?q + sz" using 2(8) adjust_size(3) [of sz] assms(2,3) by linarith
    have i: "?q - 8 - ram H = p" by simp
    show ?thesis
      using 2(1-5,7) e
      by (intro exI [of _ G] exI [of _ ?q] conjI) (auto simp only: n i if_False small_def)
  qed
qed



definition heap0 :: heap where
  "heap0 = mem_init 0x20000001 \<lparr>ram = 0, hdr = (\<lambda>_. \<lparr>m_next = 0, m_prev = 0, m_used = False\<rparr>), lfree = 0,
     bytes = (\<lambda>_. 7)\<rparr>"

lemma heap0_ok: "heap_ok heap0 {0}" "live heap0 {0} = Map.empty" "mnx heap0 0 = 16000" "ram heap0 = 0x20000004"
  unfolding heap0_def by (simp_all add: mem_init_ok)

lemma heap0_block:
  assumes "0 < sz" and "sz \<le> 15992"
  obtains G gs e where "mem_malloc sz heap0 = Some (G, 0x2000000C)" "heap_ok G gs"
    "live G gs = [0x2000000C \<mapsto> {0x2000000C ..< e}]" "0x2000000C + sz \<le> e"
proof -
  have s: "\<not> small heap0 0 (adjust_size sz)"
    using all_free [OF heap0_ok(1,2)] adjust_size_upper [of sz] assms by (simp add: small_def)
  have nz: "sz \<noteq> 0" using assms by simp
  show thesis
  proof (cases rule: mem_malloc_cases [OF heap0_ok(1) nz])
    case 1
    then show ?thesis using s by simp
  next
    case (2 p G gs)
    have "p = 0" using 2(2) by simp
    then show ?thesis
      using that [of G gs "ram heap0 + mnx G 0"] 2 heap0_ok adjust_size(3) [of sz] assms by simp
  qed
qed

theorem mem_malloc_first_fit_witness:
  "\<exists>G gs. mem_malloc 100 heap0 = Some (G, 0x2000000C) \<and> heap_ok G gs"
proof -
  obtain G0 gs0 e0 where m: "mem_malloc 100 heap0 = Some (G0, 0x2000000C)" by (rule heap0_block [of 100]) simp_all
  show ?thesis using mem_malloc_first_fit [OF heap0_ok(1), of 100] m by auto
qed





text \<open>
  Sizes are computed in 16 bits without a check: a request of 65533 to 65535 octets is
  served as one of 12, and \<open>mem_calloc\<close> of more than 65535 octets, when the low 16 bits of
  the product can be served, clears \<open>count * size\<close> octets from the block on, past the end of
  the heap.
\<close>

theorem mem_calloc_overruns:
  assumes "65535 < count * sz" and "mem_calloc count sz H = Some (G, p)" and "p \<noteq> NULL"
  shows "(\<forall>n \<in> {65533..65535}. mem_malloc n H = mem_malloc 12 H)
    \<and> (\<forall>a. p \<le> a \<and> a \<le> p + 65535 \<longrightarrow> bytes G a = 0)"
proof -
  have "adjust_size n = adjust_size 12" if "n \<in> {65533..65535}" for n
  proof -
    have "(n + 4 - 1) div 4 = 16384" using that by auto
    then show ?thesis by (simp add: adjust_size_def Let_def mem_consts mem_size_t_def LWIP_MEM_ALIGN_SIZE_def)
  qed
  then have m: "mem_malloc n H = mem_malloc 12 H" if "n \<in> {65533..65535}" for n
    using that by (simp add: mem_malloc_def)
  have "bytes G a = 0" if "p \<le> a" "a \<le> p + 65535" for a
    using assms that by (auto simp: mem_calloc_def split: bind_splits if_splits prod.splits)
  then show ?thesis using m by blast
qed


theorem mem_calloc_overruns_witness:
  "\<exists>G. mem_calloc 257 256 heap0 = Some (G, 0x2000000C) \<and> bytes G (0x2000000C + 65535) = 0
    \<and> bytes heap0 (0x2000000C + 65535) = 7"
proof -
  obtain G0 gs0 e0 where m: "mem_malloc 256 heap0 = Some (G0, 0x2000000C)" by (rule heap0_block [of 256]) simp_all
  then obtain G where g: "mem_calloc 257 256 heap0 = Some (G, 0x2000000C)"
    by (simp add: mem_calloc_def mem_size_t_def)
  have "bytes heap0 a = 7" for a
    by (simp add: heap0_def mem_init_def Let_def put_field)
  then show ?thesis using mem_calloc_overruns [OF _ g] g by simp
qed

end
