(* ===== verification/Memp.thy ===== *)
theory Memp
  imports Mem
begin

text \<open>
  Model of core/memp.c: the pools of fixed-size elements, with the pools and the counts of this
  configuration (include/lwip/memp_std.h, lwipopts.h; no overflow or sanity checks, so
  \<open>MEMP_SIZE\<close> is 0). A free element starts with the link \<open>next\<close>; \<open>memp_tab\<close> holds the heads.
  The sizes of the pool structures are the compiler's and a parameter \<open>sizeof\<close>.
\<close>

subsection \<open>Pools\<close>

datatype memp_t = MEMP_RAW_PCB | MEMP_UDP_PCB | MEMP_TCP_PCB | MEMP_TCP_PCB_LISTEN | MEMP_TCP_SEG
  | MEMP_REASSDATA | MEMP_FRAG_PBUF | MEMP_SYS_TIMEOUT | MEMP_PBUF | MEMP_PBUF_POOL

definition memp_types :: "memp_t list" where
  "memp_types = [MEMP_RAW_PCB, MEMP_UDP_PCB, MEMP_TCP_PCB, MEMP_TCP_PCB_LISTEN, MEMP_TCP_SEG,
     MEMP_REASSDATA, MEMP_FRAG_PBUF, MEMP_SYS_TIMEOUT, MEMP_PBUF, MEMP_PBUF_POOL]"

definition memp_num :: "memp_t \<Rightarrow> nat" where
  "memp_num t = (case t of
     MEMP_RAW_PCB \<Rightarrow> 4 | MEMP_UDP_PCB \<Rightarrow> 6 | MEMP_TCP_PCB \<Rightarrow> 10 | MEMP_TCP_PCB_LISTEN \<Rightarrow> 6
   | MEMP_TCP_SEG \<Rightarrow> 15 | MEMP_REASSDATA \<Rightarrow> 5 | MEMP_FRAG_PBUF \<Rightarrow> 15 | MEMP_SYS_TIMEOUT \<Rightarrow> 8
   | MEMP_PBUF \<Rightarrow> 10 | MEMP_PBUF_POOL \<Rightarrow> 20)"

definition SIZEOF_STRUCT_PBUF :: int where "SIZEOF_STRUCT_PBUF = 16"
definition PBUF_POOL_BUFSIZE_ALIGNED :: int where "PBUF_POOL_BUFSIZE_ALIGNED = 512"

definition memp_sizes :: "(memp_t \<Rightarrow> int) \<Rightarrow> memp_t \<Rightarrow> int" where
  "memp_sizes sizeof t = LWIP_MEM_ALIGN_SIZE (case t of
     MEMP_PBUF \<Rightarrow> SIZEOF_STRUCT_PBUF
   | MEMP_PBUF_POOL \<Rightarrow> SIZEOF_STRUCT_PBUF + PBUF_POOL_BUFSIZE_ALIGNED
   | _ \<Rightarrow> sizeof t)"

record memp_state =
  memp_tab :: "memp_t \<Rightarrow> ptr"
  memp_next :: "ptr \<Rightarrow> ptr"

subsection \<open>Operations\<close>

definition memp_get_memorysize :: "(memp_t \<Rightarrow> int) \<Rightarrow> int" where
  "memp_get_memorysize sizeof = 4 - 1 + sum_list (map (\<lambda>t. int (memp_num t) * memp_sizes sizeof t) memp_types)"

text \<open>The inner loop of \<open>memp_init\<close>, for \<open>n\<close> elements of a pool from \<open>memp\<close> on.\<close>

fun memp_init_pool :: "memp_t \<Rightarrow> int \<Rightarrow> nat \<Rightarrow> ptr \<Rightarrow> memp_state \<Rightarrow> ptr \<times> memp_state" where
  "memp_init_pool t sz 0 memp S = (memp, S)"
| "memp_init_pool t sz (Suc n) memp S =
     memp_init_pool t sz n (memp + sz)
       (S\<lparr>memp_next := (memp_next S)(memp := memp_tab S t), memp_tab := (memp_tab S)(t := memp)\<rparr>)"

fun memp_init_pools :: "(memp_t \<Rightarrow> int) \<Rightarrow> memp_t list \<Rightarrow> ptr \<Rightarrow> memp_state \<Rightarrow> ptr \<times> memp_state" where
  "memp_init_pools sizeof [] memp S = (memp, S)"
| "memp_init_pools sizeof (t # ts) memp S =
     (case memp_init_pool t (memp_sizes sizeof t) (memp_num t) memp (S\<lparr>memp_tab := (memp_tab S)(t := NULL)\<rparr>) of
        (memp, S) \<Rightarrow> memp_init_pools sizeof ts memp S)"

definition memp_init :: "(memp_t \<Rightarrow> int) \<Rightarrow> ptr \<Rightarrow> memp_state \<Rightarrow> memp_state" where
  "memp_init sizeof memp_memory S =
     snd (memp_init_pools sizeof memp_types (LWIP_MEM_ALIGN_SIZE memp_memory) S)"

definition memp_malloc :: "memp_t \<Rightarrow> memp_state \<Rightarrow> memp_state \<times> ptr" where
  "memp_malloc type S =
     (let memp = memp_tab S type in
      if memp \<noteq> NULL then (S\<lparr>memp_tab := (memp_tab S)(type := memp_next S memp)\<rparr>, memp)
      else (S, memp))"

definition memp_free :: "memp_t \<Rightarrow> ptr \<Rightarrow> memp_state \<Rightarrow> memp_state" where
  "memp_free type mem S =
     (if mem = NULL then S
      else S\<lparr>memp_next := (memp_next S)(mem := memp_tab S type), memp_tab := (memp_tab S)(type := mem)\<rparr>)"

subsection \<open>A pool as an allocator\<close>

fun free_list :: "(ptr \<Rightarrow> ptr) \<Rightarrow> ptr \<Rightarrow> ptr list \<Rightarrow> bool" where
  "free_list nxt p [] \<longleftrightarrow> p = NULL"
| "free_list nxt p (x # xs) \<longleftrightarrow> p = x \<and> x \<noteq> NULL \<and> free_list nxt (nxt x) xs"

lemma free_list_frame: "(\<And>x. x \<in> set fs \<Longrightarrow> nxt' x = nxt x) \<Longrightarrow> free_list nxt' p fs = free_list nxt p fs"
  by (induction fs arbitrary: p) simp_all

text \<open>
  \<open>memp_rep E sz t S M\<close>: the pool \<open>t\<close> consists of the elements \<open>E\<close> of \<open>sz\<close> octets, of which those in
  \<open>M\<close> are handed out and the others are in the free list, each once.
\<close>

definition memp_rep :: "ptr set \<Rightarrow> int \<Rightarrow> memp_t \<Rightarrow> memp_state \<Rightarrow> (ptr \<rightharpoonup> int set) \<Rightarrow> bool" where
  "memp_rep E sz t S M \<longleftrightarrow> 0 \<notin> E \<and> (\<forall>p \<in> E. \<forall>q \<in> E. p < q \<longrightarrow> p + sz \<le> q)
     \<and> (\<forall>p C. M p = Some C \<longrightarrow> C = {p ..< p + sz})
     \<and> (\<exists>fs. free_list (memp_next S) (memp_tab S t) fs \<and> distinct fs \<and> set fs = E - dom M \<and> dom M \<subseteq> E)"

lemma memp_malloc_rep:
  assumes r: "memp_rep E sz t S M" and a: "memp_malloc t S = (S', p)"
  shows "if p = NULL then S' = S \<and> dom M = E
    else M p = None \<and> p \<in> E \<and> memp_rep E sz t S' (M(p \<mapsto> {p ..< p + sz}))"
proof -
  obtain fs where fs: "free_list (memp_next S) (memp_tab S t) fs" "distinct fs" "set fs = E - dom M" "dom M \<subseteq> E"
    using r by (auto simp: memp_rep_def)
  show ?thesis
  proof (cases fs)
    case Nil
    then show ?thesis using fs a by (auto simp: memp_malloc_def)
  next
    case (Cons x xs)
    then have x: "memp_tab S t = x" "x \<noteq> NULL" "free_list (memp_next S) (memp_next S x) xs" "x \<in> E - dom M"
      using fs by auto
    have e: "p = x" "S' = S\<lparr>memp_tab := (memp_tab S)(t := memp_next S x)\<rparr>"
      using a x(1,2) by (auto simp: memp_malloc_def)
    have "set xs = E - dom (M(x \<mapsto> {x ..< x + sz}))" using fs(2,3) Cons by auto
    then have "memp_rep E sz t S' (M(x \<mapsto> {x ..< x + sz}))"
      using r fs Cons x e(2) unfolding memp_rep_def by (intro conjI exI [of _ xs]) auto
    then show ?thesis using x e(1) by auto
  qed
qed

lemma memp_free_rep:
  assumes r: "memp_rep E sz t S M" and p: "p \<in> dom M"
  shows "memp_rep E sz t (memp_free t p S) (M(p := None))"
proof -
  obtain fs where fs: "free_list (memp_next S) (memp_tab S t) fs" "distinct fs" "set fs = E - dom M" "dom M \<subseteq> E"
    using r by (auto simp: memp_rep_def)
  have n: "p \<noteq> NULL" "p \<notin> set fs" using r p fs(3,4) unfolding memp_rep_def by auto
  have "free_list ((memp_next S)(p := memp_tab S t)) (memp_tab S t) fs"
    using fs(1) n(2) by (subst free_list_frame [of fs _ "memp_next S"]) auto
  moreover have "set (p # fs) = E - dom (M(p := None))" using fs(3,4) p by auto
  ultimately show ?thesis
    using r n fs(2,4) unfolding memp_rep_def memp_free_def
    by (intro conjI exI [of _ "p # fs"]) auto
qed

text \<open>An operation on one pool leaves the others alone.\<close>

lemma memp_malloc_other:
  "t \<noteq> u \<Longrightarrow> memp_malloc u S = (S', p) \<Longrightarrow> memp_rep E sz t S M \<Longrightarrow> memp_rep E sz t S' M"
  by (auto simp: memp_malloc_def memp_rep_def Let_def split: if_splits)

lemma memp_free_other:
  assumes "t \<noteq> u" and "p \<notin> E" and "memp_rep E sz t S M"
  shows "memp_rep E sz t (memp_free u p S) M"
proof -
  obtain fs where fs: "free_list (memp_next S) (memp_tab S t) fs" "distinct fs" "set fs = E - dom M" "dom M \<subseteq> E"
    using assms(3) by (auto simp: memp_rep_def)
  have "free_list ((memp_next S)(p := memp_tab S u)) (memp_tab S t) fs"
    using fs(1,3) assms(2) by (subst free_list_frame [of fs _ "memp_next S"]) auto
  then show ?thesis
    using assms fs unfolding memp_rep_def memp_free_def by (intro conjI exI [of _ fs]) auto
qed

interpretation memp: allocator "\<lambda>_ :: unit. \<lambda>S. Some (memp_malloc t S)" "\<lambda>p S. Some (memp_free t p S)" 0
    "\<lambda>_. True" "\<lambda>_ p C. C = {p ..< p + sz}" "memp_rep E sz t" for t E sz
proof unfold_locales
  fix S M
  assume "memp_rep E sz t S M"
  then show "M 0 = None" by (auto simp: memp_rep_def)
next
  fix S M p q B C
  assume r: "memp_rep E sz t S M" and p: "M p = Some B" and q: "M q = Some C" and ne: "p \<noteq> q"
  have "p \<in> E" "q \<in> E" "B = {p ..< p + sz}" "C = {q ..< q + sz}"
    and s: "\<forall>p \<in> E. \<forall>q \<in> E. p < q \<longrightarrow> p + sz \<le> q"
    using r p q unfolding memp_rep_def by blast+
  moreover from this have "p + sz \<le> q \<or> q + sz \<le> p" using ne by (meson linorder_neqE)
  ultimately show "B \<inter> C = {}" by auto
next
  fix S M and r :: unit
  assume "memp_rep E sz t S M"
  then show "\<exists>S' p. Some (memp_malloc t S) = Some (S', p) \<and> (if p = 0 then memp_rep E sz t S' M
      else M p = None \<and> (\<exists>B. memp_rep E sz t S' (M(p \<mapsto> B)) \<and> B = {p ..< p + sz}))"
    using memp_malloc_rep [of E sz t S M] by (cases "memp_malloc t S") (fastforce split: if_splits)
next
  fix S M p B
  assume "memp_rep E sz t S M" "M p = Some B"
  then show "\<exists>S'. Some (memp_free t p S) = Some S' \<and> memp_rep E sz t S' (M(p := None))"
    using memp_free_rep by blast
qed

subsection \<open>The layout \<open>memp_init\<close> makes\<close>

definition pool_elems :: "int \<Rightarrow> nat \<Rightarrow> ptr \<Rightarrow> ptr set" where
  "pool_elems sz n p = (\<lambda>i. p + int i * sz) ` {..<n}"

fun pool_list :: "int \<Rightarrow> nat \<Rightarrow> ptr \<Rightarrow> ptr list" where
  "pool_list sz 0 p = []"
| "pool_list sz (Suc n) p = p # pool_list sz n (p + sz)"

lemma set_pool_list: "set (pool_list sz n p) = pool_elems sz n p"
proof (induction n arbitrary: p)
  case (Suc n)
  have "{..<Suc n} = insert 0 (Suc ` {..<n})" by (simp add: lessThan_Suc_eq_insert_0)
  then have "pool_elems sz (Suc n) p = insert p ((\<lambda>i. p + int (Suc i) * sz) ` {..<n})"
    unfolding pool_elems_def by (simp add: image_image)
  also have "(\<lambda>i. p + int (Suc i) * sz) = (\<lambda>i. (p + sz) + int i * sz)" by (auto simp: algebra_simps)
  finally show ?case using Suc by (simp add: pool_elems_def)
qed (simp add: pool_elems_def)

lemma pool_elems_range: "0 < sz \<Longrightarrow> q \<in> pool_elems sz n p \<Longrightarrow> p \<le> q \<and> q + sz \<le> p + int n * sz"
proof -
  assume s: "0 < sz" and "q \<in> pool_elems sz n p"
  then obtain i where i: "i < n" "q = p + int i * sz" by (auto simp: pool_elems_def)
  then have "(int i + 1) * sz \<le> int n * sz" using s by (intro mult_right_mono) auto
  then show ?thesis using i s by (simp add: algebra_simps)
qed

lemma pool_elems_spaced:
  assumes "0 < sz" and "p \<in> pool_elems sz n b" and "q \<in> pool_elems sz n b" and "p < q"
  shows "p + sz \<le> q"
proof -
  obtain i j where ij: "p = b + int i * sz" "q = b + int j * sz" using assms(2,3) by (auto simp: pool_elems_def)
  then have "i < j" using assms(1,4) by simp
  then have "(int i + 1) * sz \<le> int j * sz" using assms(1) by (intro mult_right_mono) auto
  then show ?thesis using ij by (simp add: algebra_simps)
qed

lemma card_pool_elems: "0 < sz \<Longrightarrow> card (pool_elems sz n b) = n"
  unfolding pool_elems_def by (subst card_image) (auto simp: inj_on_def)

lemma memp_init_pool_spec:
  assumes "0 < sz" and "0 < memp" and "free_list (memp_next S) (memp_tab S t) fs" and "\<forall>x \<in> set fs. x < memp"
  shows "\<exists>S'. memp_init_pool t sz n memp S = (memp + int n * sz, S')
    \<and> free_list (memp_next S') (memp_tab S' t) (rev (pool_list sz n memp) @ fs)
    \<and> (\<forall>u. u \<noteq> t \<longrightarrow> memp_tab S' u = memp_tab S u)
    \<and> (\<forall>x. x < memp \<longrightarrow> memp_next S' x = memp_next S x)"
  using assms
proof (induction n arbitrary: memp S fs)
  case (Suc n)
  let ?S = "S\<lparr>memp_next := (memp_next S)(memp := memp_tab S t), memp_tab := (memp_tab S)(t := memp)\<rparr>"
  have "free_list (memp_next ?S) (memp_tab S t) fs"
    using Suc.prems(3,4) by (subst free_list_frame [of fs _ "memp_next S"]) auto
  then have f: "free_list (memp_next ?S) (memp_tab ?S t) (memp # fs)" using Suc.prems(2) by simp
  obtain S' where s: "memp_init_pool t sz n (memp + sz) ?S = (memp + sz + int n * sz, S')"
    "free_list (memp_next S') (memp_tab S' t) (rev (pool_list sz n (memp + sz)) @ memp # fs)"
    "\<forall>u. u \<noteq> t \<longrightarrow> memp_tab S' u = memp_tab ?S u" "\<forall>x. x < memp + sz \<longrightarrow> memp_next S' x = memp_next ?S x"
  proof -
    have "0 < memp + sz" "\<forall>x \<in> set (memp # fs). x < memp + sz" using Suc.prems(1,2,4) by fastforce+
    then show thesis using Suc.IH [OF Suc.prems(1) _ f] that by blast
  qed
  then show ?case using Suc.prems(1) by (intro exI [of _ S']) (simp add: algebra_simps)
qed simp

fun memp_base :: "(memp_t \<Rightarrow> int) \<Rightarrow> memp_t list \<Rightarrow> ptr \<Rightarrow> memp_t \<Rightarrow> ptr" where
  "memp_base sizeof (t # ts) p u =
     (if u = t then p else memp_base sizeof ts (p + int (memp_num t) * memp_sizes sizeof t) u)"
| "memp_base sizeof [] p u = p"

lemma memp_init_pools_spec:
  assumes "\<And>t. 0 < memp_sizes sizeof t" and "0 < memp" and "distinct ts"
  shows "\<exists>S'. memp_init_pools sizeof ts memp S
      = (memp + sum_list (map (\<lambda>t. int (memp_num t) * memp_sizes sizeof t) ts), S')
    \<and> (\<forall>u \<in> set ts. free_list (memp_next S') (memp_tab S' u)
         (rev (pool_list (memp_sizes sizeof u) (memp_num u) (memp_base sizeof ts memp u))))
    \<and> (\<forall>u. u \<notin> set ts \<longrightarrow> memp_tab S' u = memp_tab S u) \<and> (\<forall>x. x < memp \<longrightarrow> memp_next S' x = memp_next S x)"
  using assms(2,3)
proof (induction ts arbitrary: memp S)
  case (Cons t ts)
  let ?sz = "memp_sizes sizeof t" and ?n = "memp_num t" and ?S = "S\<lparr>memp_tab := (memp_tab S)(t := NULL)\<rparr>"
  let ?p = "memp + int ?n * ?sz"
  obtain T where T: "memp_init_pool t ?sz ?n memp ?S = (?p, T)"
    "free_list (memp_next T) (memp_tab T t) (rev (pool_list ?sz ?n memp) @ [])"
    "\<forall>u. u \<noteq> t \<longrightarrow> memp_tab T u = memp_tab ?S u" "\<forall>x. x < memp \<longrightarrow> memp_next T x = memp_next ?S x"
    using memp_init_pool_spec [OF assms(1) [of t] Cons.prems(1), of ?S t "[]" ?n] by auto
  have pos: "0 \<le> int ?n * ?sz" using assms(1) [of t] by simp
  then have "0 < ?p" using Cons.prems(1) by linarith
  then obtain U where U: "memp_init_pools sizeof ts ?p T
      = (?p + sum_list (map (\<lambda>t. int (memp_num t) * memp_sizes sizeof t) ts), U)"
    "\<forall>u \<in> set ts. free_list (memp_next U) (memp_tab U u)
         (rev (pool_list (memp_sizes sizeof u) (memp_num u) (memp_base sizeof ts ?p u)))"
    "\<forall>u. u \<notin> set ts \<longrightarrow> memp_tab U u = memp_tab T u" "\<forall>x. x < ?p \<longrightarrow> memp_next U x = memp_next T x"
    using Cons.IH [of ?p T] Cons.prems(2) by auto
  have "free_list (memp_next U) (memp_tab U t) (rev (pool_list ?sz ?n memp))"
  proof (subst free_list_frame [of _ _ "memp_next T"])
    fix x assume "x \<in> set (rev (pool_list ?sz ?n memp))"
    then have "x + ?sz \<le> ?p" using pool_elems_range [OF assms(1) [of t]] by (simp add: set_pool_list)
    then have "x < ?p" using assms(1) [of t] by linarith
    then show "memp_next U x = memp_next T x" using U(4) by blast
  next
    have "memp_tab U t = memp_tab T t" using U(3) Cons.prems(2) by simp
    then show "free_list (memp_next T) (memp_tab U t) (rev (pool_list ?sz ?n memp))" using T(2) by simp
  qed
  moreover have "\<forall>x. x < memp \<longrightarrow> memp_next U x = memp_next S x"
    using T(4) U(4) pos by simp
  ultimately show ?case
    using T U Cons.prems(2) by (intro exI [of _ U]) (auto simp: algebra_simps)
qed simp

lemma memp_base_range:
  assumes "\<And>t. 0 < memp_sizes sizeof t"
  shows "u \<in> set ts \<Longrightarrow> p \<le> memp_base sizeof ts p u \<and> memp_base sizeof ts p u + int (memp_num u) * memp_sizes sizeof u
    \<le> p + sum_list (map (\<lambda>t. int (memp_num t) * memp_sizes sizeof t) ts)"
proof (induction ts arbitrary: p)
  case (Cons t ts)
  have pos: "0 \<le> int (memp_num v) * memp_sizes sizeof v" for v using assms [of v] by simp
  have s: "0 \<le> sum_list (map (\<lambda>t. int (memp_num t) * memp_sizes sizeof t) ts)"
    by (intro sum_list_nonneg) (use pos in auto)
  show ?case
  proof (cases "u = t")
    case False
    then show ?thesis
      using Cons.IH [of "p + int (memp_num t) * memp_sizes sizeof t"] Cons.prems pos [of t] by simp
  qed (use s in simp)
qed simp


definition pool_of :: "(memp_t \<Rightarrow> int) \<Rightarrow> ptr \<Rightarrow> memp_t \<Rightarrow> ptr set" where
  "pool_of sizeof memory t = pool_elems (memp_sizes sizeof t) (memp_num t)
     (memp_base sizeof memp_types (LWIP_MEM_ALIGN_SIZE memory) t)"

lemma all_types: "t \<in> set memp_types" and distinct_types: "distinct memp_types"
  by (cases t) (simp_all add: memp_types_def)

lemma align_bounds: "m \<le> LWIP_MEM_ALIGN_SIZE m \<and> LWIP_MEM_ALIGN_SIZE m \<le> m + 3"
  unfolding LWIP_MEM_ALIGN_SIZE_def by presburger

lemma memp_init_rep:
  assumes pos: "\<And>t. 0 < memp_sizes sizeof t" and "0 < memory"
  shows "memp_rep (pool_of sizeof memory t) (memp_sizes sizeof t) t (memp_init sizeof memory S) Map.empty"
    and "p \<in> pool_of sizeof memory t \<Longrightarrow>
      memory \<le> p \<and> p + memp_sizes sizeof t \<le> memory + memp_get_memorysize sizeof"
proof -
  let ?m = "LWIP_MEM_ALIGN_SIZE memory"
  let ?b = "memp_base sizeof memp_types ?m t"
  have m: "0 < ?m" "?m \<le> memory + 3" "memory \<le> ?m" using align_bounds [of memory] assms(2) by linarith+
  obtain S' where "memp_init_pools sizeof memp_types ?m S
      = (?m + sum_list (map (\<lambda>t. int (memp_num t) * memp_sizes sizeof t) memp_types), S')"
    and f: "\<forall>u \<in> set memp_types. free_list (memp_next S') (memp_tab S' u)
         (rev (pool_list (memp_sizes sizeof u) (memp_num u) (memp_base sizeof memp_types ?m u)))"
    using memp_init_pools_spec [OF pos m(1) distinct_types] by blast
  then have S': "memp_init sizeof memory S = S'" by (simp add: memp_init_def)
  have b: "?m \<le> ?b" "?b + int (memp_num t) * memp_sizes sizeof t
      \<le> ?m + sum_list (map (\<lambda>t. int (memp_num t) * memp_sizes sizeof t) memp_types)"
    using memp_base_range [OF pos all_types [of t], of ?m] by blast+
  have rng: "?m \<le> p \<and> p + memp_sizes sizeof t \<le> ?m
      + sum_list (map (\<lambda>t. int (memp_num t) * memp_sizes sizeof t) memp_types)"
    if "p \<in> pool_of sizeof memory t" for p
    using pool_elems_range [OF pos that [unfolded pool_of_def]] b by linarith
  show "p \<in> pool_of sizeof memory t \<Longrightarrow>
      memory \<le> p \<and> p + memp_sizes sizeof t \<le> memory + memp_get_memorysize sizeof"
    using rng m unfolding memp_get_memorysize_def by fastforce
  have d: "distinct (pool_list (memp_sizes sizeof t) (memp_num t) ?b)"
  proof (rule card_distinct)
    have "length (pool_list sz n q) = n" for sz n q by (induction n arbitrary: q) simp_all
    then show "card (set (pool_list (memp_sizes sizeof t) (memp_num t) ?b))
        = length (pool_list (memp_sizes sizeof t) (memp_num t) ?b)"
      by (simp add: set_pool_list card_pool_elems [OF pos])
  qed
  have n0: "0 \<notin> pool_of sizeof memory t" using rng [of 0] m(1) by auto
  have sp: "\<forall>p \<in> pool_of sizeof memory t. \<forall>q \<in> pool_of sizeof memory t. p < q \<longrightarrow> p + memp_sizes sizeof t \<le> q"
    unfolding pool_of_def using pool_elems_spaced [OF pos] by blast
  have fl: "free_list (memp_next S') (memp_tab S' t) (rev (pool_list (memp_sizes sizeof t) (memp_num t) ?b))"
    using f all_types by blast
  have se: "set (rev (pool_list (memp_sizes sizeof t) (memp_num t) ?b)) = pool_of sizeof memory t"
    by (simp add: set_pool_list pool_of_def)
  show "memp_rep (pool_of sizeof memory t) (memp_sizes sizeof t) t (memp_init sizeof memory S) Map.empty"
    unfolding memp_rep_def S' using n0 sp fl d se
    by (intro conjI exI [of _ "rev (pool_list (memp_sizes sizeof t) (memp_num t) ?b)"]) simp_all
qed

lemma pools_apart:
  assumes pos: "\<And>t. 0 < memp_sizes sizeof t"
  shows "distinct ts \<Longrightarrow> t \<in> set ts \<Longrightarrow> u \<in> set ts \<Longrightarrow> t \<noteq> u \<Longrightarrow>
    pool_elems (memp_sizes sizeof t) (memp_num t) (memp_base sizeof ts p t)
    \<inter> pool_elems (memp_sizes sizeof u) (memp_num u) (memp_base sizeof ts p u) = {}"
proof (induction ts arbitrary: p)
  case (Cons v ts)
  have apart: "pool_elems (memp_sizes sizeof v) (memp_num v) p
      \<inter> pool_elems (memp_sizes sizeof w) (memp_num w) (memp_base sizeof ts (p + int (memp_num v) * memp_sizes sizeof v) w) = {}"
    if "w \<in> set ts" for w
  proof -
    have "p + int (memp_num v) * memp_sizes sizeof v \<le> memp_base sizeof ts (p + int (memp_num v) * memp_sizes sizeof v) w"
      using memp_base_range [OF pos that] by blast
    then show ?thesis
      using pool_elems_range [OF pos [of v]] pool_elems_range [OF pos [of w]] pos [of v] pos [of w] by fastforce
  qed
  consider "t = v" "u \<in> set ts" | "u = v" "t \<in> set ts" | "t \<in> set ts" "u \<in> set ts" "t \<noteq> v" "u \<noteq> v"
    using Cons.prems by auto
  then show ?case
  proof cases
    case 1
    then show ?thesis using apart [of u] Cons.prems(4) by simp
  next
    case 2
    then show ?thesis using apart [of t] Cons.prems(4) by (simp add: Int_commute)
  next
    case 3
    then show ?thesis using Cons.IH Cons.prems(1,4) by simp
  qed
qed simp

lemma pool_of_apart:
  assumes "\<And>t. 0 < memp_sizes sizeof t" and "t \<noteq> u"
  shows "pool_of sizeof memory t \<inter> pool_of sizeof memory u = {}"
  unfolding pool_of_def by (rule pools_apart [OF assms(1) distinct_types all_types all_types assms(2)])

text \<open>A history of one pool does not disturb another.\<close>

lemma memp_history_other:
  "memp.history t sz E S M os S' N \<Longrightarrow> memp_rep E sz t S M \<Longrightarrow> t \<noteq> u \<Longrightarrow> E \<inter> F = {} \<Longrightarrow>
   memp_rep F sz' u S L \<Longrightarrow> memp_rep F sz' u S' L"
proof (induction rule: memp.history.induct)
  case (Release M p B s s' os t' N)
  have "memp_rep E sz t s' (M(p := None))" using Release.hyps(1,2) memp_free_rep [OF Release.prems(1)] by auto
  moreover have "p \<notin> F" using Release.hyps(1) Release.prems(1,3) by (auto simp: memp_rep_def)
  then have "memp_rep F sz' u s' L"
    using Release.hyps(2) memp_free_other Release.prems(2,4) by (metis option.inject)
  ultimately show ?case using Release.IH Release.prems(2,3) by blast
next
  case (Fail r s s' M os t' N)
  then have "memp_malloc t s = (s', 0)" by simp
  from memp_malloc_rep [OF Fail.prems(1) this] have "s' = s" by simp
  then show ?case using Fail by blast
next
  case (New r s s' p M B os t' N)
  have "memp_malloc t s = (s', p)" using New.hyps(2) by simp
  then have "memp_rep F sz' u s' L" using memp_malloc_other New.prems(2,4) by metis
  then show ?case by (rule New.IH [OF New.hyps(5) New.prems(2,3)])
qed simp




end
