(* ===== verification/Pbuf.thy ===== *)
theory Pbuf
  imports Memp
begin

unbundle bit_operations_syntax

text \<open>
  Model of core/pbuf.c (include/lwip/pbuf.h): packet buffers. A \<open>struct pbuf\<close> is addressed by its
  pointer; its fields are those of the structure, and \<open>p_original\<close> is the field a
  \<open>struct pbuf_custom_ref\<close> adds (ipv4/lwip/ip_frag.h, the only custom pbuf of the program). The
  octets of payloads and of application buffers are the memory \<open>bytes\<close> of the heap. The state is
  extended by the components that keep state of their own, so every operation is polymorphic in
  the extension. \<open>None\<close>: the null pointer is dereferenced, or the loop does not end.
\<close>

subsection \<open>Error codes (include/lwip/err.h)\<close>

datatype err_t = ERR_OK | ERR_MEM | ERR_BUF | ERR_TIMEOUT | ERR_RTE | ERR_INPROGRESS | ERR_VAL
  | ERR_WOULDBLOCK | ERR_USE | ERR_ISCONN | ERR_ABRT | ERR_RST | ERR_CLSD | ERR_CONN | ERR_ARG | ERR_IF

subsection \<open>Data\<close>

datatype pbuf_layer = PBUF_TRANSPORT | PBUF_IP | PBUF_LINK | PBUF_RAW

datatype pbuf_type = PBUF_RAM | PBUF_ROM | PBUF_REF | PBUF_POOL

definition PBUF_FLAG_IS_CUSTOM :: u8 where "PBUF_FLAG_IS_CUSTOM = 0x02"
definition PBUF_FLAG_LLBCAST :: u8 where "PBUF_FLAG_LLBCAST = 0x08"
definition PBUF_FLAG_LLMCAST :: u8 where "PBUF_FLAG_LLMCAST = 0x10"

record pbuf =
  p_next :: ptr
  p_payload :: ptr
  p_tot_len :: u16
  p_len :: u16
  p_type :: pbuf_type
  p_flags :: u8
  p_ref :: u16
  p_original :: ptr

record net =
  pbufs :: "ptr \<Rightarrow> pbuf"
  mheap :: heap
  pools :: memp_state

abbreviation pnx :: "'a net_scheme \<Rightarrow> ptr \<Rightarrow> ptr" where "pnx S p \<equiv> p_next (pbufs S p)"
abbreviation plen :: "'a net_scheme \<Rightarrow> ptr \<Rightarrow> u16" where "plen S p \<equiv> p_len (pbufs S p)"
abbreviation ptot :: "'a net_scheme \<Rightarrow> ptr \<Rightarrow> u16" where "ptot S p \<equiv> p_tot_len (pbufs S p)"
abbreviation ppay :: "'a net_scheme \<Rightarrow> ptr \<Rightarrow> ptr" where "ppay S p \<equiv> p_payload (pbufs S p)"
abbreviation pref :: "'a net_scheme \<Rightarrow> ptr \<Rightarrow> u16" where "pref S p \<equiv> p_ref (pbufs S p)"
abbreviation mbytes :: "'a net_scheme \<Rightarrow> ptr \<Rightarrow> u8" where "mbytes S \<equiv> bytes (mheap S)"

text \<open>Assignments through a \<open>struct pbuf *\<close>, and \<open>memcpy\<close>.\<close>

definition upd_pbuf :: "ptr \<Rightarrow> (pbuf \<Rightarrow> pbuf) \<Rightarrow> 'a net_scheme \<Rightarrow> 'a net_scheme" where
  "upd_pbuf p f S = S\<lparr>pbufs := (pbufs S)(p := f (pbufs S p))\<rparr>"

definition upd_bytes :: "((ptr \<Rightarrow> u8) \<Rightarrow> ptr \<Rightarrow> u8) \<Rightarrow> 'a net_scheme \<Rightarrow> 'a net_scheme" where
  "upd_bytes f S = S\<lparr>mheap := (mheap S)\<lparr>bytes := f (mbytes S)\<rparr>\<rparr>"

definition memcpy :: "ptr \<Rightarrow> ptr \<Rightarrow> int \<Rightarrow> (ptr \<Rightarrow> u8) \<Rightarrow> ptr \<Rightarrow> u8" where
  "memcpy d s n b = (\<lambda>a. if d \<le> a \<and> a < d + n then b (s + (a - d)) else b a)"

subsection \<open>Release\<close>

text \<open>
  \<open>pbuf_free\<close> and the function that frees a fragment's custom pbuf (core/ipv4/ip_frag.c), which
  drops the fragment's reference to the packet it points into.
\<close>

partial_function (option) pbuf_free_loop :: "ptr \<Rightarrow> u8 \<Rightarrow> 'a net_scheme \<Rightarrow> ('a net_scheme \<times> u8) option" where
  "pbuf_free_loop p count S =
     (if p = NULL then Some (S, count)
      else
        let S = upd_pbuf p (\<lambda>b. b\<lparr>p_ref := p_ref b - 1\<rparr>) S in
        if pref S p = 0 then do {
          let q = pnx S p;
          let type = p_type (pbufs S p);
          S \<leftarrow> (if p_flags (pbufs S p) AND PBUF_FLAG_IS_CUSTOM \<noteq> 0 then do {
                  (S, n) \<leftarrow> pbuf_free_loop (p_original (pbufs S p)) 0 S;
                  Some (S\<lparr>pools := memp_free MEMP_FRAG_PBUF p (pools S)\<rparr>)
                }
                else if type = PBUF_POOL then Some (S\<lparr>pools := memp_free MEMP_PBUF_POOL p (pools S)\<rparr>)
                else if type = PBUF_ROM \<or> type = PBUF_REF then Some (S\<lparr>pools := memp_free MEMP_PBUF p (pools S)\<rparr>)
                else Some (S\<lparr>mheap := mem_free p (mheap S)\<rparr>));
          pbuf_free_loop q (count + 1) S
        }
        else Some (S, count))"

definition pbuf_free :: "ptr \<Rightarrow> 'a net_scheme \<Rightarrow> ('a net_scheme \<times> u8) option" where
  "pbuf_free p S = (if p = NULL then Some (S, 0) else pbuf_free_loop p 0 S)"

definition ipfrag_free_pbuf_custom :: "ptr \<Rightarrow> 'a net_scheme \<Rightarrow> 'a net_scheme option" where
  "ipfrag_free_pbuf_custom p S = do {
     (S, n) \<leftarrow> (if p_original (pbufs S p) \<noteq> NULL then pbuf_free (p_original (pbufs S p)) S else Some (S, 0));
     Some (S\<lparr>pools := memp_free MEMP_FRAG_PBUF p (pools S)\<rparr>) }"

subsection \<open>Allocation\<close>

definition layer_offset :: "pbuf_layer \<Rightarrow> int" where
  "layer_offset layer = (case layer of
     PBUF_TRANSPORT \<Rightarrow> 14 + 20 + 20 | PBUF_IP \<Rightarrow> 14 + 20 | PBUF_LINK \<Rightarrow> 14 | PBUF_RAW \<Rightarrow> 0)"

definition pool_take :: "'a net_scheme \<Rightarrow> 'a net_scheme \<times> ptr" where
  "pool_take S = (case memp_malloc MEMP_PBUF_POOL (pools S) of (P, q) \<Rightarrow> (S\<lparr>pools := P\<rparr>, q))"

text \<open>The loop that allocates the tail of a pool chain: the new state and whether it succeeded.\<close>

partial_function (option) pool_tail :: "ptr \<Rightarrow> ptr \<Rightarrow> int \<Rightarrow> 'a net_scheme \<Rightarrow> ('a net_scheme \<times> bool) option" where
  "pool_tail p r rem_len S =
     (if rem_len > 0 then
        (case pool_take S of (S, q) \<Rightarrow>
          if q = NULL then do { (S, n) \<leftarrow> pbuf_free p S; Some (S, False) }
          else
            let l = min (take_bit 16 rem_len) PBUF_POOL_BUFSIZE_ALIGNED;
                S = upd_pbuf q (\<lambda>b. b\<lparr>p_type := PBUF_POOL, p_flags := 0, p_next := NULL\<rparr>) S;
                S = upd_pbuf r (\<lambda>b. b\<lparr>p_next := q\<rparr>) S;
                S = upd_pbuf q (\<lambda>b. b\<lparr>p_tot_len := word_of_int rem_len, p_len := word_of_int l,
                       p_payload := q + SIZEOF_STRUCT_PBUF, p_ref := 1\<rparr>) S
            in pool_tail p q (rem_len - l) S)
      else Some (S, True))"

definition pbuf_alloc :: "pbuf_layer \<Rightarrow> u16 \<Rightarrow> pbuf_type \<Rightarrow> 'a net_scheme \<Rightarrow> ('a net_scheme \<times> ptr) option" where
  "pbuf_alloc layer len type S =
     (let offset = layer_offset layer;
          finish = (\<lambda>p S. upd_pbuf p (\<lambda>b. b\<lparr>p_ref := 1, p_flags := 0\<rparr>) S)
      in case type of
        PBUF_POOL \<Rightarrow>
          (case pool_take S of (S, p) \<Rightarrow>
            if p = NULL then Some (S, NULL)
            else do {
              let l = min (uint len) (PBUF_POOL_BUFSIZE_ALIGNED - LWIP_MEM_ALIGN_SIZE offset);
              let S = upd_pbuf p (\<lambda>b. b\<lparr>p_type := PBUF_POOL, p_next := NULL,
                         p_payload := LWIP_MEM_ALIGN_SIZE (p + (SIZEOF_STRUCT_PBUF + offset)),
                         p_tot_len := len, p_len := word_of_int l, p_ref := 1\<rparr>) S;
              (S, ok) \<leftarrow> pool_tail p p (uint len - l) S;
              if ok then Some (finish p S, p) else Some (S, NULL)
            })
      | PBUF_RAM \<Rightarrow> do {
          (H, p) \<leftarrow> mem_malloc (mem_size_t (LWIP_MEM_ALIGN_SIZE (SIZEOF_STRUCT_PBUF + offset)
                       + LWIP_MEM_ALIGN_SIZE (uint len))) (mheap S);
          let S = S\<lparr>mheap := H\<rparr>;
          if p = NULL then Some (S, NULL)
          else Some (finish p (upd_pbuf p (\<lambda>b. b\<lparr>p_payload := LWIP_MEM_ALIGN_SIZE (p + SIZEOF_STRUCT_PBUF + offset),
                       p_len := len, p_tot_len := len, p_next := NULL, p_type := PBUF_RAM\<rparr>) S), p)
        }
      | _ \<Rightarrow>
          (case memp_malloc MEMP_PBUF (pools S) of (P, p) \<Rightarrow>
            let S = S\<lparr>pools := P\<rparr> in
            if p = NULL then Some (S, NULL)
            else Some (finish p (upd_pbuf p (\<lambda>b. b\<lparr>p_payload := NULL, p_len := len, p_tot_len := len,
                       p_next := NULL, p_type := type\<rparr>) S), p)))"

definition pbuf_alloced_custom ::
  "pbuf_layer \<Rightarrow> u16 \<Rightarrow> pbuf_type \<Rightarrow> ptr \<Rightarrow> ptr \<Rightarrow> u16 \<Rightarrow> 'a net_scheme \<Rightarrow> 'a net_scheme \<times> ptr" where
  "pbuf_alloced_custom l len type p payload_mem payload_mem_len S =
     (let offset = layer_offset l in
      if LWIP_MEM_ALIGN_SIZE offset + uint len > uint payload_mem_len then (S, NULL)
      else (upd_pbuf p (\<lambda>b. b\<lparr>p_next := NULL,
              p_payload := (if payload_mem \<noteq> NULL then payload_mem + LWIP_MEM_ALIGN_SIZE offset else NULL),
              p_flags := PBUF_FLAG_IS_CUSTOM, p_len := len, p_tot_len := len, p_type := type, p_ref := 1\<rparr>) S, p))"

subsection \<open>Resizing\<close>

text \<open>The loop of \<open>pbuf_realloc\<close> over the pbufs that stay: the last one and what is left for it.\<close>

partial_function (option) realloc_walk ::
  "int \<Rightarrow> ptr \<Rightarrow> u16 \<Rightarrow> 'a net_scheme \<Rightarrow> ('a net_scheme \<times> ptr \<times> u16) option" where
  "realloc_walk grow q rem_len S =
     (if q = NULL then None
      else if rem_len > plen S q then
        let rem_len = rem_len - plen S q;
            S = upd_pbuf q (\<lambda>b. b\<lparr>p_tot_len := p_tot_len b + word_of_int grow\<rparr>) S
        in realloc_walk grow (pnx S q) rem_len S
      else Some (S, q, rem_len))"

definition pbuf_realloc :: "ptr \<Rightarrow> u16 \<Rightarrow> 'a net_scheme \<Rightarrow> 'a net_scheme option" where
  "pbuf_realloc p new_len S =
     (if p = NULL then None
      else if new_len \<ge> ptot S p then Some S
      else do {
        let grow = uint new_len - uint (ptot S p);
        (S, q, rem_len) \<leftarrow> realloc_walk grow p new_len S;
        let (H, q) = (if p_type (pbufs S q) = PBUF_RAM \<and> rem_len \<noteq> plen S q
              then mem_trim q (mem_size_t (take_bit 16 (ppay S q - q) + uint rem_len)) (mheap S)
              else (mheap S, q));
        let S = S\<lparr>mheap := H\<rparr>;
        if q = NULL then None
        else do {
          let S = upd_pbuf q (\<lambda>b. b\<lparr>p_len := rem_len, p_tot_len := rem_len\<rparr>) S;
          (S, n) \<leftarrow> (if pnx S q \<noteq> NULL then pbuf_free (pnx S q) S else Some (S, 0));
          Some (upd_pbuf q (\<lambda>b. b\<lparr>p_next := NULL\<rparr>) S)
        }
      })"

text \<open>\<open>header_size_increment\<close> is an \<open>s16_t\<close>; the result is non-zero on failure.\<close>

definition pbuf_header :: "ptr \<Rightarrow> int \<Rightarrow> 'a net_scheme \<Rightarrow> 'a net_scheme \<times> u8" where
  "pbuf_header p inc S =
     (if inc = 0 \<or> p = NULL then (S, 0)
      else if inc < 0 \<and> \<not> - inc \<le> uint (plen S p) then (S, 1)
      else
        let type = p_type (pbufs S p);
            lengths = (\<lambda>b. b\<lparr>p_payload := p_payload b - inc, p_len := p_len b + word_of_int inc,
                         p_tot_len := p_tot_len b + word_of_int inc\<rparr>)
        in if type = PBUF_RAM \<or> type = PBUF_POOL then
             (if ppay S p - inc < p + SIZEOF_STRUCT_PBUF then (S, 1)
              else (upd_pbuf p lengths S, 0))
           else if inc < 0 \<and> - inc \<le> uint (plen S p) then (upd_pbuf p lengths S, 0)
           else (S, 1))"

subsection \<open>Chains\<close>

partial_function (option) clen_loop :: "ptr \<Rightarrow> u8 \<Rightarrow> 'a net_scheme \<Rightarrow> u8 option" where
  "clen_loop p n S = (if p = NULL then Some n else clen_loop (pnx S p) (n + 1) S)"

definition pbuf_clen :: "ptr \<Rightarrow> 'a net_scheme \<Rightarrow> u8 option" where
  "pbuf_clen p S = clen_loop p 0 S"

definition pbuf_ref :: "ptr \<Rightarrow> 'a net_scheme \<Rightarrow> 'a net_scheme" where
  "pbuf_ref p S = (if p \<noteq> NULL then upd_pbuf p (\<lambda>b. b\<lparr>p_ref := p_ref b + 1\<rparr>) S else S)"

partial_function (option) cat_walk :: "ptr \<Rightarrow> ptr \<Rightarrow> 'a net_scheme \<Rightarrow> ('a net_scheme \<times> ptr) option" where
  "cat_walk t p S =
     (if pnx S p \<noteq> NULL then
        let S = upd_pbuf p (\<lambda>b. b\<lparr>p_tot_len := p_tot_len b + ptot S t\<rparr>) S
        in cat_walk t (pnx S p) S
      else Some (S, p))"

definition pbuf_cat :: "ptr \<Rightarrow> ptr \<Rightarrow> 'a net_scheme \<Rightarrow> 'a net_scheme option" where
  "pbuf_cat h t S =
     (if \<not> (h \<noteq> NULL \<and> t \<noteq> NULL) then Some S
      else do {
        (S, p) \<leftarrow> cat_walk t h S;
        let S = upd_pbuf p (\<lambda>b. b\<lparr>p_tot_len := p_tot_len b + ptot S t\<rparr>) S;
        Some (upd_pbuf p (\<lambda>b. b\<lparr>p_next := t\<rparr>) S) })"

definition pbuf_chain :: "ptr \<Rightarrow> ptr \<Rightarrow> 'a net_scheme \<Rightarrow> 'a net_scheme option" where
  "pbuf_chain h t S = do { S \<leftarrow> pbuf_cat h t S; Some (pbuf_ref t S) }"

definition pbuf_dechain :: "ptr \<Rightarrow> 'a net_scheme \<Rightarrow> ('a net_scheme \<times> ptr) option" where
  "pbuf_dechain p S =
     (if p = NULL then None
      else
        let q = pnx S p in
        if q \<noteq> NULL then do {
          let S = upd_pbuf q (\<lambda>b. b\<lparr>p_tot_len := ptot S p - plen S p\<rparr>) S;
          let S = upd_pbuf p (\<lambda>b. b\<lparr>p_next := NULL\<rparr>) S;
          let S = upd_pbuf p (\<lambda>b. b\<lparr>p_tot_len := p_len b\<rparr>) S;
          (S, tail_gone) \<leftarrow> pbuf_free q S;
          Some (S, if tail_gone > 0 then NULL else q)
        }
        else Some (S, NULL))"

subsection \<open>Contents\<close>

text \<open>
  The differences of the lengths and offsets are \<open>int\<close>s in the comparison, and the copied length
  is a \<open>u16_t\<close>.
\<close>

partial_function (option) copy_loop ::
  "ptr \<Rightarrow> u16 \<Rightarrow> ptr \<Rightarrow> u16 \<Rightarrow> 'a net_scheme \<Rightarrow> ('a net_scheme \<times> err_t) option" where
  "copy_loop p_to offset_to p_from offset_from S =
     (let n = (if uint (plen S p_to) - uint offset_to \<ge> uint (plen S p_from) - uint offset_from
               then plen S p_from - offset_from else plen S p_to - offset_to);
          S = upd_bytes (memcpy (ppay S p_to + uint offset_to) (ppay S p_from + uint offset_from) (uint n)) S;
          offset_to = offset_to + n;
          offset_from = offset_from + n;
          (offset_from, p_from) = (if offset_from \<ge> plen S p_from then (0, pnx S p_from) else (offset_from, p_from));
          next_to = (offset_to = plen S p_to);
          (offset_to, p_to) = (if next_to then (0, pnx S p_to) else (offset_to, p_to))
      in if next_to \<and> \<not> (p_to \<noteq> NULL \<or> p_from = NULL) then Some (S, ERR_ARG)
      else if p_from \<noteq> NULL \<and> plen S p_from = ptot S p_from \<and> pnx S p_from \<noteq> NULL then Some (S, ERR_VAL)
      else if p_to \<noteq> NULL \<and> plen S p_to = ptot S p_to \<and> pnx S p_to \<noteq> NULL then Some (S, ERR_VAL)
      else if p_from \<noteq> NULL then copy_loop p_to offset_to p_from offset_from S
      else Some (S, ERR_OK))"

definition pbuf_copy :: "ptr \<Rightarrow> ptr \<Rightarrow> 'a net_scheme \<Rightarrow> ('a net_scheme \<times> err_t) option" where
  "pbuf_copy p_to p_from S =
     (if \<not> (p_to \<noteq> NULL \<and> p_from \<noteq> NULL \<and> ptot S p_to \<ge> ptot S p_from) then Some (S, ERR_ARG)
      else copy_loop p_to 0 p_from 0 S)"

partial_function (option) copy_partial_loop ::
  "ptr \<Rightarrow> ptr \<Rightarrow> u16 \<Rightarrow> u16 \<Rightarrow> u16 \<Rightarrow> u16 \<Rightarrow> 'a net_scheme \<Rightarrow> ('a net_scheme \<times> u16) option" where
  "copy_partial_loop p dataptr n offset left copied_total S =
     (if n \<noteq> 0 \<and> p \<noteq> NULL then
        (if offset \<noteq> 0 \<and> offset \<ge> plen S p
         then copy_partial_loop (pnx S p) dataptr n (offset - plen S p) left copied_total S
         else
           let c = plen S p - offset;
               c = (if c > n then n else c);
               S = upd_bytes (memcpy (dataptr + uint left) (ppay S p + uint offset) (uint c)) S
           in copy_partial_loop (pnx S p) dataptr (n - c) 0 (left + c) (copied_total + c) S)
      else Some (S, copied_total))"

definition pbuf_copy_partial :: "ptr \<Rightarrow> ptr \<Rightarrow> u16 \<Rightarrow> u16 \<Rightarrow> 'a net_scheme \<Rightarrow> ('a net_scheme \<times> u16) option" where
  "pbuf_copy_partial buf dataptr n offset S =
     (if buf = NULL \<or> dataptr = NULL then Some (S, 0)
      else copy_partial_loop buf dataptr n offset 0 0 S)"

partial_function (option) take_loop :: "ptr \<Rightarrow> ptr \<Rightarrow> u16 \<Rightarrow> u16 \<Rightarrow> 'a net_scheme \<Rightarrow> 'a net_scheme option" where
  "take_loop p dataptr total_copy_len copied_total S =
     (if total_copy_len \<noteq> 0 then
        (if p = NULL then None
         else
           let c = (if total_copy_len > plen S p then plen S p else total_copy_len);
               S = upd_bytes (memcpy (ppay S p) (dataptr + uint copied_total) (uint c)) S
           in take_loop (pnx S p) dataptr (total_copy_len - c) (copied_total + c) S)
      else Some S)"

text \<open>The null checks return 0, which is \<open>ERR_OK\<close>.\<close>

definition pbuf_take :: "ptr \<Rightarrow> ptr \<Rightarrow> u16 \<Rightarrow> 'a net_scheme \<Rightarrow> ('a net_scheme \<times> err_t) option" where
  "pbuf_take buf dataptr n S =
     (if buf = NULL then Some (S, ERR_OK)
      else if dataptr = NULL then Some (S, ERR_OK)
      else if ptot S buf < n then Some (S, ERR_ARG)
      else do { S \<leftarrow> take_loop buf dataptr n 0 S; Some (S, ERR_OK) })"

definition pbuf_coalesce :: "ptr \<Rightarrow> pbuf_layer \<Rightarrow> 'a net_scheme \<Rightarrow> ('a net_scheme \<times> ptr) option" where
  "pbuf_coalesce p layer S =
     (if p = NULL then None
      else if pnx S p = NULL then Some (S, p)
      else do {
        (S, q) \<leftarrow> pbuf_alloc layer (ptot S p) PBUF_RAM S;
        if q = NULL then Some (S, p)
        else do {
          (S, err) \<leftarrow> pbuf_copy q p S;
          (S, n) \<leftarrow> pbuf_free p S;
          Some (S, q)
        }
      })"

subsection \<open>Access by offset\<close>

partial_function (option) pbuf_skip :: "ptr \<Rightarrow> u16 \<Rightarrow> 'a net_scheme \<Rightarrow> (ptr \<times> u16) option" where
  "pbuf_skip q from S =
     (if q \<noteq> NULL \<and> plen S q \<le> from then pbuf_skip (pnx S q) (from - plen S q) S else Some (q, from))"

definition pbuf_get_at :: "ptr \<Rightarrow> u16 \<Rightarrow> 'a net_scheme \<Rightarrow> u8 option" where
  "pbuf_get_at p offset S = do {
     (q, copy_from) \<leftarrow> pbuf_skip p offset S;
     if q \<noteq> NULL \<and> plen S q > copy_from then Some (mbytes S (ppay S q + uint copy_from)) else Some 0 }"

fun memcmp_loop :: "ptr \<Rightarrow> u16 \<Rightarrow> ptr \<Rightarrow> nat \<Rightarrow> nat \<Rightarrow> 'a net_scheme \<Rightarrow> u16 option" where
  "memcmp_loop q start s2 i 0 S = Some 0"
| "memcmp_loop q start s2 i (Suc n) S = do {
     a \<leftarrow> pbuf_get_at q (start + of_nat i) S;
     let b = mbytes S (s2 + int i);
     if a \<noteq> b then Some (of_nat i + 1) else memcmp_loop q start s2 (Suc i) n S }"

definition pbuf_memcmp :: "ptr \<Rightarrow> u16 \<Rightarrow> ptr \<Rightarrow> u16 \<Rightarrow> 'a net_scheme \<Rightarrow> u16 option" where
  "pbuf_memcmp p offset s2 n S = do {
     (q, start) \<leftarrow> pbuf_skip p offset S;
     if q \<noteq> NULL \<and> plen S q > start then memcmp_loop q start s2 0 (unat n) S else Some 0xffff }"

partial_function (option) memfind_loop :: "ptr \<Rightarrow> ptr \<Rightarrow> u16 \<Rightarrow> u16 \<Rightarrow> u16 \<Rightarrow> 'a net_scheme \<Rightarrow> u16 option" where
  "memfind_loop p mem mem_len i max_ix S =
     (if i \<le> max_ix then do {
        plus \<leftarrow> pbuf_memcmp p i mem mem_len S;
        if plus = 0 then Some i else memfind_loop p mem mem_len (i + plus) max_ix S
      }
      else Some 0xffff)"

definition pbuf_memfind :: "ptr \<Rightarrow> ptr \<Rightarrow> u16 \<Rightarrow> u16 \<Rightarrow> 'a net_scheme \<Rightarrow> u16 option" where
  "pbuf_memfind p mem mem_len start_offset S =
     (if p = NULL then None
      else if uint (ptot S p) \<ge> uint mem_len + uint start_offset
      then memfind_loop p mem mem_len start_offset (ptot S p - mem_len) S
      else Some 0xffff)"

partial_function (option) strlen :: "ptr \<Rightarrow> int \<Rightarrow> 'a net_scheme \<Rightarrow> int option" where
  "strlen s n S = (if mbytes S s = 0 then Some n else strlen (s + 1) (n + 1) S)"

definition pbuf_strstr :: "ptr \<Rightarrow> ptr \<Rightarrow> 'a net_scheme \<Rightarrow> u16 option" where
  "pbuf_strstr p substr S =
     (if substr = NULL \<or> mbytes S substr = 0 then Some 0xffff
      else if p = NULL then None
      else if ptot S p = 0xffff then Some 0xffff
      else do {
        substr_len \<leftarrow> strlen substr 0 S;
        if substr_len \<ge> 0xffff then Some 0xffff
        else pbuf_memfind p substr (word_of_int substr_len) 0 S })"

subsection \<open>Chains and packets\<close>

text \<open>
  \<open>chain B p ps\<close>: the list that starts at \<open>p\<close> consists of the pbufs \<open>ps\<close>. In a \<open>packet\<close> every
  \<open>tot_len\<close> is the sum of the lengths from there on, the invariant of include/lwip/pbuf.h.
\<close>

fun chain :: "(ptr \<Rightarrow> pbuf) \<Rightarrow> ptr \<Rightarrow> ptr list \<Rightarrow> bool" where
  "chain B p [] \<longleftrightarrow> p = NULL"
| "chain B p (x # xs) \<longleftrightarrow> p = x \<and> x \<noteq> NULL \<and> chain B (p_next (B x)) xs"

definition tlen :: "(ptr \<Rightarrow> pbuf) \<Rightarrow> ptr list \<Rightarrow> nat" where
  "tlen B ps = sum_list (map (\<lambda>x. unat (p_len (B x))) ps)"

fun tots :: "(ptr \<Rightarrow> pbuf) \<Rightarrow> ptr list \<Rightarrow> bool" where
  "tots B [] \<longleftrightarrow> True"
| "tots B (x # xs) \<longleftrightarrow> unat (p_tot_len (B x)) = tlen B (x # xs) \<and> tots B xs"

definition packet :: "(ptr \<Rightarrow> pbuf) \<Rightarrow> ptr \<Rightarrow> ptr list \<Rightarrow> bool" where
  "packet B p ps \<longleftrightarrow> ps \<noteq> [] \<and> chain B p ps \<and> distinct ps \<and> tots B ps"

definition mem_range :: "(ptr \<Rightarrow> u8) \<Rightarrow> ptr \<Rightarrow> nat \<Rightarrow> u8 list" where
  "mem_range b a n = map (\<lambda>i. b (a + int i)) [0..<n]"

definition content :: "'a net_scheme \<Rightarrow> ptr list \<Rightarrow> u8 list" where
  "content S ps = concat (map (\<lambda>x. mem_range (mbytes S) (ppay S x) (unat (plen S x))) ps)"

lemma length_mem_range [simp]: "length (mem_range b a n) = n"
  by (simp add: mem_range_def)

lemma nth_mem_range [simp]: "i < n \<Longrightarrow> mem_range b a n ! i = b (a + int i)"
  by (simp add: mem_range_def)

lemma tlen_simps [simp]:
  "tlen B [] = 0" "tlen B (x # xs) = unat (p_len (B x)) + tlen B xs" "tlen B (xs @ ys) = tlen B xs + tlen B ys"
  by (simp_all add: tlen_def)

lemma content_simps [simp]:
  "content S [] = []" "content S (x # xs) = mem_range (mbytes S) (ppay S x) (unat (plen S x)) @ content S xs"
  "content S (xs @ ys) = content S xs @ content S ys"
  by (simp_all add: content_def)

lemma length_content [simp]: "length (content S ps) = tlen (pbufs S) ps"
  by (induction ps) simp_all

lemma chain_frame: "(\<And>x. x \<in> set ps \<Longrightarrow> p_next (B' x) = p_next (B x)) \<Longrightarrow> chain B' p ps = chain B p ps"
  by (induction ps arbitrary: p) simp_all

lemma tlen_frame: "(\<And>x. x \<in> set ps \<Longrightarrow> p_len (B' x) = p_len (B x)) \<Longrightarrow> tlen B' ps = tlen B ps"
  by (induction ps) simp_all

lemma tots_frame:
  "(\<And>x. x \<in> set ps \<Longrightarrow> p_len (B' x) = p_len (B x) \<and> p_tot_len (B' x) = p_tot_len (B x)) \<Longrightarrow> tots B' ps = tots B ps"
  using tlen_frame [of _ B' B] by (induction ps) simp_all

lemma content_frame:
  "(\<And>x. x \<in> set ps \<Longrightarrow> ppay S' x = ppay S x \<and> plen S' x = plen S x) \<Longrightarrow> mbytes S' = mbytes S \<Longrightarrow>
   content S' ps = content S ps"
  by (induction ps) simp_all

lemma chain_nonnull: "chain B p ps \<Longrightarrow> 0 \<notin> set ps"
  by (induction ps arbitrary: p) auto

lemma chain_head: "chain B p ps \<Longrightarrow> ps \<noteq> [] \<Longrightarrow> p = hd ps \<and> p \<noteq> NULL"
  by (cases ps) auto

lemma tots_append: "tots B (xs @ ys) \<Longrightarrow> tots B ys"
  by (induction xs) auto

lemma upd_pbuf_sel [simp]:
  "pbufs (upd_pbuf p f S) = (pbufs S)(p := f (pbufs S p))"
  "mheap (upd_pbuf p f S) = mheap S" "pools (upd_pbuf p f S) = pools S"
  by (simp_all add: upd_pbuf_def)

lemma upd_bytes_sel [simp]:
  "pbufs (upd_bytes f S) = pbufs S" "pools (upd_bytes f S) = pools S"
  "mbytes (upd_bytes f S) = f (mbytes S)"
  by (simp_all add: upd_bytes_def)

subsection \<open>Releasing a chain\<close>

text \<open>Giving back one pbuf that is not custom, as the body of the loop does.\<close>

definition dealloc :: "ptr \<Rightarrow> 'a net_scheme \<Rightarrow> 'a net_scheme" where
  "dealloc p S =
     (if p_type (pbufs S p) = PBUF_POOL then S\<lparr>pools := memp_free MEMP_PBUF_POOL p (pools S)\<rparr>
      else if p_type (pbufs S p) = PBUF_ROM \<or> p_type (pbufs S p) = PBUF_REF
      then S\<lparr>pools := memp_free MEMP_PBUF p (pools S)\<rparr>
      else S\<lparr>mheap := mem_free p (mheap S)\<rparr>)"

definition unref :: "ptr \<Rightarrow> 'a net_scheme \<Rightarrow> 'a net_scheme" where
  "unref p S = upd_pbuf p (\<lambda>b. b\<lparr>p_ref := p_ref b - 1\<rparr>) S"

abbreviation custom :: "'a net_scheme \<Rightarrow> ptr \<Rightarrow> bool" where
  "custom S p \<equiv> p_flags (pbufs S p) AND PBUF_FLAG_IS_CUSTOM \<noteq> 0"

definition release :: "ptr list \<Rightarrow> 'a net_scheme \<Rightarrow> 'a net_scheme" where
  "release ps S = fold (\<lambda>p S. dealloc p (unref p S)) ps S"

lemma dealloc_pbufs [simp]: "pbufs (dealloc p S) = pbufs S"
  by (simp add: dealloc_def)

lemma unref_sel [simp]: "mheap (unref p S) = mheap S" "pools (unref p S) = pools S"
    "pbufs (unref p S) = (pbufs S)(p := (pbufs S p)\<lparr>p_ref := pref S p - 1\<rparr>)"
  by (simp_all add: unref_def)

lemma release_simps [simp]:
  "release [] S = S" "release (p # ps) S = release ps (dealloc p (unref p S))"
  by (simp_all add: release_def)

lemma release_pbufs: "distinct ps \<Longrightarrow> pbufs (release ps S) =
    (\<lambda>p. if p \<in> set ps then (pbufs S p)\<lparr>p_ref := pref S p - 1\<rparr> else pbufs S p)"
  by (induction ps arbitrary: S) (auto simp: fun_eq_iff)

lemma free_loop_step:
  assumes "p \<noteq> NULL" and "pref S p = 1" and "\<not> custom S p"
  shows "pbuf_free_loop p count S = pbuf_free_loop (pnx S p) (count + 1) (dealloc p (unref p S))"
  using assms by (subst pbuf_free_loop.simps) (simp add: dealloc_def unref_def Let_def)

lemma free_loop_stop:
  assumes "p \<noteq> NULL" and "pref S p \<noteq> 1"
  shows "pbuf_free_loop p count S = Some (unref p S, count)"
  using assms by (subst pbuf_free_loop.simps) (simp add: unref_def Let_def)

lemma free_loop_null: "pbuf_free_loop NULL count S = Some (S, count)"
  by (subst pbuf_free_loop.simps) simp

lemma free_loop_chain:
  "chain (pbufs S) p (ps @ qs) \<Longrightarrow> distinct (ps @ qs) \<Longrightarrow> \<forall>x \<in> set ps. pref S x = 1 \<and> \<not> custom S x
   \<Longrightarrow> qs = [] \<or> pref S (hd qs) \<noteq> 1
   \<Longrightarrow> pbuf_free_loop p count S
       = Some (if qs = [] then release ps S else unref (hd qs) (release ps S), count + of_nat (length ps))"
proof (induction ps arbitrary: p S count)
  case Nil
  then show ?case by (cases qs) (auto simp: free_loop_null free_loop_stop)
next
  case (Cons x ps)
  let ?S = "dealloc x (unref x S)"
  have x: "p = x" "x \<noteq> NULL" using Cons.prems by auto
  have same: "pbufs ?S y = pbufs S y" if "y \<noteq> x" for y using that by simp
  have "pbuf_free_loop x count S = pbuf_free_loop (pnx S x) (count + 1) ?S"
    using Cons.prems x by (intro free_loop_step) auto
  also have "\<dots> = Some (if qs = [] then release ps ?S else unref (hd qs) (release ps ?S), count + 1 + of_nat (length ps))"
  proof (rule Cons.IH)
    have "chain (pbufs S) (pnx S x) (ps @ qs)" using Cons.prems x by simp
    then show "chain (pbufs ?S) (pnx S x) (ps @ qs)"
      by (subst chain_frame [of _ _ "pbufs S"]) auto
    show "\<forall>y \<in> set ps. pref ?S y = 1 \<and> \<not> custom ?S y" using Cons.prems(2,3) by auto
    show "qs = [] \<or> pref ?S (hd qs) \<noteq> 1"
    proof (cases qs)
      case (Cons y ys)
      then have "y \<noteq> x" using Cons.prems(2) by auto
      then show ?thesis using Cons.prems(4) Cons by simp
    qed simp
  qed (use Cons.prems in auto)
  finally show ?case using x by (simp add: algebra_simps)
qed

lemma pbuf_free_chain:
  assumes "chain (pbufs S) p (ps @ qs)" and "distinct (ps @ qs)"
    and "\<forall>x \<in> set ps. pref S x = 1 \<and> \<not> custom S x" and "qs = [] \<or> pref S (hd qs) \<noteq> 1"
  shows "pbuf_free p S = Some (if qs = [] then release ps S else unref (hd qs) (release ps S), of_nat (length ps))"
proof (cases "p = NULL")
  case True
  then have "ps @ qs = []" using assms(1) by (cases "ps @ qs") auto
  then show ?thesis using True by (simp add: pbuf_free_def)
next
  case False
  then show ?thesis using free_loop_chain [OF assms, of 0] by (simp add: pbuf_free_def)
qed

subsection \<open>The pool of packet buffers\<close>

abbreviation pool_rep :: "ptr set \<Rightarrow> 'a net_scheme \<Rightarrow> (ptr \<rightharpoonup> int set) \<Rightarrow> bool" where
  "pool_rep E S M \<equiv> memp_rep E 528 MEMP_PBUF_POOL (pools S) M"

lemma pool_element_size: "memp_sizes sizeof MEMP_PBUF_POOL = 528"
  by (simp add: memp_sizes_def SIZEOF_STRUCT_PBUF_def PBUF_POOL_BUFSIZE_ALIGNED_def LWIP_MEM_ALIGN_SIZE_def)

text \<open>A pool pbuf in use: not custom, referenced once, its payload inside its element.\<close>

definition pool_pbuf :: "'a net_scheme \<Rightarrow> ptr \<Rightarrow> bool" where
  "pool_pbuf S x \<longleftrightarrow> p_type (pbufs S x) = PBUF_POOL \<and> pref S x = 1 \<and> \<not> custom S x
     \<and> x + 16 \<le> ppay S x \<and> ppay S x + uint (plen S x) \<le> x + 528"

lemma release_pool:
  "distinct ps \<Longrightarrow> pool_rep E S M \<Longrightarrow> set ps \<subseteq> dom M \<Longrightarrow> \<forall>x \<in> set ps. p_type (pbufs S x) = PBUF_POOL
   \<Longrightarrow> pool_rep E (release ps S) (M |` (- set ps)) \<and> mheap (release ps S) = mheap S"
proof (induction ps arbitrary: S M)
  case Nil
  then show ?case by simp
next
  case (Cons x xs)
  let ?S = "dealloc x (unref x S)" and ?M = "M(x := None)"
  have "pools ?S = memp_free MEMP_PBUF_POOL x (pools S)" "mheap ?S = mheap S"
    using Cons.prems(4) by (simp_all add: dealloc_def)
  then have "pool_rep E ?S ?M" "mheap ?S = mheap S"
    using memp_free_rep Cons.prems(2,3) by simp_all
  moreover have "\<forall>y \<in> set xs. p_type (pbufs ?S y) = PBUF_POOL" using Cons.prems(1,4) by auto
  moreover have "set xs \<subseteq> dom ?M" "distinct xs" using Cons.prems(1,3) by auto
  ultimately have "pool_rep E (release xs ?S) (?M |` (- set xs)) \<and> mheap (release xs ?S) = mheap S"
    using Cons.IH [where S = ?S and M = ?M] by metis
  moreover have "?M |` (- set xs) = M |` (- set (x # xs))" by (auto simp: restrict_map_def fun_eq_iff)
  ultimately show ?case by simp
qed

text \<open>\<open>hand M ps\<close>: the elements \<open>ps\<close> are handed out as well.\<close>

definition hand :: "(ptr \<rightharpoonup> int set) \<Rightarrow> ptr list \<Rightarrow> (ptr \<rightharpoonup> int set)" where
  "hand M ps = (\<lambda>x. if x \<in> set ps then Some {x ..< x + 528} else M x)"

lemma hand_simps [simp]: "hand M [] = M" "dom (hand M ps) = dom M \<union> set ps"
    "(hand M ps)(x \<mapsto> {x ..< x + 528}) = hand M (ps @ [x])"
  by (auto simp: hand_def fun_eq_iff dom_def)

lemma hand_restrict: "set ps \<inter> dom M = {} \<Longrightarrow> hand M ps |` (- set ps) = M"
  unfolding hand_def restrict_map_def fun_eq_iff by (metis ComplD ComplI domIff disjoint_iff)

lemma pool_take_cases:
  assumes "pool_rep E S M"
  obtains S' where "pool_take S = (S', NULL)" and "S' = S" and "E \<subseteq> dom M"
  | S' q where "pool_take S = (S', q)" and "q \<noteq> NULL" and "q \<in> E" and "q \<notin> dom M"
      and "pool_rep E S' (M(q \<mapsto> {q ..< q + 528}))" and "pbufs S' = pbufs S" and "mheap S' = mheap S"
proof -
  obtain P q where a: "memp_malloc MEMP_PBUF_POOL (pools S) = (P, q)" by fastforce
  show thesis
  proof (cases "q = NULL")
    case True
    then have "P = pools S" "dom M = E" using memp_malloc_rep [OF assms a] by auto
    then show ?thesis using that(1) [of S] a True by (simp add: pool_take_def)
  next
    case False
    then show ?thesis
      using memp_malloc_rep [OF assms a] that(2) [of "S\<lparr>pools := P\<rparr>" q] a
      by (auto simp: pool_take_def domIff)
  qed
qed

text \<open>The totals of a chain that is \<open>k\<close> octets short of its packet.\<close>

fun tots_short :: "(ptr \<Rightarrow> pbuf) \<Rightarrow> ptr list \<Rightarrow> nat \<Rightarrow> bool" where
  "tots_short B [] k \<longleftrightarrow> True"
| "tots_short B (x # xs) k \<longleftrightarrow> unat (p_tot_len (B x)) = tlen B (x # xs) + k \<and> tots_short B xs k"

lemma tots_short_0: "tots_short B xs 0 = tots B xs"
  by (induction xs) simp_all

lemma tots_short_frame:
  "(\<And>x. x \<in> set ps \<Longrightarrow> p_len (B' x) = p_len (B x) \<and> p_tot_len (B' x) = p_tot_len (B x)) \<Longrightarrow> tots_short B' ps k = tots_short B ps k"
  using tlen_frame [of _ B' B] by (induction ps) simp_all

lemma tots_short_snoc:
  "unat (p_len (B q)) \<le> k \<Longrightarrow> unat (p_tot_len (B q)) = k \<Longrightarrow> tots_short B ps k
   \<Longrightarrow> tots_short B (ps @ [q]) (k - unat (p_len (B q)))"
  by (induction ps) auto

lemma chain_snoc:
  "chain B p (ps @ [r]) \<Longrightarrow> q \<noteq> 0 \<Longrightarrow> distinct (ps @ [r, q]) \<Longrightarrow>
   (\<And>x. x \<in> set ps \<Longrightarrow> p_next (B' x) = p_next (B x)) \<Longrightarrow> p_next (B' r) = q \<Longrightarrow> p_next (B' q) = 0
   \<Longrightarrow> chain B' p (ps @ [r, q])"
  by (induction ps arbitrary: p) auto

lemma pool_tail_done: "rem \<le> 0 \<Longrightarrow> pool_tail p r rem S = Some (S, True)"
  by (subst pool_tail.simps) simp

lemma pool_tail_full:
  "0 < rem \<Longrightarrow> pool_take S = (S', NULL) \<Longrightarrow> pbuf_free p S' = Some (S'', n) \<Longrightarrow> pool_tail p r rem S = Some (S'', False)"
  by (subst pool_tail.simps) simp

definition pool_link :: "ptr \<Rightarrow> ptr \<Rightarrow> int \<Rightarrow> 'a net_scheme \<Rightarrow> 'a net_scheme" where
  "pool_link r q rem S =
     upd_pbuf q (\<lambda>b. b\<lparr>p_tot_len := word_of_int rem, p_len := word_of_int (min rem 512),
                       p_payload := q + 16, p_ref := 1\<rparr>)
       (upd_pbuf r (\<lambda>b. b\<lparr>p_next := q\<rparr>)
         (upd_pbuf q (\<lambda>b. b\<lparr>p_type := PBUF_POOL, p_flags := 0, p_next := NULL\<rparr>) S))"

lemma pool_tail_step:
  assumes "0 < rem" and "rem \<le> 65535" and "pool_take S = (S', q)" and "q \<noteq> NULL"
  shows "pool_tail p r rem S = pool_tail p q (rem - min rem 512) (pool_link r q rem S')"
proof -
  have "take_bit 16 rem = rem" using assms(1,2) by (simp add: take_bit_eq_mod)
  then show ?thesis using assms
    by (subst pool_tail.simps)
      (simp add: Let_def pool_link_def SIZEOF_STRUCT_PBUF_def PBUF_POOL_BUFSIZE_ALIGNED_def)
qed

lemma pool_link_sel:
  assumes "q \<noteq> r"
  shows "mheap (pool_link r q rem S) = mheap S" "pools (pool_link r q rem S) = pools S"
    "pbufs (pool_link r q rem S) r = (pbufs S r)\<lparr>p_next := q\<rparr>"
    "pbufs (pool_link r q rem S) q = (pbufs S q)\<lparr>p_type := PBUF_POOL, p_flags := 0, p_next := NULL,
       p_tot_len := word_of_int rem, p_len := word_of_int (min rem 512), p_payload := q + 16, p_ref := 1\<rparr>"
    "x \<noteq> q \<Longrightarrow> x \<noteq> r \<Longrightarrow> pbufs (pool_link r q rem S) x = pbufs S x"
  using assms by (simp_all add: pool_link_def)

text \<open>
  The loop extends the packet, or gives every pbuf back when the pool has fewer elements than the
  rest of the packet needs.
\<close>

definition elems_for :: "int \<Rightarrow> nat" where "elems_for n = nat ((n + 511) div 512)"

definition alloc_inv :: "ptr set \<Rightarrow> (ptr \<rightharpoonup> int set) \<Rightarrow> 'a net_scheme \<Rightarrow> ptr \<Rightarrow> ptr list \<Rightarrow> nat \<Rightarrow> bool" where
  "alloc_inv E M S p ps k \<longleftrightarrow> ps \<noteq> [] \<and> chain (pbufs S) p ps \<and> distinct ps \<and> tots_short (pbufs S) ps k
     \<and> (\<forall>x \<in> set ps. pool_pbuf S x) \<and> set ps \<inter> dom M = {} \<and> pool_rep E S (hand M ps)"

lemma alloc_inv_link:
  assumes i: "alloc_inv E M S p (ps @ [r]) (nat rem)" and rem: "0 < rem" "rem \<le> 65535"
    and q: "q \<noteq> NULL" "q \<notin> set ps" "q \<noteq> r" "q \<notin> dom M"
    and S': "pbufs S' = pbufs S" "pool_rep E S' (hand M (ps @ [r, q]))"
  shows "alloc_inv E M (pool_link r q rem S') p (ps @ [r, q]) (nat (rem - min rem 512))"
proof -
  let ?S = "pool_link r q rem S'"
  note sel = pool_link_sel [OF q(3), where rem = rem and S = S', unfolded S'(1)]
  have d: "distinct (ps @ [r, q])" using i q(2,3) by (auto simp: alloc_inv_def)
  have old: "p_len (pbufs ?S x) = plen S x \<and> ptot ?S x = ptot S x \<and> p_type (pbufs ?S x) = p_type (pbufs S x)
      \<and> pref ?S x = pref S x \<and> p_flags (pbufs ?S x) = p_flags (pbufs S x) \<and> ppay ?S x = ppay S x"
    if "x \<in> set (ps @ [r])" for x
  proof -
    have "x \<noteq> q" using that q(2,3) by auto
    then show ?thesis using sel(3) sel(5) [of x] by (cases "x = r") simp_all
  qed
  have w: "unat (word_of_int rem :: u16) = nat rem" "unat (word_of_int (min rem 512) :: u16) = nat (min rem 512)"
    "uint (word_of_int (min rem 512) :: u16) = min rem 512"
    using rem by (auto simp: unat_eq_nat_uint uint_word_of_int min_def)
  have c1: "chain (pbufs S) p (ps @ [r])" using i by (simp add: alloc_inv_def)
  have c2: "pnx ?S x = pnx S x" if "x \<in> set ps" for x
    using that sel(5) [of x] q(2) d by fastforce
  have c: "chain (pbufs ?S) p (ps @ [r, q])"
    by (rule chain_snoc [OF c1 q(1) d]) (use c2 sel(3,4) in auto)
  have "tots_short (pbufs ?S) (ps @ [r]) (nat rem)"
    using i old by (subst tots_short_frame [of _ _ "pbufs S"]) (auto simp: alloc_inv_def)
  then have t: "tots_short (pbufs ?S) (ps @ [r, q]) (nat (rem - min rem 512))"
    using tots_short_snoc [of "pbufs ?S" q "nat rem" "ps @ [r]"] sel(4) w rem
    by (simp add: nat_diff_distrib)
  have "pool_pbuf ?S q" using sel(4) w by (simp add: pool_pbuf_def)
  moreover have "pool_pbuf ?S x" if "x \<in> set (ps @ [r])" for x
  proof -
    have "pool_pbuf S x" using i that by (auto simp: alloc_inv_def)
    then show ?thesis using old [OF that] by (simp add: pool_pbuf_def)
  qed
  ultimately have g: "\<forall>x \<in> set (ps @ [r, q]). pool_pbuf ?S x" by auto
  show ?thesis
    using c d t g i q(4) S'(2) sel(2) unfolding alloc_inv_def by auto
qed

lemma memp_rep_dom: "memp_rep E sz t S M \<Longrightarrow> dom M \<subseteq> E"
  by (simp only: memp_rep_def) blast

lemma alloc_inv_elems: "alloc_inv E M S p ps k \<Longrightarrow> set ps \<subseteq> E - dom M"
proof -
  assume i: "alloc_inv E M S p ps k"
  then have "pool_rep E S (hand M ps)" by (simp add: alloc_inv_def)
  then have "dom (hand M ps) \<subseteq> E" by (rule memp_rep_dom)
  then show ?thesis using i by (auto simp: alloc_inv_def)
qed

lemma alloc_inv_free:
  assumes "alloc_inv E M S p ps k"
  shows "\<exists>S' n. pbuf_free p S = Some (S', n) \<and> pool_rep E S' M \<and> mheap S' = mheap S
    \<and> (\<forall>x. x \<notin> set ps \<longrightarrow> pbufs S' x = pbufs S x) \<and> (\<forall>x. custom S' x = custom S x)"
proof -
  have f: "pbuf_free p S = Some (release ps S, of_nat (length ps))"
    using pbuf_free_chain [of S p ps "[]"] assms by (auto simp: alloc_inv_def pool_pbuf_def)
  have "pool_rep E (release ps S) (hand M ps |` (- set ps)) \<and> mheap (release ps S) = mheap S"
    using assms by (intro release_pool) (auto simp: alloc_inv_def pool_pbuf_def)
  then have "pool_rep E (release ps S) M" "mheap (release ps S) = mheap S"
    using assms by (simp_all add: hand_restrict alloc_inv_def)
  moreover have "distinct ps" using assms by (simp add: alloc_inv_def)
  ultimately show ?thesis using f by (auto simp: release_pbufs)
qed

lemma pool_tail_correct:
  assumes "alloc_inv E M S p (ps @ [r]) (nat rem)" and "0 \<le> rem" and "rem \<le> 65535" and "finite E"
    and "\<forall>x \<in> E. \<not> custom S x"
  shows "\<exists>S' ok. pool_tail p r rem S = Some (S', ok) \<and> mheap S' = mheap S \<and> (ok \<longrightarrow> ptot S' p = ptot S p)
    \<and> (\<forall>x. x \<notin> E - dom M \<longrightarrow> pbufs S' x = pbufs S x) \<and> (\<forall>x \<in> E. \<not> custom S' x)
    \<and> (if ok then \<exists>qs. alloc_inv E M S' p (ps @ [r] @ qs) 0 \<and> length qs = elems_for rem
       else pool_rep E S' M \<and> card (E - dom M) < Suc (length ps) + elems_for rem)"
  using assms
proof (induction "nat rem" arbitrary: S ps r rem rule: less_induct)
  case less
  note i = less.prems(1)
  show ?case
  proof (cases "rem = 0")
    case True
    then show ?thesis using less.prems
      by (intro exI [of _ S] exI [of _ True]) (simp add: pool_tail_done elems_for_def)
  next
    case False
    then have rem: "0 < rem" "rem \<le> 65535" using less.prems(2,3) by auto
    have e: "elems_for rem = Suc (elems_for (rem - min rem 512))"
    proof (cases "rem \<le> 512")
      case True
      then have "(rem + 511) div 512 = 1" using rem(1) by simp
      then show ?thesis using True by (simp add: elems_for_def)
    next
      case False
      have "(rem + 511) div 512 = ((rem - 1) + 512) div 512" by (simp add: algebra_simps)
      also have "\<dots> = (rem - 1) div 512 + 1" by (rule div_add_self2) simp
      finally have "(rem + 511) div 512 = (rem - 1) div 512 + 1" .
      moreover have "0 \<le> (rem - 1) div 512" using rem(1) by simp
      ultimately have "(rem + 511) div 512 = (rem - 1) div 512 + 1" "0 \<le> (rem - 1) div 512" by simp_all
      then show ?thesis using False by (simp add: elems_for_def nat_add_distrib)
    qed
    have sub: "set (ps @ [r]) \<subseteq> E - dom M"
      using alloc_inv_elems [OF i] .
    have rep: "pool_rep E S (hand M (ps @ [r]))" using i by (simp add: alloc_inv_def)
    then show ?thesis
    proof (cases rule: pool_take_cases)
      case (1 S1)
      obtain S2 n where f: "pbuf_free p S = Some (S2, n)" "pool_rep E S2 M" "mheap S2 = mheap S"
        "\<forall>x. x \<notin> set (ps @ [r]) \<longrightarrow> pbufs S2 x = pbufs S x" "\<forall>x. custom S2 x = custom S x"
        using alloc_inv_free [OF i] by blast
      have "E - dom M = set (ps @ [r])" using 1(3) sub by auto
      then have "card (E - dom M) = Suc (length ps)"
        using i by (simp add: alloc_inv_def distinct_card)
      moreover have "\<forall>x. x \<notin> E - dom M \<longrightarrow> pbufs S2 x = pbufs S x" using f(4) sub by blast
      moreover have "\<forall>x \<in> E. \<not> custom S2 x" using f(5) less.prems(5) by simp
      moreover have "pool_tail p r rem S = Some (S2, False)"
        using pool_tail_full [OF rem(1) 1(1)] f(1) 1(2) by simp
      ultimately show ?thesis using f(2,3) e by (intro exI [of _ S2] exI [of _ False]) simp
    next
      case (2 S1 q)
      let ?S = "pool_link r q rem S1" and ?rem = "rem - min rem 512"
      have q: "q \<notin> set ps" "q \<noteq> r" "q \<notin> dom M" using 2(4) by auto
      have step: "pool_tail p r rem S = pool_tail p q ?rem ?S" by (rule pool_tail_step [OF rem 2(1,2)])
      have "pool_rep E S1 (hand M (ps @ [r, q]))" using 2(5) by simp
      from alloc_inv_link [OF i rem 2(2) q 2(6) this]
      have "alloc_inv E M ?S p ((ps @ [r]) @ [q]) (nat ?rem)" by simp
      moreover have "\<forall>x \<in> E. \<not> custom ?S x"
        using less.prems(5) 2(6) by (auto simp: pool_link_def)
      moreover have "nat ?rem < nat rem" "0 \<le> ?rem" "?rem \<le> 65535" using rem by auto
      ultimately obtain S' ok where IH: "pool_tail p q ?rem ?S = Some (S', ok)" "mheap S' = mheap ?S" "ok \<longrightarrow> ptot S' p = ptot ?S p"
        "\<forall>x. x \<notin> E - dom M \<longrightarrow> pbufs S' x = pbufs ?S x" "\<forall>x \<in> E. \<not> custom S' x"
        "if ok then \<exists>qs. alloc_inv E M S' p ((ps @ [r]) @ [q] @ qs) 0 \<and> length qs = elems_for ?rem
         else pool_rep E S' M \<and> card (E - dom M) < Suc (length (ps @ [r])) + elems_for ?rem"
        using less.hyps [of ?rem ?S "ps @ [r]" q] less.prems(4) by blast
      have "p \<in> set (ps @ [r])" using chain_head [of "pbufs S" p "ps @ [r]"] i hd_in_set [of "ps @ [r]"]
        by (auto simp: alloc_inv_def)
      then have "p \<noteq> q" using q(1,2) by auto
      then have tot: "ok \<longrightarrow> ptot S' p = ptot S p" using IH(3) 2(6) by (simp add: pool_link_def)
      have "pbufs S' x = pbufs S x" if "x \<notin> E - dom M" for x
      proof -
        have "x \<noteq> q" "x \<noteq> r" using that sub 2(3) q(3) by auto
        then show ?thesis using IH(4) that 2(6) by (simp add: pool_link_sel(5) [OF q(2)])
      qed
      moreover have "mheap S' = mheap S" using IH(2) 2(7) by (simp add: pool_link_def)
      moreover have "if ok then \<exists>qs. alloc_inv E M S' p (ps @ [r] @ qs) 0 \<and> length qs = elems_for rem
         else pool_rep E S' M \<and> card (E - dom M) < Suc (length ps) + elems_for rem"
      proof (cases ok)
        case True
        then obtain qs where "alloc_inv E M S' p (ps @ [r] @ (q # qs)) 0" "length qs = elems_for ?rem"
          using IH(6) by auto
        then show ?thesis using True e by (metis length_Cons)
      next
        case False
        then show ?thesis using IH(6) e by simp
      qed
      ultimately show ?thesis
        using IH(5) tot unfolding step IH(1) by (intro exI [of _ S'] exI [of _ ok]) simp
    qed
  qed
qed

text \<open>The number of pool elements a packet needs: the first one also holds the headers.\<close>

definition pool_need :: "pbuf_layer \<Rightarrow> u16 \<Rightarrow> nat" where
  "pool_need layer n =
     Suc (elems_for (uint n - min (uint n) (512 - LWIP_MEM_ALIGN_SIZE (layer_offset layer))))"

lemma align_add: "p mod 4 = 0 \<Longrightarrow> LWIP_MEM_ALIGN_SIZE (p + x) = p + LWIP_MEM_ALIGN_SIZE x"
  unfolding LWIP_MEM_ALIGN_SIZE_def by presburger

lemma offset_align: "LWIP_MEM_ALIGN_SIZE (16 + layer_offset layer) = 16 + LWIP_MEM_ALIGN_SIZE (layer_offset layer)"
    "0 \<le> LWIP_MEM_ALIGN_SIZE (layer_offset layer)" "LWIP_MEM_ALIGN_SIZE (layer_offset layer) \<le> 56"
  by (cases layer; simp add: layer_offset_def LWIP_MEM_ALIGN_SIZE_def)+

text \<open>The first pbuf of a pool chain.\<close>

lemma pool_first:
  assumes q: "pool_rep E S (M(p \<mapsto> {p ..< p + 528}))" "p \<noteq> NULL" "p \<notin> dom M" "p mod 4 = 0" "\<not> custom S p"
    and l: "l = min (uint len) (PBUF_POOL_BUFSIZE_ALIGNED - LWIP_MEM_ALIGN_SIZE (layer_offset layer))"
  shows "alloc_inv E M (upd_pbuf p (\<lambda>b. b\<lparr>p_type := PBUF_POOL, p_next := NULL,
      p_payload := LWIP_MEM_ALIGN_SIZE (p + (SIZEOF_STRUCT_PBUF + layer_offset layer)),
      p_tot_len := len, p_len := word_of_int l, p_ref := 1\<rparr>) S) p [p] (nat (uint len - l))"
proof -
  have b: "uint len < 65536" using unsigned_less [of len, where 'a = int] by simp
  have l: "0 \<le> l" "l \<le> uint len" "l \<le> 512 - LWIP_MEM_ALIGN_SIZE (layer_offset layer)"
    using l offset_align [of layer] unfolding PBUF_POOL_BUFSIZE_ALIGNED_def min_def by (auto split: if_splits)
  have a: "LWIP_MEM_ALIGN_SIZE (p + (SIZEOF_STRUCT_PBUF + layer_offset layer))
      = p + 16 + LWIP_MEM_ALIGN_SIZE (layer_offset layer)"
    using align_add [OF q(4)] offset_align(1) [of layer] by (simp add: SIZEOF_STRUCT_PBUF_def)
  have w: "unat (word_of_int l :: u16) = nat l" "uint (word_of_int l :: u16) = l"
    using l(1,2) b by (simp_all add: unat_eq_nat_uint uint_word_of_int)
  let ?T = "upd_pbuf p (\<lambda>b. b\<lparr>p_type := PBUF_POOL, p_next := NULL,
      p_payload := p + 16 + LWIP_MEM_ALIGN_SIZE (layer_offset layer),
      p_tot_len := len, p_len := word_of_int l, p_ref := 1\<rparr>) S"
  have "unat len = nat l + nat (uint len - l)" using l(1,2) unfolding unat_eq_nat_uint by linarith
  then have "tots_short (pbufs ?T) [p] (nat (uint len - l))" by (simp add: w)
  moreover have "pool_pbuf ?T p" using q(5) w(2) l(3) offset_align(2) [of layer] by (simp add: pool_pbuf_def)
  moreover have "hand M [p] = M(p \<mapsto> {p ..< p + 528})" using hand_simps(3) [of M "[]" p] by simp
  then have "pool_rep E ?T (hand M [p])" using q(1) by simp
  moreover have "chain (pbufs ?T) p [p]" using q(2) by simp
  ultimately show ?thesis using q(3) unfolding a alloc_inv_def by simp
qed

lemma pool_alloc_spec:
  assumes rep: "pool_rep E S M" and E: "finite E" "\<forall>x \<in> E. x mod 4 = 0 \<and> \<not> custom S x"
  shows "\<exists>S' p. pbuf_alloc layer len PBUF_POOL S = Some (S', p) \<and> mheap S' = mheap S \<and> (\<forall>x \<in> E. \<not> custom S' x)
    \<and> (\<forall>x. x \<notin> E - dom M \<longrightarrow> pbufs S' x = pbufs S x)
    \<and> (p = NULL \<longleftrightarrow> card (E - dom M) < pool_need layer len)
    \<and> (if p = NULL then pool_rep E S' M
       else \<exists>ps. packet (pbufs S') p ps \<and> tlen (pbufs S') ps = unat len \<and> length ps = pool_need layer len
         \<and> set ps \<inter> dom M = {} \<and> (\<forall>x \<in> set ps. pool_pbuf S' x) \<and> pool_rep E S' (hand M ps)
         \<and> (\<exists>S'' n. pbuf_free p S' = Some (S'', n) \<and> pool_rep E S'' M))"
  using rep
proof (cases rule: pool_take_cases)
  case (1 S1)
  then have "pbuf_alloc layer len PBUF_POOL S = Some (S, NULL)" by (simp add: pbuf_alloc_def)
  moreover have "card (E - dom M) = 0" using 1(3) by (metis Diff_eq_empty_iff card.empty)
  then have "card (E - dom M) < pool_need layer len" by (simp add: pool_need_def)
  ultimately show ?thesis using rep E(2) by (intro exI [of _ S] exI [of _ NULL]) simp
next
  case (2 S1 p)
  define l where l: "l = min (uint len) (PBUF_POOL_BUFSIZE_ALIGNED - LWIP_MEM_ALIGN_SIZE (layer_offset layer))"
  define T where T: "T = upd_pbuf p (\<lambda>b. b\<lparr>p_type := PBUF_POOL, p_next := NULL,
      p_payload := LWIP_MEM_ALIGN_SIZE (p + (SIZEOF_STRUCT_PBUF + layer_offset layer)),
      p_tot_len := len, p_len := word_of_int l, p_ref := 1\<rparr>) S1"
  have cT: "\<forall>x \<in> E. \<not> custom T x" using E(2) 2(3,6) by (simp add: T)
  have l2: "0 \<le> uint len - l" "uint len - l \<le> 65535"
    using offset_align(3) [of layer] unsigned_less [of len, where 'a = int] unsigned_greater_eq [of len, where 'a = int]
    unfolding l PBUF_POOL_BUFSIZE_ALIGNED_def min_def by auto
  have need: "pool_need layer len = Suc (elems_for (uint len - l))"
    by (simp add: pool_need_def l PBUF_POOL_BUFSIZE_ALIGNED_def)
  have "alloc_inv E M T p ([] @ [p]) (nat (uint len - l))"
    unfolding T append_Nil by (rule pool_first [OF 2(5,2,4) _ _ l]) (use E(2) 2(3,6) in auto)
  from pool_tail_correct [OF this l2 E(1) cT] obtain S' ok where
    t: "pool_tail p p (uint len - l) T = Some (S', ok)" "mheap S' = mheap T" "ok \<longrightarrow> ptot S' p = ptot T p"
      "\<forall>x. x \<notin> E - dom M \<longrightarrow> pbufs S' x = pbufs T x" "\<forall>x \<in> E. \<not> custom S' x"
      "if ok then \<exists>qs. alloc_inv E M S' p ([] @ [p] @ qs) 0 \<and> length qs = elems_for (uint len - l)
       else pool_rep E S' M \<and> card (E - dom M) < Suc (length ([] :: ptr list)) + elems_for (uint len - l)"
    by blast
  let ?S = "upd_pbuf p (\<lambda>b. b\<lparr>p_ref := 1, p_flags := 0\<rparr>) S'"
  have run: "pbuf_alloc layer len PBUF_POOL S = Some (if ok then (?S, p) else (S', NULL))"
    using 2(1,2) t(1) by (simp add: pbuf_alloc_def Let_def l [symmetric] T [symmetric])
  have pE: "p \<in> E - dom M" using 2(3,4) by blast
  have frame: "\<forall>x. x \<notin> E - dom M \<longrightarrow> pbufs S' x = pbufs S x" "mheap S' = mheap S"
    using t(2,4) 2(6,7) pE by (auto simp: T)
  show ?thesis
  proof (cases ok)
    case False
    then show ?thesis using run t(5,6) need frame by (intro exI [of _ S'] exI [of _ NULL]) simp
  next
    case True
    then obtain qs where a: "alloc_inv E M S' p (p # qs) 0" "length qs = elems_for (uint len - l)"
      using t(6) by auto
    have "chain (pbufs ?S) p (p # qs)" using a(1) by (subst chain_frame [of _ _ "pbufs S'"]) (auto simp: alloc_inv_def)
    moreover have "tots_short (pbufs ?S) (p # qs) 0"
      using a(1) by (subst tots_short_frame [of _ _ "pbufs S'"]) (auto simp: alloc_inv_def)
    moreover have g: "\<forall>x \<in> set (p # qs). pool_pbuf ?S x"
      using a(1) by (auto simp: alloc_inv_def pool_pbuf_def)
    ultimately have inv: "alloc_inv E M ?S p (p # qs) 0"
      using a(1) unfolding alloc_inv_def by simp
    then have pk: "packet (pbufs ?S) p (p # qs)" by (simp add: packet_def alloc_inv_def tots_short_0)
    have "ptot ?S p = len" using t(3) True 2(6) by (simp add: T)
    then have tl: "tlen (pbufs ?S) (p # qs) = unat len" using pk by (simp add: packet_def)
    have ne: "p \<noteq> NULL" "length (p # qs) = pool_need layer len" using 2(2) need a(2) by simp_all
    have "pool_need layer len \<le> card (E - dom M)"
    proof -
      have "card (set (p # qs)) \<le> card (E - dom M)"
        using alloc_inv_elems [OF inv] E(1) by (intro card_mono) auto
      then show ?thesis using ne(2) inv by (simp add: alloc_inv_def distinct_card del: length_Cons)
    qed
    moreover have "\<exists>S'' n. pbuf_free p ?S = Some (S'', n) \<and> pool_rep E S'' M" using alloc_inv_free [OF inv] by blast
    moreover have "\<forall>x. x \<notin> E - dom M \<longrightarrow> pbufs ?S x = pbufs S x" using frame(1) pE by auto
    moreover have "set (p # qs) \<inter> dom M = {}" "pool_rep E ?S (hand M (p # qs))" using inv unfolding alloc_inv_def by blast+
    moreover have "mheap ?S = mheap S" "\<forall>x \<in> E. \<not> custom ?S x" using frame(2) t(5) by simp_all
    moreover have "pbuf_alloc layer len PBUF_POOL S = Some (?S, p)" using run True by simp
    ultimately show ?thesis using pk tl ne g
      by (intro exI [of _ ?S] exI [of _ p]) (simp only: if_False simp_thms not_less, blast)
  qed
qed

text \<open>
  C10: a request for a pool packet is served exactly when the pool has enough free elements, and
  then with a packet (each \<open>tot_len\<close> the sum of the lengths behind it) of the requested length,
  of as few pbufs as possible, none of them in use, each with its payload inside its element;
  otherwise every element taken on the way is given back. Freeing the packet returns the pool to
  what it was.
\<close>

theorem pbuf_alloc_pool:
  assumes rep: "pool_rep E S M" and E: "finite E" "\<forall>x \<in> E. x mod 4 = 0 \<and> \<not> custom S x"
  shows "\<exists>S' p. pbuf_alloc layer len PBUF_POOL S = Some (S', p) \<and> mheap S' = mheap S \<and> (\<forall>x \<in> E. \<not> custom S' x)
    \<and> (\<forall>x. x \<notin> E - dom M \<longrightarrow> pbufs S' x = pbufs S x)
    \<and> (p = NULL \<longleftrightarrow> card (E - dom M) < pool_need layer len)
    \<and> (if p = NULL then pool_rep E S' M
       else \<exists>ps. packet (pbufs S') p ps \<and> tlen (pbufs S') ps = unat len \<and> length ps = pool_need layer len
         \<and> set ps \<inter> dom M = {} \<and> (\<forall>x \<in> set ps. pool_pbuf S' x) \<and> pool_rep E S' (hand M ps)
         \<and> (\<exists>S'' n. pbuf_free p S' = Some (S'', n) \<and> pool_rep E S'' M))"
  by (rule pool_alloc_spec [OF assms])

subsection \<open>Concatenation\<close>

definition bump :: "u16 \<Rightarrow> ptr list \<Rightarrow> 'a net_scheme \<Rightarrow> 'a net_scheme" where
  "bump k xs S = S\<lparr>pbufs := (\<lambda>x. if x \<in> set xs then (pbufs S x)\<lparr>p_tot_len := ptot S x + k\<rparr> else pbufs S x)\<rparr>"

lemma bump_sel [simp]: "mheap (bump k xs S) = mheap S" "pools (bump k xs S) = pools S"
    "pbufs (bump k xs S) = (\<lambda>x. if x \<in> set xs then (pbufs S x)\<lparr>p_tot_len := ptot S x + k\<rparr> else pbufs S x)"
  by (simp_all add: bump_def)

lemma upd_then_bump:
  "x \<notin> set xs \<Longrightarrow> bump k xs (upd_pbuf x (\<lambda>b. b\<lparr>p_tot_len := p_tot_len b + k\<rparr>) S) = bump k (x # xs) S"
  by (auto simp: bump_def upd_pbuf_def fun_eq_iff)

lemma cat_walk_chain:
  "chain (pbufs S) p ps \<Longrightarrow> ps \<noteq> [] \<Longrightarrow> distinct ps \<Longrightarrow> t \<notin> set ps \<Longrightarrow>
   cat_walk t p S = Some (bump (ptot S t) (butlast ps) S, last ps)"
proof (induction ps arbitrary: p S)
  case (Cons x xs)
  show ?case
  proof (cases "xs = []")
    case True
    then show ?thesis using Cons.prems by (subst cat_walk.simps) (simp add: bump_def)
  next
    case False
    let ?S = "upd_pbuf x (\<lambda>b. b\<lparr>p_tot_len := p_tot_len b + ptot S t\<rparr>) S"
    have x: "p = x" "pnx S x \<noteq> NULL" "chain (pbufs S) (pnx S x) xs" using Cons.prems(1) chain_head [of _ _ xs] False by auto
    have "chain (pbufs ?S) (pnx S x) xs" using x(3) Cons.prems(3) by (subst chain_frame [of _ _ "pbufs S"]) auto
    then have "cat_walk t (pnx S x) ?S = Some (bump (ptot ?S t) (butlast xs) ?S, last xs)"
      by (rule Cons.IH) (use Cons.prems(3,4) False in auto)
    moreover have "ptot ?S t = ptot S t" using Cons.prems(4) by simp
    moreover have "x \<notin> set (butlast xs)" using Cons.prems(3) by (auto dest: in_set_butlastD)
    ultimately have "cat_walk t (pnx S x) ?S = Some (bump (ptot S t) (x # butlast xs) S, last xs)"
      by (simp only: upd_then_bump simp_thms)
    then show ?thesis using x(1,2) False by (subst cat_walk.simps) (simp add: Let_def)
  qed
qed simp

lemma last_butlast:
  assumes "xs \<noteq> []" and "distinct xs"
  shows "last xs \<notin> set (butlast xs)" and "insert (last xs) (set (butlast xs)) = set xs"
  using assms by (cases xs rule: rev_cases; auto)+

lemma pbuf_cat_run:
  assumes "chain (pbufs S) h hs" and "hs \<noteq> []" and "distinct hs" and "t \<notin> set hs" and "t \<noteq> NULL"
  shows "pbuf_cat h t S = Some (upd_pbuf (last hs) (\<lambda>b. b\<lparr>p_next := t\<rparr>) (bump (ptot S t) hs S))"
proof -
  note l = last_butlast [OF assms(2,3)]
  have tb: "ptot (bump (ptot S t) (butlast hs) S) t = ptot S t" using assms(4) by (auto dest: in_set_butlastD)
  have "upd_pbuf (last hs) (\<lambda>b. b\<lparr>p_tot_len := p_tot_len b + ptot S t\<rparr>) (bump (ptot S t) (butlast hs) S)
      = bump (ptot S t) hs S"
  proof -
    have "(\<lambda>x. if x \<in> set (butlast hs) then (pbufs S x)\<lparr>p_tot_len := ptot S x + ptot S t\<rparr> else pbufs S x)
        (last hs := (pbufs S (last hs))\<lparr>p_tot_len := ptot S (last hs) + ptot S t\<rparr>)
      = (\<lambda>x. if x \<in> set hs then (pbufs S x)\<lparr>p_tot_len := ptot S x + ptot S t\<rparr> else pbufs S x)"
      by (rule ext) (use l in auto)
    then show ?thesis using l(1) by (simp add: bump_def upd_pbuf_def)
  qed
  then show ?thesis
    using assms chain_head [OF assms(1,2)] by (simp add: pbuf_cat_def cat_walk_chain tb Let_def del: bump_sel)
qed

lemma chain_cat:
  "chain B p xs \<Longrightarrow> xs \<noteq> [] \<Longrightarrow> distinct xs \<Longrightarrow> chain B' t ys \<Longrightarrow> (\<And>x. x \<in> set (butlast xs) \<Longrightarrow> p_next (B' x) = p_next (B x))
   \<Longrightarrow> p_next (B' (last xs)) = t \<Longrightarrow> chain B' p (xs @ ys)"
proof (induction xs arbitrary: p)
  case (Cons x xs)
  then show ?case by (cases "xs = []") simp_all
qed simp

lemma tots_bump:
  "tots B hs \<Longrightarrow> tots B' ts \<Longrightarrow> tlen B hs + tlen B' ts < 65536 \<Longrightarrow> unat k = tlen B' ts \<Longrightarrow>
   (\<And>x. x \<in> set hs \<Longrightarrow> p_len (B' x) = p_len (B x) \<and> p_tot_len (B' x) = p_tot_len (B x) + k) \<Longrightarrow> tots B' (hs @ ts)"
proof (induction hs)
  case (Cons x xs)
  have "tlen B' (x # xs) = tlen B (x # xs)" using Cons.prems(5) by (intro tlen_frame) auto
  moreover have "unat (p_tot_len (B x) + k) = unat (p_tot_len (B x)) + unat k"
    using Cons.prems(1,3,4) by (intro unat_add_u16) auto
  ultimately show ?case using Cons by auto
qed simp

text \<open>
  C19: \<open>pbuf_cat\<close> of two packets that share no pbuf makes one packet, with the content of the first
  followed by that of the second (also for the code that holds the second), as long as the
  total fits 16 bits; it changes neither octets nor reference counts.
\<close>

theorem pbuf_cat_packets:
  assumes h: "packet (pbufs S) h hs" and t: "packet (pbufs S) t ts" and d: "set hs \<inter> set ts = {}"
    and fit: "tlen (pbufs S) hs + tlen (pbufs S) ts < 65536"
  shows "\<exists>S'. pbuf_cat h t S = Some S' \<and> packet (pbufs S') h (hs @ ts) \<and> packet (pbufs S') t ts
    \<and> content S' (hs @ ts) = content S hs @ content S ts \<and> mheap S' = mheap S
    \<and> (\<forall>x. pref S' x = pref S x)"
proof -
  let ?S = "upd_pbuf (last hs) (\<lambda>b. b\<lparr>p_next := t\<rparr>) (bump (ptot S t) hs S)"
  have ne: "hs \<noteq> []" "ts \<noteq> []" "distinct hs" "distinct ts" using h t by (auto simp: packet_def)
  have tt: "t = hd ts" "t \<noteq> NULL" "t \<in> set ts" using t chain_head [of "pbufs S" t ts] hd_in_set [of ts] ne(2) by (auto simp: packet_def)
  have run: "pbuf_cat h t S = Some ?S"
    using h tt(2,3) d by (intro pbuf_cat_run) (auto simp: packet_def)
  have same: "pbufs ?S x = pbufs S x" if "x \<in> set ts" for x
  proof -
    have "x \<noteq> last hs" "x \<notin> set hs" using that d ne(1) last_in_set by auto
    then show ?thesis by simp
  qed
  have lens: "plen ?S x = plen S x \<and> ppay ?S x = ppay S x \<and> pref ?S x = pref S x" for x by simp
  have tots_t: "tots (pbufs ?S) ts" using t same by (subst tots_frame [of _ _ "pbufs S"]) (auto simp: packet_def)
  have chain_t: "chain (pbufs ?S) t ts" using t same by (subst chain_frame [of _ _ "pbufs S"]) (auto simp: packet_def)
  have tl: "tlen (pbufs ?S) xs = tlen (pbufs S) xs" for xs by (rule tlen_frame) (use lens in blast)
  have "chain (pbufs ?S) h (hs @ ts)"
    by (rule chain_cat [of "pbufs S"]) (use h chain_t ne last_butlast [OF ne(1,3)] in \<open>auto simp: packet_def\<close>)
  moreover have "tots (pbufs ?S) (hs @ ts)"
  proof (rule tots_bump [of "pbufs S" _ _ _ "ptot S t"])
    show "unat (ptot S t) = tlen (pbufs ?S) ts" using t tt(1) ne(2) tl [of ts] by (cases ts) (auto simp: packet_def)
  qed (use h tots_t fit tl [of ts] in \<open>auto simp: packet_def\<close>)
  moreover have "content ?S xs = content S xs" for xs
    by (rule content_frame) (use lens in \<open>blast, simp\<close>)
  ultimately show ?thesis using run ne d tots_t chain_t
    by (intro exI [of _ ?S]) (auto simp: packet_def)
qed

subsection \<open>Copying in and out\<close>

definition region :: "'a net_scheme \<Rightarrow> ptr \<Rightarrow> ptr set" where
  "region S x = {ppay S x ..< ppay S x + uint (plen S x)}"

text \<open>No two pbufs share octets.\<close>

fun apart :: "'a net_scheme \<Rightarrow> ptr list \<Rightarrow> bool" where
  "apart S [] \<longleftrightarrow> True"
| "apart S (x # xs) \<longleftrightarrow> (\<forall>y \<in> set xs. region S x \<inter> region S y = {}) \<and> apart S xs"

definition put_bytes :: "ptr \<Rightarrow> u8 list \<Rightarrow> (ptr \<Rightarrow> u8) \<Rightarrow> ptr \<Rightarrow> u8" where
  "put_bytes a vs b = (\<lambda>x. if a \<le> x \<and> x < a + int (length vs) then vs ! nat (x - a) else b x)"

lemma memcpy_put: "memcpy d s (int n) b = put_bytes d (mem_range b s n) b"
  by (auto simp: memcpy_def put_bytes_def mem_range_def fun_eq_iff)

lemma memcpy_word: "memcpy d s (uint (c :: u16)) b = put_bytes d (mem_range b s (unat c)) b"
  using memcpy_put [of d s "unat c" b] by simp

lemma upd_memcpy: "upd_bytes (memcpy d s (uint (c :: u16))) S = upd_bytes (put_bytes d (mem_range (mbytes S) s (unat c))) S"
  by (simp add: upd_bytes_def memcpy_word)

lemma put_bytes_append: "put_bytes (a + int (length us)) vs (put_bytes a us b) = put_bytes a (us @ vs) b"
proof
  fix x
  have "nat (x - (a + int (length us))) = nat (x - a) - length us" by linarith
  then show "put_bytes (a + int (length us)) vs (put_bytes a us b) x = put_bytes a (us @ vs) b x"
    by (auto simp: put_bytes_def nth_append)
qed

lemma put_bytes_Nil [simp]: "put_bytes a [] b = b"
  by (rule ext) (auto simp: put_bytes_def)

lemma mem_range_0 [simp]: "mem_range b a 0 = []"
  by (simp add: mem_range_def)

lemma mem_range_put: "mem_range (put_bytes a vs b) a (length vs) = vs"
  by (rule nth_equalityI) (auto simp: put_bytes_def)

lemma put_bytes_outside: "x < a \<or> a + int (length vs) \<le> x \<Longrightarrow> put_bytes a vs b x = b x"
  by (auto simp: put_bytes_def)

lemma mem_range_cong: "(\<And>i. i < n \<Longrightarrow> b (a + int i) = b' (a + int i)) \<Longrightarrow> mem_range b a n = mem_range b' a n"
  by (simp add: mem_range_def)

lemma mem_range_split: "mem_range b a (m + n) = mem_range b a m @ mem_range b (a + int m) n"
  by (rule nth_equalityI) (auto simp: nth_append)

lemma take_mem_range: "take m (mem_range b a n) = mem_range b a (min m n)"
  by (rule nth_equalityI) auto

lemma drop_mem_range: "drop m (mem_range b a n) = mem_range b (a + int m) (n - m)"
  by (rule nth_equalityI) (auto simp: add.assoc)

lemma region_mem: "i < unat (plen S x) \<Longrightarrow> ppay S x + int i \<in> region S x"
  using of_nat_less_iff [of i "unat (plen S x)", where 'a = int] by (simp add: region_def)

lemma content_bytes:
  "(\<And>x a. x \<in> set ps \<Longrightarrow> a \<in> region S x \<Longrightarrow> mbytes T a = mbytes S a) \<Longrightarrow> pbufs T = pbufs S \<Longrightarrow>
   content T ps = content S ps"
proof (induction ps)
  case (Cons x xs)
  have "mem_range (mbytes T) (ppay S x) (unat (plen S x)) = mem_range (mbytes S) (ppay S x) (unat (plen S x))"
    by (rule mem_range_cong) (rule Cons.prems(1) [OF _ region_mem], simp_all)
  moreover have "content T xs = content S xs" by (rule Cons.IH) (use Cons.prems in auto)
  ultimately show ?case using Cons.prems(2) by simp
qed simp

lemma region_same: "pbufs T = pbufs S \<Longrightarrow> region T x = region S x"
  by (simp add: region_def)

lemma apart_same: "pbufs T = pbufs S \<Longrightarrow> apart T ps = apart S ps"
  by (induction ps) (simp_all add: region_def)

lemma uint_unat: "uint (x :: 'a :: len word) = int (unat x)"
  by simp

lemma copy_partial_run:
  "chain (pbufs S) p ps \<Longrightarrow> unat left + tlen (pbufs S) ps < 65536 \<Longrightarrow>
   \<forall>x \<in> set ps. region S x \<inter> {d ..< d + int (unat left) + int (unat n)} = {} \<Longrightarrow>
   copy_partial_loop p d n off left tot S =
     Some (upd_bytes (put_bytes (d + int (unat left)) (take (unat n) (drop (unat off) (content S ps)))) S,
           tot + of_nat (length (take (unat n) (drop (unat off) (content S ps)))))"
proof (induction ps arbitrary: S p n off left tot)
  case Nil
  then show ?case by (subst copy_partial_loop.simps) (simp add: upd_bytes_def)
next
  case (Cons x xs)
  have x: "p = x" "x \<noteq> NULL" "chain (pbufs S) (pnx S x) xs" using Cons.prems(1) by auto
  show ?case
  proof (cases "n = 0")
    case True
    then show ?thesis by (subst copy_partial_loop.simps) (simp add: upd_bytes_def)
  next
    case n0: False
    show ?thesis
    proof (cases "off \<noteq> 0 \<and> off \<ge> plen S x")
      case True
      then have o: "unat (off - plen S x) = unat off - unat (plen S x)" "unat (plen S x) \<le> unat off"
        by (simp_all add: unat_sub word_le_nat_alt)
      have "copy_partial_loop x d n off left tot S = copy_partial_loop (pnx S x) d n (off - plen S x) left tot S"
        using n0 x(2) True by (subst copy_partial_loop.simps) simp
      also have "\<dots> = Some (upd_bytes (put_bytes (d + int (unat left)) (take (unat n) (drop (unat (off - plen S x)) (content S xs)))) S,
           tot + of_nat (length (take (unat n) (drop (unat (off - plen S x)) (content S xs)))))"
        by (rule Cons.IH) (use Cons.prems x(3) in auto)
      finally show ?thesis using x(1) o by (simp add: drop_mem_range)
    next
      case False
      then have ol: "unat off \<le> unat (plen S x)"
        by (auto simp: word_le_nat_alt unat_eq_0 linorder_not_le)
      define c where c: "c = (if plen S x - off > n then n else plen S x - off)"
      have uc: "unat c = min (unat n) (unat (plen S x) - unat off)"
        using ol by (auto simp: c unat_sub word_le_nat_alt word_less_nat_alt)
      let ?us = "mem_range (mbytes S) (ppay S x + int (unat off)) (unat c)"
      let ?S = "upd_bytes (put_bytes (d + int (unat left)) ?us) S"
      have lc: "unat (left + c) = unat left + unat c" using Cons.prems(2) uc by (intro unat_add_u16) simp
      have nc: "unat (n - c) = unat n - unat c" using uc by (simp add: unat_sub word_le_nat_alt)
      have "copy_partial_loop x d n off left tot S = copy_partial_loop (pnx S x) d (n - c) 0 (left + c) (tot + c) ?S"
        using n0 x(2) False by (subst copy_partial_loop.simps) (auto simp: Let_def c [symmetric] upd_memcpy)
      also have "\<dots> = Some (upd_bytes (put_bytes (d + int (unat (left + c))) (take (unat (n - c)) (drop (unat (0 :: u16)) (content ?S xs)))) ?S,
           tot + c + of_nat (length (take (unat (n - c)) (drop (unat (0 :: u16)) (content ?S xs)))))"
      proof (rule Cons.IH)
        show "\<forall>y \<in> set xs. region ?S y \<inter> {d ..< d + int (unat (left + c)) + int (unat (n - c))} = {}"
        proof -
          have "int (unat (left + c)) + int (unat (n - c)) = int (unat left) + int (unat n)" using lc nc uc by linarith
          moreover have "region ?S y = region S y" for y by (rule region_same) simp
          ultimately show ?thesis using Cons.prems(3) by (simp only: add.assoc) simp
        qed
      qed (use Cons.prems(2) x(3) lc uc in auto)
      also have "content ?S xs = content S xs"
      proof (rule content_bytes)
        fix y a assume y: "y \<in> set xs" "a \<in> region S y"
        then have "region S y \<inter> {d ..< d + int (unat left) + int (unat n)} = {}" using Cons.prems(3) by simp
        then have "a \<notin> {d ..< d + int (unat left) + int (unat n)}" using y(2) by blast
        moreover have "unat c \<le> unat n" using uc by simp
        ultimately have "a < d + int (unat left) \<or> d + int (unat left) + int (length ?us) \<le> a"
          unfolding length_mem_range atLeastLessThan_iff by linarith
        then show "mbytes ?S a = mbytes S a" by (simp only: upd_bytes_sel put_bytes_outside)
      qed simp
      finally have run: "copy_partial_loop x d n off left tot S =
        Some (upd_bytes (put_bytes (d + int (unat left) + int (length ?us)) (take (unat n - unat c) (content S xs))) ?S,
           tot + c + of_nat (length (take (unat n - unat c) (content S xs))))"
        by (simp add: lc nc add.assoc)
      have tk: "take (unat n) (drop (unat off) (content S (x # xs))) = ?us @ take (unat n - unat c) (content S xs)"
        using ol uc by (auto simp: drop_mem_range take_mem_range min_def)
      have "upd_bytes (put_bytes (d + int (unat left) + int (length ?us)) vs) ?S
          = upd_bytes (put_bytes (d + int (unat left)) (?us @ vs)) S" for vs
        unfolding put_bytes_append [symmetric] upd_bytes_def by simp
      then show ?thesis unfolding tk x(1) run by (simp add: add.assoc)
    qed
  qed
qed

lemma take_run:
  "chain (pbufs S) p ps \<Longrightarrow> unat n \<le> tlen (pbufs S) ps \<Longrightarrow> apart S ps \<Longrightarrow> unat cop + unat n < 65536 \<Longrightarrow>
   \<forall>x \<in> set ps. region S x \<inter> {d + int (unat cop) ..< d + int (unat cop) + int (unat n)} = {} \<Longrightarrow>
   \<exists>T. take_loop p d n cop S = Some T \<and> pbufs T = pbufs S \<and> pools T = pools S
     \<and> content T ps = mem_range (mbytes S) (d + int (unat cop)) (unat n) @ drop (unat n) (content S ps)
     \<and> (\<forall>a. (\<forall>x \<in> set ps. a \<notin> region S x) \<longrightarrow> mbytes T a = mbytes S a)"
proof (induction ps arbitrary: S p n cop)
  case Nil
  then have "n = 0" by (simp add: unat_eq_0)
  then show ?case by (subst take_loop.simps) simp
next
  case (Cons x xs)
  have x: "p = x" "x \<noteq> NULL" "chain (pbufs S) (pnx S x) xs" using Cons.prems(1) by auto
  show ?case
  proof (cases "n = 0")
    case True
    then show ?thesis by (subst take_loop.simps) simp
  next
    case n0: False
    define c where c: "c = (if n > plen S x then plen S x else n)"
    have uc: "unat c = min (unat n) (unat (plen S x))" by (auto simp: c word_less_nat_alt)
    let ?us = "mem_range (mbytes S) (d + int (unat cop)) (unat c)"
    let ?S = "upd_bytes (put_bytes (ppay S x) ?us) S"
    have lc: "unat (cop + c) = unat cop + unat c" using Cons.prems(4) uc by (intro unat_add_u16) simp
    have nc: "unat (n - c) = unat n - unat c" using uc by (simp add: unat_sub word_le_nat_alt)
    have step: "take_loop x d n cop S = take_loop (pnx S x) d (n - c) (cop + c) ?S"
      using n0 x(2) by (subst take_loop.simps) (simp add: Let_def c [symmetric] upd_memcpy)
    have reg: "region ?S y = region S y" for y by (rule region_same) simp
    have ins: "a \<in> region S x" if "\<not> (a < ppay S x \<or> ppay S x + int (length ?us) \<le> a)" for a
    proof -
      have "int (unat c) \<le> uint (plen S x)" using uc uint_nat [of "plen S x"] by linarith
      then show ?thesis using that unfolding region_def atLeastLessThan_iff length_mem_range by linarith
    qed
    have keep: "mbytes ?S a = mbytes S a" if "a \<notin> region S x" for a
      using ins [of a] that by (simp only: upd_bytes_sel put_bytes_outside) (metis put_bytes_outside)
    obtain T where T: "take_loop (pnx S x) d (n - c) (cop + c) ?S = Some T" "pbufs T = pbufs ?S" "pools T = pools ?S"
        "content T xs = mem_range (mbytes ?S) (d + int (unat (cop + c))) (unat (n - c)) @ drop (unat (n - c)) (content ?S xs)"
        "\<forall>a. (\<forall>y \<in> set xs. a \<notin> region ?S y) \<longrightarrow> mbytes T a = mbytes ?S a"
    proof -
      have "chain (pbufs ?S) (pnx S x) xs" using x(3) by simp
      moreover have "unat (n - c) \<le> tlen (pbufs ?S) xs" using Cons.prems(2) nc uc by auto
      moreover have "apart ?S xs" using Cons.prems(3) apart_same [of ?S S xs] by simp
      moreover have "unat (cop + c) + unat (n - c) < 65536" using lc nc uc Cons.prems(4) by simp
      moreover have "\<forall>y \<in> set xs. region ?S y \<inter> {d + int (unat (cop + c)) ..< d + int (unat (cop + c)) + int (unat (n - c))} = {}"
      proof
        fix y assume "y \<in> set xs"
        then have "region S y \<inter> {d + int (unat cop) ..< d + int (unat cop) + int (unat n)} = {}" using Cons.prems(5) by simp
        moreover have "{d + int (unat (cop + c)) ..< d + int (unat (cop + c)) + int (unat (n - c))}
            \<subseteq> {d + int (unat cop) ..< d + int (unat cop) + int (unat n)}"
          using lc nc uc by (intro subsetI) (simp only: atLeastLessThan_iff, linarith)
        ultimately show "region ?S y \<inter> {d + int (unat (cop + c)) ..< d + int (unat (cop + c)) + int (unat (n - c))} = {}"
          unfolding reg by blast
      qed
      ultimately show thesis using Cons.IH [of ?S "pnx S x" "n - c" "cop + c"] that by blast
    qed
    have cx: "content ?S xs = content S xs"
    proof (rule content_bytes)
      fix y a assume "y \<in> set xs" "a \<in> region S y"
      then have "a \<notin> region S x" using Cons.prems(3) by auto
      then show "mbytes ?S a = mbytes S a" by (rule keep)
    qed simp
    have src: "mem_range (mbytes ?S) (d + int (unat (cop + c))) (unat (n - c))
        = mem_range (mbytes S) (d + int (unat cop) + int (unat c)) (unat n - unat c)"
      unfolding nc
    proof (rule trans [OF mem_range_cong])
      fix i assume "i < unat n - unat c"
      then have "d + int (unat (cop + c)) + int i \<in> {d + int (unat cop) ..< d + int (unat cop) + int (unat n)}"
        using lc by (simp only: atLeastLessThan_iff) linarith
      moreover have "region S x \<inter> {d + int (unat cop) ..< d + int (unat cop) + int (unat n)} = {}"
        using Cons.prems(5) by simp
      ultimately have "d + int (unat (cop + c)) + int i \<notin> region S x" by blast
      then show "mbytes ?S (d + int (unat (cop + c)) + int i) = mbytes S (d + int (unat (cop + c)) + int i)" by (rule keep)
    qed (simp add: lc add.assoc)
    have out: "mbytes T a = mbytes S a" if "\<forall>y \<in> set (x # xs). a \<notin> region S y" for a
    proof -
      have "\<forall>y \<in> set xs. a \<notin> region ?S y" "a \<notin> region S x" using that unfolding reg by auto
      then show ?thesis using T(5) keep by metis
    qed
    have head: "mem_range (mbytes T) (ppay S x) (unat (plen S x)) = ?us @ drop (unat c) (mem_range (mbytes S) (ppay S x) (unat (plen S x)))"
    proof -
      have h: "mbytes T a = mbytes ?S a" if "a \<in> region S x" for a
      proof -
        have "\<forall>y \<in> set xs. a \<notin> region ?S y" unfolding reg using Cons.prems(3) that by auto
        then show ?thesis using T(5) by blast
      qed
      have 1: "mem_range (mbytes T) (ppay S x) (unat (plen S x)) = mem_range (mbytes ?S) (ppay S x) (unat (plen S x))"
        by (rule mem_range_cong) (rule h [OF region_mem])
      have 2: "unat c + (unat (plen S x) - unat c) = unat (plen S x)" using uc by simp
      have "mem_range (mbytes ?S) (ppay S x) (unat c + (unat (plen S x) - unat c))
          = ?us @ mem_range (mbytes S) (ppay S x + int (unat c)) (unat (plen S x) - unat c)"
        unfolding mem_range_split upd_bytes_sel
        using mem_range_put [of "ppay S x" ?us "mbytes S"]
        by (simp only: length_mem_range append_same_eq same_append_eq) (intro mem_range_cong put_bytes_outside, simp)
      then show ?thesis unfolding 1 2 by (simp only: drop_mem_range)
    qed
    have "content T (x # xs) = mem_range (mbytes S) (d + int (unat cop)) (unat n) @ drop (unat n) (content S (x # xs))"
    proof -
      have sp: "mem_range (mbytes S) (d + int (unat cop)) (unat n)
          = ?us @ mem_range (mbytes S) (d + int (unat cop) + int (unat c)) (unat n - unat c)"
        using uc by (simp only: mem_range_split [symmetric]) simp
      have ct: "content T (x # xs) = (?us @ drop (unat c) (mem_range (mbytes S) (ppay S x) (unat (plen S x))))
          @ mem_range (mbytes S) (d + int (unat cop) + int (unat c)) (unat n - unat c) @ drop (unat n - unat c) (content S xs)"
      proof -
        have "content T xs = mem_range (mbytes S) (d + int (unat cop) + int (unat c)) (unat n - unat c)
            @ drop (unat n - unat c) (content S xs)"
          using T(4) unfolding src cx by (simp only: nc)
        moreover have "pbufs T = pbufs S" using T(2) by simp
        ultimately show ?thesis by (simp only: content_simps head)
      qed
      have "unat c = unat n \<or> drop (unat c) (mem_range (mbytes S) (ppay S x) (unat (plen S x))) = []"
        using uc by auto
      then show ?thesis
      proof (elim disjE)
        assume "unat c = unat n"
        moreover from this have "unat n \<le> unat (plen S x)" using uc by simp
        ultimately show ?thesis unfolding ct by simp
      next
        assume "drop (unat c) (mem_range (mbytes S) (ppay S x) (unat (plen S x))) = []"
        then have "length (drop (unat c) (mem_range (mbytes S) (ppay S x) (unat (plen S x)))) = 0" by (simp only: list.size)
        then have "unat c = unat (plen S x)" using uc unfolding length_drop length_mem_range by linarith
        moreover from this have "unat (plen S x) \<le> unat n" using uc by linarith
        ultimately show ?thesis unfolding ct sp by simp
      qed
    qed
    then show ?thesis using step T(1,2,3) out x(1) by (intro exI [of _ T]) simp
  qed
qed

text \<open>
  C15: data that \<open>pbuf_take\<close> puts into a packet is what \<open>pbuf_copy_partial\<close> gets out of it, from any
  offset: the packet then holds the data followed by its old content, and a copy returns the
  octets asked for as far as the packet has them, and their number.
\<close>

theorem pbuf_take_copy_partial:
  assumes p: "packet (pbufs S) p ps" "apart S ps" and n: "unat n \<le> tlen (pbufs S) ps"
    and src: "d \<noteq> NULL" "\<forall>x \<in> set ps. region S x \<inter> {d ..< d + int (unat n)} = {}"
    and dst: "e \<noteq> NULL" "\<forall>x \<in> set ps. region S x \<inter> {e ..< e + int (unat m)} = {}"
  shows "\<exists>T. pbuf_take p d n S = Some (T, ERR_OK) \<and> pbufs T = pbufs S
    \<and> content T ps = mem_range (mbytes S) d (unat n) @ drop (unat n) (content S ps)
    \<and> (\<exists>U. pbuf_copy_partial p e m off T = Some (U, of_nat (min (unat m) (tlen (pbufs S) ps - unat off)))
         \<and> mem_range (mbytes U) e (min (unat m) (tlen (pbufs S) ps - unat off))
           = take (unat m) (drop (unat off) (content T ps)))"
proof -
  have ps: "chain (pbufs S) p ps" "ps \<noteq> []" "tots (pbufs S) ps" using p(1) by (auto simp: packet_def)
  have hd: "p = hd ps" "p \<noteq> NULL" using chain_head [OF ps(1,2)] by auto
  have tot: "unat (ptot S p) = tlen (pbufs S) ps" using ps(2,3) hd(1) by (cases ps) auto
  then have tl: "tlen (pbufs S) ps < 65536" using unat_u16_less [of "ptot S p"] by simp
  obtain T where T: "take_loop p d n 0 S = Some T" "pbufs T = pbufs S"
      "content T ps = mem_range (mbytes S) d (unat n) @ drop (unat n) (content S ps)"
    using take_run [OF ps(1) n p(2), of 0 d] src(2) n tl by auto
  have "\<not> ptot S p < n" using tot n by (simp add: word_less_nat_alt)
  then have take: "pbuf_take p d n S = Some (T, ERR_OK)" using T(1) hd(2) src(1) by (simp add: pbuf_take_def)
  let ?vs = "take (unat m) (drop (unat off) (content T ps))"
  let ?U = "upd_bytes (put_bytes e ?vs) T"
  have len: "length ?vs = min (unat m) (tlen (pbufs S) ps - unat off)"
    by (simp add: T(2) min.commute del: T(3))
  have reg: "\<forall>x \<in> set ps. region T x \<inter> {e ..< e + int (unat (0 :: u16)) + int (unat m)} = {}"
    using dst(2) region_same [OF T(2)] by simp
  have run: "copy_partial_loop p e m off 0 0 T = Some (?U, of_nat (min (unat m) (tlen (pbufs S) ps - unat off)))"
    using copy_partial_run [of T p ps 0 e m off 0] ps(1) tl reg unfolding len T(2) by simp
  have "mem_range (mbytes ?U) e (min (unat m) (tlen (pbufs S) ps - unat off)) = ?vs"
    using mem_range_put [of e ?vs "mbytes T"] unfolding len upd_bytes_sel .
  then show ?thesis
    using take T(2,3) run hd(2) dst(1) by (intro exI [of _ T] conjI exI [of _ ?U]) (simp_all only: pbuf_copy_partial_def if_False simp_thms)
qed


subsection \<open>Searching\<close>

lemma skip_head: "unat (plen S p) > unat from \<Longrightarrow> pbuf_skip p from S = Some (p, from)"
  by (subst pbuf_skip.simps) (simp add: word_le_nat_alt)

lemma get_at_head: "p \<noteq> NULL \<Longrightarrow> unat (plen S p) > unat i \<Longrightarrow> pbuf_get_at p i S = Some (mbytes S (ppay S p + uint i))"
  by (simp add: pbuf_get_at_def skip_head word_less_nat_alt)

text \<open>
  \<open>pbuf_memfind\<close> can miss an occurrence: on a mismatch it skips by the position of the mismatch
  and not to the next candidate, so that \<open>aab\<close> is not found in \<open>aaab\<close>.
\<close>

theorem pbuf_memfind_misses:
  assumes p: "packet (pbufs S) p [p]" and content: "content S [p] = [a, a, a, b]" and ne: "a \<noteq> b"
    and mem: "mem_range (mbytes S) mem 3 = [a, a, b]"
  shows "pbuf_memfind p mem 3 0 S = Some 0xffff \<and> take 3 (drop 1 (content S [p])) = mem_range (mbytes S) mem 3"
proof -
  have l: "unat (plen S p) = 4" using arg_cong [OF content, of length] by simp
  then have pl: "plen S p = 4" by (simp add: word_unat_eq_iff)
  have pn: "p \<noteq> NULL" "ptot S p = 4" using p l by (auto simp: packet_def word_unat_eq_iff)
  have c: "mbytes S (ppay S p) = a" "mbytes S (ppay S p + 1) = a" "mbytes S (ppay S p + 2) = a" "mbytes S (ppay S p + 3) = b"
    using content l by (simp_all add: mem_range_def numeral_eq_Suc upt_rec)
  have n: "mbytes S mem = a" "mbytes S (mem + 1) = a" "mbytes S (mem + 2) = b"
    using mem by (simp_all add: mem_range_def numeral_eq_Suc upt_rec)
  have m: "pbuf_memcmp p 0 mem 3 S = Some 3"
  proof -
    have g: "pbuf_get_at p 0 S = Some a" "pbuf_get_at p 1 S = Some a" "pbuf_get_at p 2 S = Some a"
      using pn(1) l c by (simp_all add: get_at_head)
    have "memcmp_loop p 0 mem 0 (Suc (Suc (Suc 0))) S = Some 3"
      using ne by (simp add: g n)
    moreover have "unat (3 :: u16) = Suc (Suc (Suc 0))" by simp
    ultimately show ?thesis using pn(1) l pl by (simp only: pbuf_memcmp_def skip_head) (simp add: skip_head)
  qed
  have "memfind_loop p mem 3 0 1 S = memfind_loop p mem 3 3 1 S" by (subst memfind_loop.simps) (simp add: m)
  also have "\<dots> = Some 0xffff" by (subst memfind_loop.simps) (simp add: word_le_nat_alt)
  finally have "pbuf_memfind p mem 3 0 S = Some 0xffff" using pn by (simp add: pbuf_memfind_def)
  moreover have "take 3 (drop 1 (content S [p])) = mem_range (mbytes S) mem 3" unfolding content mem by simp
  ultimately show ?thesis by (rule conjI)
qed

subsection \<open>The state after start-up, for the instances\<close>

definition pbuf0 :: pbuf where
  "pbuf0 = \<lparr>p_next = 0, p_payload = 0, p_tot_len = 0, p_len = 0, p_type = PBUF_RAM, p_flags = 0, p_ref = 0, p_original = 0\<rparr>"

definition net0 :: net where
  "net0 = \<lparr>pbufs = (\<lambda>_. pbuf0), mheap = heap0,
     pools = memp_init (\<lambda>_. 40) 0x20010000 \<lparr>memp_tab = \<lambda>_. 0, memp_next = \<lambda>_. 0\<rparr>\<rparr>"

abbreviation pool0 :: "ptr set" where "pool0 \<equiv> pool_of (\<lambda>_. 40) 0x20010000 MEMP_PBUF_POOL"

lemma pool0: "pool_rep pool0 net0 Map.empty" "finite pool0" "card pool0 = 20" "\<forall>x \<in> pool0. x mod 4 = 0 \<and> \<not> custom net0 x"
proof -
  have s: "0 < memp_sizes (\<lambda>_. 40) t" for t
    by (simp add: memp_sizes_def LWIP_MEM_ALIGN_SIZE_def SIZEOF_STRUCT_PBUF_def PBUF_POOL_BUFSIZE_ALIGNED_def
        split: memp_t.split)
  show "pool_rep pool0 net0 Map.empty"
    using memp_init_rep(1) [OF s, of "0x20010000" MEMP_PBUF_POOL] by (simp add: net0_def pool_element_size)
  show "finite pool0" "card pool0 = 20"
    by (simp_all add: pool_of_def pool_element_size card_pool_elems memp_num_def) (simp add: pool_elems_def)
  show "\<forall>x \<in> pool0. x mod 4 = 0 \<and> \<not> custom net0 x"
    unfolding pool_of_def pool_elems_def
    by (auto simp: net0_def pbuf0_def pool_element_size memp_types_def memp_sizes_def LWIP_MEM_ALIGN_SIZE_def
      SIZEOF_STRUCT_PBUF_def PBUF_POOL_BUFSIZE_ALIGNED_def memp_num_def)
qed

text \<open>Two chained 4-octet pbufs of static memory, and a text behind them.\<close>

definition rom2 :: net where
  "rom2 = net0\<lparr>pbufs := (\<lambda>_. pbuf0)
      (16 := pbuf0\<lparr>p_next := 32, p_payload := 100, p_tot_len := 8, p_len := 4, p_type := PBUF_ROM, p_ref := 1\<rparr>,
       32 := pbuf0\<lparr>p_payload := 104, p_tot_len := 4, p_len := 4, p_type := PBUF_ROM, p_ref := 2\<rparr>,
       48 := pbuf0\<lparr>p_payload := 200, p_tot_len := 4, p_len := 4, p_type := PBUF_ROM, p_ref := 1\<rparr>),
     mheap := heap0\<lparr>bytes := (\<lambda>_. 97)(203 := 98, 302 := 98)\<rparr>\<rparr>"

lemma rom2_packets: "packet (pbufs rom2) 16 [16, 32]" "packet (pbufs rom2) 48 [48]" "apart rom2 [16, 32]"
  by (auto simp: packet_def rom2_def pbuf0_def region_def)

theorem pbuf_alloc_pool_witness:
  "\<exists>S p. pbuf_alloc PBUF_RAW 1500 PBUF_POOL net0 = Some (S, p) \<and> p \<noteq> NULL"
  using pbuf_alloc_pool [OF pool0(1,2,4), of PBUF_RAW 1500] pool0(3)
  by (auto simp: pool_need_def elems_for_def layer_offset_def LWIP_MEM_ALIGN_SIZE_def)

theorem pbuf_cat_packets_witness:
  "\<exists>S. pbuf_cat 16 48 rom2 = Some S \<and> packet (pbufs S) 16 [16, 32, 48]"
  using pbuf_cat_packets [OF rom2_packets(1,2)] by (auto simp: rom2_def pbuf0_def)

theorem pbuf_take_copy_partial_witness:
  "\<exists>T. pbuf_take 16 300 5 rom2 = Some (T, ERR_OK) \<and> content T [16, 32] = [97, 97, 98, 97, 97, 97, 97, 97]"
proof -
  have "\<exists>T. pbuf_take 16 300 5 rom2 = Some (T, ERR_OK) \<and>
      content T [16, 32] = mem_range (mbytes rom2) 300 (unat (5 :: u16)) @ drop (unat (5 :: u16)) (content rom2 [16, 32])"
    using pbuf_take_copy_partial [OF rom2_packets(1,3), of 5 300 400 8 0]
    by (auto simp: rom2_def pbuf0_def region_def)
  moreover have "mem_range (mbytes rom2) 300 (unat (5 :: u16)) = [97, 97, 98, 97, 97]"
    by (simp add: mem_range_def rom2_def upt_conv_Cons)
  moreover have "drop (unat (5 :: u16)) (content rom2 [16, 32]) = [97, 97, 97]"
    by (simp add: mem_range_def rom2_def pbuf0_def upt_conv_Cons)
  ultimately show ?thesis by simp
qed


theorem pbuf_memfind_misses_witness: "pbuf_memfind 48 300 3 0 rom2 = Some 0xffff"
  using pbuf_memfind_misses [OF rom2_packets(2), of 97 98 300]
  by (simp add: rom2_def pbuf0_def mem_range_def upt_rec)

end
