(* ===== verification/Lwip_Comm.thy ===== *)
theory Lwip_Comm
  imports Malloc Memp Ip_Addr
begin

text \<open>
  Model of LWIP/lwip_app/lwip_comm/lwip_comm.c, of the memory operations of
  HARDWARE/ETHERNET/lan8720.c, of the interrupt of HARDWARE/TIMER/timer.c, and of the start-up loop
  of USER/main.c: the memory of driver and stack comes from the internal pool (MALLOC/malloc.c),
  the timers of the stack are polled, and a small state machine follows DHCP.

  What the functions call in the stack and in the PHY is a record of functions on the whole state
  (\<open>stack_ops\<close>), with the stack's own state in the field \<open>stack\<close>. \<open>netif_dhcp\<close> holds the number of
  tries of \<open>lwip_netif.dhcp\<close>, or \<open>None\<close> when that pointer is null.
\<close>

subsection \<open>State\<close>

record board =
  mallco :: mallco_dev
  DMARxDscrTab :: u32
  DMATxDscrTab :: u32
  Rx_Buff :: u32
  Tx_Buff :: u32
  memp_memory :: u32
  ram_heap :: u32

record lwip_dev =
  mac :: "u8 list"
  remoteip :: "u8 list"
  dev_ip :: "u8 list"
  dev_netmask :: "u8 list"
  dev_gateway :: "u8 list"
  dhcpstatus :: u8

record 's comm = board +
  lwipdev :: lwip_dev
  netif_ip :: u32
  netif_netmask :: u32
  netif_gw :: u32
  netif_dhcp :: "u8 option"
  TCPTimer :: u32
  ARPTimer :: u32
  DHCPfineTimer :: u32
  DHCPcoarseTimer :: u32
  lwip_localtime :: u32
  tim3_i :: int
  LED0 :: bool
  stack :: 's

record 's stack_ops =
  tcp_tmr :: "'s comm \<Rightarrow> 's comm"
  etharp_tmr :: "'s comm \<Rightarrow> 's comm"
  dhcp_fine_tmr :: "'s comm \<Rightarrow> 's comm"
  dhcp_coarse_tmr :: "'s comm \<Rightarrow> 's comm"
  dhcp_start :: "'s comm \<Rightarrow> 's comm"
  LAN8720_Init :: "'s comm \<Rightarrow> 's comm \<times> u8"
  lwip_init :: "'s comm \<Rightarrow> 's comm"
  netif_add :: "u32 \<Rightarrow> u32 \<Rightarrow> u32 \<Rightarrow> 's comm \<Rightarrow> 's comm \<times> bool"
  netif_set_default :: "'s comm \<Rightarrow> 's comm"
  netif_set_up :: "'s comm \<Rightarrow> 's comm"

subsection \<open>Memory\<close>

definition SRAMIN :: u8 where "SRAMIN = 0"
definition ETH_RXBUFNB :: u32 where "ETH_RXBUFNB = 5"
definition ETH_TXBUFNB :: u32 where "ETH_TXBUFNB = 5"
definition ETH_RX_BUF_SIZE :: u32 where "ETH_RX_BUF_SIZE = 1524"
definition ETH_TX_BUF_SIZE :: u32 where "ETH_TX_BUF_SIZE = 1524"

text \<open>\<open>sizeof(ETH_DMADESCTypeDef)\<close>: eight words, with \<open>USE_ENHANCED_DMA_DESCRIPTORS\<close>.\<close>

definition SIZEOF_DMADESC :: u32 where "SIZEOF_DMADESC = 32"

definition ETH_Mem_Free :: "'a board_scheme \<Rightarrow> 'a board_scheme option" where
  "ETH_Mem_Free S = do {
     d \<leftarrow> myfree SRAMIN (DMARxDscrTab S) (mallco S);
     d \<leftarrow> myfree SRAMIN (DMATxDscrTab S) d;
     d \<leftarrow> myfree SRAMIN (Rx_Buff S) d;
     d \<leftarrow> myfree SRAMIN (Tx_Buff S) d;
     Some (S\<lparr>mallco := d\<rparr>) }"

definition ETH_Mem_Malloc :: "'a board_scheme \<Rightarrow> ('a board_scheme \<times> u8) option" where
  "ETH_Mem_Malloc S = do {
     (d, p1) \<leftarrow> mymalloc SRAMIN (ETH_RXBUFNB * SIZEOF_DMADESC) (mallco S);
     (d, p2) \<leftarrow> mymalloc SRAMIN (ETH_TXBUFNB * SIZEOF_DMADESC) d;
     (d, p3) \<leftarrow> mymalloc SRAMIN (ETH_RX_BUF_SIZE * ETH_RXBUFNB) d;
     (d, p4) \<leftarrow> mymalloc SRAMIN (ETH_TX_BUF_SIZE * ETH_TXBUFNB) d;
     let S = S\<lparr>mallco := d, DMARxDscrTab := p1, DMATxDscrTab := p2, Rx_Buff := p3, Tx_Buff := p4\<rparr>;
     if p1 = 0 \<or> p2 = 0 \<or> p3 = 0 \<or> p4 = 0 then do { S \<leftarrow> ETH_Mem_Free S; Some (S, 1) }
     else Some (S, 0) }"

definition lwip_comm_mem_free :: "'a board_scheme \<Rightarrow> 'a board_scheme option" where
  "lwip_comm_mem_free S = do {
     d \<leftarrow> myfree SRAMIN (memp_memory S) (mallco S);
     d \<leftarrow> myfree SRAMIN (ram_heap S) d;
     Some (S\<lparr>mallco := d\<rparr>) }"

definition ramheapsize :: u32 where
  "ramheapsize = word_of_int (LWIP_MEM_ALIGN_SIZE 16000 + 2 * LWIP_MEM_ALIGN_SIZE (4 * 3) + 4)"

definition lwip_comm_mem_malloc :: "(memp_t \<Rightarrow> int) \<Rightarrow> 'a board_scheme \<Rightarrow> ('a board_scheme \<times> u8) option" where
  "lwip_comm_mem_malloc sizeof S = do {
     (d, p1) \<leftarrow> mymalloc SRAMIN (word_of_int (memp_get_memorysize sizeof)) (mallco S);
     (d, p2) \<leftarrow> mymalloc SRAMIN ramheapsize d;
     let S = S\<lparr>mallco := d, memp_memory := p1, ram_heap := p2\<rparr>;
     if p1 = 0 \<or> p2 = 0 then do { S \<leftarrow> lwip_comm_mem_free S; Some (S, 1) }
     else Some (S, 0) }"

subsection \<open>Start-up\<close>

text \<open>\<open>sn0\<close> is the word of the unique device identifier at 0x1FFF7A10.\<close>

definition lwip_comm_default_ip_set :: "u32 \<Rightarrow> lwip_dev \<Rightarrow> lwip_dev" where
  "lwip_comm_default_ip_set sn0 lwipx =
     (let b3 = (ucast (and (drop_bit 16 sn0) 0xFF) :: u8);
          b4 = (ucast (and (drop_bit 8 sn0) 0xFFF) :: u8);
          b5 = (ucast (and sn0 0xFF) :: u8)
      in lwipx\<lparr>remoteip := [192, 168, 1, 104],
        mac := [2, 0, 0, b3, b4, b5],
        dev_ip := [192, 168, 1, 30],
        dev_netmask := [255, 255, 255, 0],
        dev_gateway := [192, 168, 1, 1],
        dhcpstatus := 0\<rparr>)"

definition set_status :: "u8 \<Rightarrow> 's comm \<Rightarrow> 's comm" where
  "set_status v S = S\<lparr>lwipdev := (lwipdev S)\<lparr>dhcpstatus := v\<rparr>\<rparr>"

definition lwip_comm_init :: "'s stack_ops \<Rightarrow> (memp_t \<Rightarrow> int) \<Rightarrow> u32 \<Rightarrow> 's comm \<Rightarrow> ('s comm \<times> u8) option" where
  "lwip_comm_init ops sizeof sn0 S = do {
     (S, r) \<leftarrow> ETH_Mem_Malloc S;
     if r \<noteq> 0 then Some (S, 1)
     else do {
       (S, r) \<leftarrow> lwip_comm_mem_malloc sizeof S;
       if r \<noteq> 0 then Some (S, 1)
       else
         (case LAN8720_Init ops S of (S, r) \<Rightarrow>
           if r \<noteq> 0 then Some (S, 2)
           else
             (let S = lwip_init ops S;
                  S = S\<lparr>lwipdev := lwip_comm_default_ip_set sn0 (lwipdev S)\<rparr>
              in case netif_add ops 0 0 0 S of (S, ok) \<Rightarrow>
                let S = dhcp_start ops (set_status 0 S)
                in if \<not> ok then Some (S, 3)
                   else Some (netif_set_up ops (netif_set_default ops S), 0)))
     } }"

text \<open>The loop of \<open>main\<close> that repeats the initialisation until it succeeds.\<close>

partial_function (option) main_init_loop ::
  "'s stack_ops \<Rightarrow> (memp_t \<Rightarrow> int) \<Rightarrow> u32 \<Rightarrow> 's comm \<Rightarrow> 's comm option" where
  "main_init_loop ops sizeof sn0 S = do {
     (S, r) \<leftarrow> lwip_comm_init ops sizeof sn0 S;
     if r \<noteq> 0 then main_init_loop ops sizeof sn0 S else Some S }"

subsection \<open>Time and DHCP\<close>

text \<open>\<open>TIM3_IRQHandler\<close>, entered every 10 ms; the argument is the interrupt status.\<close>

definition TIM3_IRQHandler :: "bool \<Rightarrow> 's comm \<Rightarrow> 's comm" where
  "TIM3_IRQHandler update S =
     (if update then
        let S = S\<lparr>lwip_localtime := lwip_localtime S + 10\<rparr>;
            S = S\<lparr>tim3_i := (tim3_i S + 1) mod 100\<rparr>
        in if tim3_i S = 0 then S\<lparr>LED0 := \<not> LED0 S\<rparr> else S
      else S)"

definition bytes_of :: "u32 \<Rightarrow> u8 list" where
  "bytes_of a = [ucast a, ucast (drop_bit 8 a), ucast (drop_bit 16 a), ucast (drop_bit 24 a)]"

definition lwip_dhcp_process_handle :: "'s stack_ops \<Rightarrow> 's comm \<Rightarrow> 's comm option" where
  "lwip_dhcp_process_handle ops S =
     (if dhcpstatus (lwipdev S) = 0 then Some (set_status 1 (dhcp_start ops S))
      else if dhcpstatus (lwipdev S) = 1 then
        (let ip = netif_ip S; netmask = netif_netmask S; gw = netif_gw S in
         if ip \<noteq> 0 then
           let S = set_status 2 S
           in Some (S\<lparr>lwipdev := (lwipdev S)\<lparr>dev_ip := bytes_of ip, dev_netmask := bytes_of netmask,
                dev_gateway := bytes_of gw\<rparr>\<rparr>)
         else
           (case netif_dhcp S of
              None \<Rightarrow> None
            | Some tries \<Rightarrow>
                if tries > 4 then
                  let S = set_status 0xFF S;
                      addr = (\<lambda>bs. IP4_ADDR (bs ! 0) (bs ! 1) (bs ! 2) (bs ! 3))
                  in Some (S\<lparr>netif_ip := addr (dev_ip (lwipdev S)), netif_netmask := addr (dev_netmask (lwipdev S)),
                        netif_gw := addr (dev_gateway (lwipdev S))\<rparr>)
                else Some S))
      else Some S)"

definition lwip_periodic_handle :: "'s stack_ops \<Rightarrow> 's comm \<Rightarrow> 's comm option" where
  "lwip_periodic_handle ops S = do {
     let S = (if lwip_localtime S - TCPTimer S \<ge> 250
              then tcp_tmr ops (S\<lparr>TCPTimer := lwip_localtime S\<rparr>) else S);
     let S = (if lwip_localtime S - ARPTimer S \<ge> 5000
              then etharp_tmr ops (S\<lparr>ARPTimer := lwip_localtime S\<rparr>) else S);
     S \<leftarrow> (if lwip_localtime S - DHCPfineTimer S \<ge> 500 then
             let S = dhcp_fine_tmr ops (S\<lparr>DHCPfineTimer := lwip_localtime S\<rparr>)
             in if dhcpstatus (lwipdev S) \<noteq> 2 \<and> dhcpstatus (lwipdev S) \<noteq> 0xFF
                then lwip_dhcp_process_handle ops S else Some S
           else Some S);
     Some (if lwip_localtime S - DHCPcoarseTimer S \<ge> 60000
           then dhcp_coarse_tmr ops (S\<lparr>DHCPcoarseTimer := lwip_localtime S\<rparr>) else S) }"

text \<open>The loop of \<open>main\<close> that waits for DHCP: one turn, with the timer interrupts that precede it.\<close>

definition main_wait_dhcp :: "'s comm \<Rightarrow> bool" where
  "main_wait_dhcp S \<longleftrightarrow> dhcpstatus (lwipdev S) \<noteq> 2 \<and> dhcpstatus (lwipdev S) \<noteq> 0xFF"

subsection \<open>How much of the pool is in use\<close>

definition used :: "(u32 \<rightharpoonup> nat set) \<Rightarrow> nat" where
  "used M = card (\<Union> (ran M))"

text \<open>A sequence of requests, and the releases of what they returned.\<close>

fun grab :: "u32 list \<Rightarrow> mallco_dev \<Rightarrow> (mallco_dev \<times> u32 list) option" where
  "grab [] d = Some (d, [])"
| "grab (sz # szs) d = do {
     (d, p) \<leftarrow> mymalloc SRAMIN sz d;
     (d, ps) \<leftarrow> grab szs d;
     Some (d, p # ps) }"

fun drops :: "u32 list \<Rightarrow> mallco_dev \<Rightarrow> mallco_dev option" where
  "drops [] d = Some d"
| "drops (p # ps) d = do { d \<leftarrow> myfree SRAMIN p d; drops ps d }"

lemma cells_bounds:
  assumes "Malloc.pool_rep b d M" and "M p = Some C"
  shows "C \<subseteq> {unat (membase d b) ..< unat (membase d b) + unat (memsize b)}"
proof -
  obtain T where T: "pool_wf b d" "tab (memmap d b) T" "M = pool_cells (membase d b) T"
    using assms(1) by (auto simp: Malloc.pool_rep_def)
  then obtain k n where k: "p = block_ptr b d k" "k < unat (memtblsize b)"
      "C = {unat p ..< unat p + 32 * n}" "k + n \<le> unat (memtblsize b)"
    using pool_cells_Some [OF T(1,2)] assms(2) by metis
  then show ?thesis using block_ptr_unat(1) [OF T(1)] by (auto simp: memsize_blocks)
qed

lemma union_bounds:
  assumes "Malloc.pool_rep b d M"
  shows "\<Union> (ran M) \<subseteq> {unat (membase d b) ..< unat (membase d b) + unat (memsize b)}" and "finite (\<Union> (ran M))"
proof -
  show 1: "\<Union> (ran M) \<subseteq> {unat (membase d b) ..< unat (membase d b) + unat (memsize b)}"
    using cells_bounds [OF assms] by (auto simp: ran_def)
  show "finite (\<Union> (ran M))" using finite_subset [OF 1] by simp
qed

lemma used_bound: "Malloc.pool_rep SRAMIN d M \<Longrightarrow> used M \<le> 102400"
proof -
  assume r: "Malloc.pool_rep SRAMIN d M"
  have "card (\<Union> (ran M)) \<le> card {unat (membase d SRAMIN) ..< unat (membase d SRAMIN) + unat (memsize SRAMIN)}"
    by (rule card_mono [OF _ union_bounds(1) [OF r]]) simp
  then show ?thesis by (simp add: used_def memsize_def SRAMIN_def)
qed

lemma used_add:
  assumes r: "Malloc.pool_rep SRAMIN d (M(p \<mapsto> B))" and p: "M p = None" and f: "pool_fits sz p B"
  shows "used M + unat sz \<le> used (M(p \<mapsto> B))"
proof -
  have ran: "ran (M(p \<mapsto> B)) = insert B (ran M)" using p by (simp add: ran_map_upd)
  have "C \<inter> B = {}" if C: "C \<in> ran M" for C
  proof -
    from C obtain q where q: "M q = Some C" by (auto simp: ran_def)
    then have "q \<noteq> p" using p by auto
    then show ?thesis using pool.rep_disjoint [OF r, of q C p B] q by simp
  qed
  then have dis: "\<Union> (ran M) \<inter> B = {}" by auto
  have fin: "finite (\<Union> (ran M) \<union> B)" using union_bounds(2) [OF r] ran by (auto simp: Un_commute)
  have "card {unat p ..< unat p + unat sz} \<le> card B" using f fin by (intro card_mono) (auto simp: pool_fits_def)
  then have "unat sz \<le> card B" by simp
  moreover have "used (M(p \<mapsto> B)) = card (\<Union> (ran M)) + card B"
    using card_Un_disjoint [OF _ _ dis] fin by (simp add: used_def ran Un_commute)
  ultimately show ?thesis by (simp add: used_def)
qed

lemma grab_cases:
  assumes "Malloc.pool_rep SRAMIN d M" and "\<forall>sz \<in> set szs. 0 < sz \<and> sz \<le> 2097120"
  shows "\<exists>d' ps M'. grab szs d = Some (d', ps) \<and> length ps = length szs \<and> Malloc.pool_rep SRAMIN d' M'
    \<and> (0 \<notin> set ps \<longrightarrow> used M + sum_list (map unat szs) \<le> used M')
    \<and> distinct (filter (\<lambda>p. p \<noteq> 0) ps) \<and> (\<forall>p \<in> set ps. p \<noteq> 0 \<longrightarrow> M p = None \<and> M' p \<noteq> None)
    \<and> (\<forall>p. p \<notin> set ps \<longrightarrow> M' p = M p)"
  using assms
proof (induction szs arbitrary: d M)
  case Nil
  then show ?case by (auto simp: used_def)
next
  case (Cons sz szs)
  have adm: "0 < sz \<and> sz \<le> 2097120" "\<forall>sz \<in> set szs. 0 < sz \<and> sz \<le> 2097120" using Cons.prems(2) by auto
  from Cons.prems(1) adm(1) show ?case
  proof (cases rule: pool.alloc_cases [of SRAMIN])
    case (1 d1)
    have "M 0 = None" by (rule pool.rep_null [OF 1(2)])
    moreover obtain d2 ps M2 where IH: "grab szs d1 = Some (d2, ps)" "length ps = length szs" "Malloc.pool_rep SRAMIN d2 M2"
      "0 \<notin> set ps \<longrightarrow> used M + sum_list (map unat szs) \<le> used M2"
      "distinct (filter (\<lambda>p. p \<noteq> 0) ps)" "\<forall>q \<in> set ps. q \<noteq> 0 \<longrightarrow> M q = None \<and> M2 q \<noteq> None"
      "\<forall>q. q \<notin> set ps \<longrightarrow> M2 q = M q"
      using Cons.IH [OF 1(2) adm(2)] by blast
    ultimately show ?thesis using 1(1)
      by (intro exI [of _ d2] exI [of _ "0 # ps"] exI [of _ M2]) simp
  next
    case (2 d1 p B)
    obtain d2 ps M2 where IH: "grab szs d1 = Some (d2, ps)" "length ps = length szs" "Malloc.pool_rep SRAMIN d2 M2"
      "0 \<notin> set ps \<longrightarrow> used (M(p \<mapsto> B)) + sum_list (map unat szs) \<le> used M2"
      "distinct (filter (\<lambda>p. p \<noteq> 0) ps)" "\<forall>q \<in> set ps. q \<noteq> 0 \<longrightarrow> (M(p \<mapsto> B)) q = None \<and> M2 q \<noteq> None"
      "\<forall>q. q \<notin> set ps \<longrightarrow> M2 q = (M(p \<mapsto> B)) q"
      using Cons.IH [OF 2(4) adm(2)] by blast
    have "p \<notin> set ps" using IH(6) 2(2) by fastforce
    have old: "M q = None" if "q \<in> set ps" "q \<noteq> 0" for q
    proof -
      have "(M(p \<mapsto> B)) q = None" using IH(6) that by blast
      then show ?thesis by (cases "q = p") simp_all
    qed
    have u: "used M + unat sz \<le> used (M(p \<mapsto> B))" by (rule used_add [OF 2(4,3,5)])
    show ?thesis
    proof (intro exI conjI)
      show "grab (sz # szs) d = Some (d2, p # ps)" using 2(1) IH(1) by simp
      show "Malloc.pool_rep SRAMIN d2 M2" by (rule IH(3))
      show "0 \<notin> set (p # ps) \<longrightarrow> used M + sum_list (map unat (sz # szs)) \<le> used M2" using IH(4) u by auto
      show "distinct (filter (\<lambda>p. p \<noteq> 0) (p # ps))" using IH(5) \<open>p \<notin> set ps\<close> by simp
      have "M2 p \<noteq> None" using IH(7) \<open>p \<notin> set ps\<close> by simp
      then show "\<forall>q \<in> set (p # ps). q \<noteq> 0 \<longrightarrow> M q = None \<and> M2 q \<noteq> None" using old IH(6) 2(3) by auto
      show "\<forall>q. q \<notin> set (p # ps) \<longrightarrow> M2 q = M q" using IH(7) by simp
    qed (use IH(2) in simp)
  qed
qed

lemma drops_rep:
  "Malloc.pool_rep SRAMIN d M \<Longrightarrow> distinct (filter (\<lambda>p. p \<noteq> 0) ps) \<Longrightarrow> \<forall>p \<in> set ps. p \<noteq> 0 \<longrightarrow> M p \<noteq> None
   \<Longrightarrow> \<exists>d'. drops ps d = Some d' \<and> Malloc.pool_rep SRAMIN d' (M |` (- (set ps - {0})))"
proof (induction ps arbitrary: d M)
  case (Cons p ps)
  show ?case
  proof (cases "p = 0")
    case True
    then have "myfree SRAMIN p d = Some d" by (simp add: myfree_def)
    then show ?thesis using Cons.IH [OF Cons.prems(1)] Cons.prems(2,3) True by simp
  next
    case False
    then obtain B where B: "M p = Some B" using Cons.prems(3) by auto
    obtain d1 where d1: "myfree SRAMIN p d = Some d1" "Malloc.pool_rep SRAMIN d1 (M(p := None))"
      using pool.free_rep [OF Cons.prems(1) B] by blast
    have "\<forall>q \<in> set ps. q \<noteq> 0 \<longrightarrow> (M(p := None)) q \<noteq> None" using Cons.prems(2,3) False by auto
    moreover have "distinct (filter (\<lambda>p. p \<noteq> 0) ps)" using Cons.prems(2) by (simp split: if_splits)
    ultimately obtain d2 where d2: "drops ps d1 = Some d2" "Malloc.pool_rep SRAMIN d2 ((M(p := None)) |` (- (set ps - {0})))"
      using Cons.IH [OF d1(2)] by blast
    have "(M(p := None)) |` (- (set ps - {0})) = M |` (- (set (p # ps) - {0}))"
      using False by (auto simp: restrict_map_def fun_eq_iff)
    then show ?thesis using d1(1) d2 by simp
  qed
qed (simp add: restrict_map_def)

text \<open>Requests that are given back when one of them fails.\<close>

lemma grab_or_drop:
  assumes "Malloc.pool_rep SRAMIN d M" and "\<forall>sz \<in> set szs. 0 < sz \<and> sz \<le> 2097120"
  obtains d' ps M' where "grab szs d = Some (d', ps)" and "0 \<notin> set ps" and "length ps = length szs"
      and "Malloc.pool_rep SRAMIN d' M'" and "used M + sum_list (map unat szs) \<le> used M'"
  | d' ps d'' where "grab szs d = Some (d', ps)" and "0 \<in> set ps" and "length ps = length szs"
      and "drops ps d' = Some d''" and "Malloc.pool_rep SRAMIN d'' M"
proof -
  obtain d' ps M' where g: "grab szs d = Some (d', ps)" "length ps = length szs" "Malloc.pool_rep SRAMIN d' M'"
    "0 \<notin> set ps \<longrightarrow> used M + sum_list (map unat szs) \<le> used M'" "distinct (filter (\<lambda>p. p \<noteq> 0) ps)"
    "\<forall>p \<in> set ps. p \<noteq> 0 \<longrightarrow> M p = None \<and> M' p \<noteq> None" "\<forall>p. p \<notin> set ps \<longrightarrow> M' p = M p"
    using grab_cases [OF assms] by blast
  show thesis
  proof (cases "0 \<in> set ps")
    case True
    obtain d'' where d'': "drops ps d' = Some d''" "Malloc.pool_rep SRAMIN d'' (M' |` (- (set ps - {0})))"
      using drops_rep [OF g(3,5)] g(6) by blast
    have "M' |` (- (set ps - {0})) = M"
    proof
      fix q
      have "M 0 = None" "M' 0 = None" using pool.rep_null assms(1) g(3) by blast+
      then show "(M' |` (- (set ps - {0}))) q = M q" using g(6,7) by (cases "q = 0") (auto simp: restrict_map_def)
    qed
    then show ?thesis using that(2) g(1,2) d'' True by simp
  next
    case False
    then show ?thesis using that(1) g by blast
  qed
qed

text \<open>The two allocation functions in these terms.\<close>

lemmas driver_sizes = ETH_RXBUFNB_def ETH_TXBUFNB_def ETH_RX_BUF_SIZE_def ETH_TX_BUF_SIZE_def SIZEOF_DMADESC_def

lemma ETH_Mem_Malloc_grab:
  "ETH_Mem_Malloc S = do {
     (d, ps) \<leftarrow> grab [160, 160, 7620, 7620] (mallco S);
     let S = S\<lparr>mallco := d, DMARxDscrTab := ps ! 0, DMATxDscrTab := ps ! 1, Rx_Buff := ps ! 2, Tx_Buff := ps ! 3\<rparr>;
     if 0 \<in> set ps then do { d \<leftarrow> drops ps d; Some (S\<lparr>mallco := d\<rparr>, 1) } else Some (S, 0) }"
  by (simp add: ETH_Mem_Malloc_def ETH_Mem_Free_def driver_sizes Let_def case_prod_unfold cong: if_cong)

lemma ETH_Mem_Malloc_cases:
  assumes "Malloc.pool_rep SRAMIN (mallco S) M"
  obtains S' M' where "ETH_Mem_Malloc S = Some (S', 0)" and "Malloc.pool_rep SRAMIN (mallco S') M'" and "used M + 15560 \<le> used M'"
  | S' where "ETH_Mem_Malloc S = Some (S', 1)" and "Malloc.pool_rep SRAMIN (mallco S') M"
proof -
  have "\<forall>sz \<in> set [160, 160, 7620, 7620]. 0 < sz \<and> sz \<le> (2097120 :: u32)" by (simp add: word_le_nat_alt word_less_nat_alt)
  from assms this show thesis
  proof (cases rule: grab_or_drop)
    case (1 d ps M')
    then show ?thesis
      using that(1) [of "S\<lparr>mallco := d, DMARxDscrTab := ps ! 0, DMATxDscrTab := ps ! 1, Rx_Buff := ps ! 2, Tx_Buff := ps ! 3\<rparr>" M']
      by (simp add: ETH_Mem_Malloc_grab del: grab.simps)
  next
    case (2 d ps d')
    then show ?thesis
      using that(2) [of "S\<lparr>mallco := d', DMARxDscrTab := ps ! 0, DMATxDscrTab := ps ! 1, Rx_Buff := ps ! 2, Tx_Buff := ps ! 3\<rparr>"]
      by (simp add: ETH_Mem_Malloc_grab del: grab.simps)
  qed
qed

definition memp_request :: "(memp_t \<Rightarrow> int) \<Rightarrow> u32" where
  "memp_request sizeof = word_of_int (memp_get_memorysize sizeof)"

lemma comm_mem_malloc_grab:
  "lwip_comm_mem_malloc sizeof S = do {
     (d, ps) \<leftarrow> grab [memp_request sizeof, 16028] (mallco S);
     let S = S\<lparr>mallco := d, memp_memory := ps ! 0, ram_heap := ps ! 1\<rparr>;
     if 0 \<in> set ps then do { d \<leftarrow> drops ps d; Some (S\<lparr>mallco := d\<rparr>, 1) } else Some (S, 0) }"
proof -
  have r: "ramheapsize = 16028" by (simp add: ramheapsize_def LWIP_MEM_ALIGN_SIZE_def)
  show ?thesis
    by (simp add: lwip_comm_mem_malloc_def lwip_comm_mem_free_def memp_request_def r Let_def case_prod_unfold cong: if_cong)
qed

lemma comm_mem_malloc_cases:
  assumes "Malloc.pool_rep SRAMIN (mallco S) M" and "0 < memp_request sizeof" "memp_request sizeof \<le> 2097120"
  obtains S' M' where "lwip_comm_mem_malloc sizeof S = Some (S', 0)" and "Malloc.pool_rep SRAMIN (mallco S') M'"
      and "used M + unat (memp_request sizeof) + 16028 \<le> used M'"
  | S' where "lwip_comm_mem_malloc sizeof S = Some (S', 1)" and "Malloc.pool_rep SRAMIN (mallco S') M"
proof -
  have "\<forall>sz \<in> set [memp_request sizeof, 16028]. 0 < sz \<and> sz \<le> 2097120"
    using assms(2,3) by (simp add: word_le_nat_alt word_less_nat_alt)
  from assms(1) this show thesis
  proof (cases rule: grab_or_drop)
    case (1 d ps M')
    then show ?thesis
      using that(1) [of "S\<lparr>mallco := d, memp_memory := ps ! 0, ram_heap := ps ! 1\<rparr>" M']
      by (simp add: comm_mem_malloc_grab del: grab.simps)
  next
    case (2 d ps d')
    then show ?thesis
      using that(2) [of "S\<lparr>mallco := d', memp_memory := ps ! 0, ram_heap := ps ! 1\<rparr>"]
      by (simp add: comm_mem_malloc_grab del: grab.simps)
  qed
qed

text \<open>The stack takes its memory from its own heap and pools, not from the board's pools.\<close>

definition keeps_pool :: "'s stack_ops \<Rightarrow> bool" where
  "keeps_pool ops \<longleftrightarrow> (\<forall>S. mallco (fst (LAN8720_Init ops S)) = mallco S) \<and> (\<forall>S. mallco (lwip_init ops S) = mallco S)
     \<and> (\<forall>a b c S. mallco (fst (netif_add ops a b c S)) = mallco S) \<and> (\<forall>S. mallco (dhcp_start ops S) = mallco S)
     \<and> (\<forall>S. mallco (netif_set_default ops S) = mallco S) \<and> (\<forall>S. mallco (netif_set_up ops S) = mallco S)"

definition init_bytes :: "(memp_t \<Rightarrow> int) \<Rightarrow> nat" where
  "init_bytes sizeof = 15560 + 16028 + unat (memp_request sizeof)"

lemma init_attempt:
  assumes r: "Malloc.pool_rep SRAMIN (mallco S) M" and k: "keeps_pool ops"
    and m: "0 < memp_request sizeof" "memp_request sizeof \<le> 2097120"
  shows "\<exists>S' res M'. lwip_comm_init ops sizeof sn0 S = Some (S', res) \<and> Malloc.pool_rep SRAMIN (mallco S') M'
    \<and> used M \<le> used M' \<and> (res \<noteq> 1 \<longrightarrow> used M + init_bytes sizeof \<le> used M')"
  using r
proof (cases rule: ETH_Mem_Malloc_cases)
  case (2 S1)
  then show ?thesis by (intro exI [of _ S1] exI [of _ 1] exI [of _ M]) (simp add: lwip_comm_init_def)
next
  case (1 S1 M1)
  from 1(2) m show ?thesis
  proof (cases rule: comm_mem_malloc_cases)
    case (2 S2)
    then show ?thesis using 1 by (intro exI [of _ S2] exI [of _ 1] exI [of _ M1]) (simp add: lwip_comm_init_def)
  next
    case c: (1 S2 M2)
    obtain S3 p where l: "LAN8720_Init ops S2 = (S3, p)" by fastforce
    have l3: "mallco S3 = mallco S2" using k l unfolding keeps_pool_def by (metis fst_conv)
    define S4 where S4: "S4 = (lwip_init ops S3)\<lparr>lwipdev := lwip_comm_default_ip_set sn0 (lwipdev (lwip_init ops S3))\<rparr>"
    obtain S5 ok where n: "netif_add ops 0 0 0 S4 = (S5, ok)" by fastforce
    have "mallco S4 = mallco S3" using k by (simp add: S4 keeps_pool_def)
    then have l5: "mallco S5 = mallco S2" using k n l3 unfolding keeps_pool_def by (metis fst_conv)
    define S6 where S6: "S6 = dhcp_start ops (set_status 0 S5)"
    have l6: "mallco S6 = mallco S2" using k l5 by (simp add: S6 keeps_pool_def set_status_def)
    define S7 where S7: "S7 = netif_set_up ops (netif_set_default ops S6)"
    have l7: "mallco S7 = mallco S2" using k l6 by (simp add: S7 keeps_pool_def)
    have run: "lwip_comm_init ops sizeof sn0 S = Some (if p \<noteq> 0 then (S3, 2) else if \<not> ok then (S6, 3) else (S7, 0))"
      using 1(1) c(1) l n by (simp add: lwip_comm_init_def Let_def S4 [symmetric] S6 [symmetric] S7 [symmetric])
    have u: "used M \<le> used M2" "used M + init_bytes sizeof \<le> used M2"
      using 1(3) c(3) by (simp_all add: init_bytes_def)
    show ?thesis
      using run u c(2) l3 l6 l7
      by (intro exI [of _ "if p \<noteq> 0 then S3 else if \<not> ok then S6 else S7"]
          exI [of _ "if p \<noteq> 0 then 2 else if \<not> ok then 3 else 0"] exI [of _ M2]) auto
  qed
qed

lemma init_loop_stuck:
  assumes k: "keeps_pool ops" and m: "0 < memp_request sizeof" "memp_request sizeof \<le> 2097120"
    and r: "Malloc.pool_rep SRAMIN (mallco S) M" and full: "102400 < used M + init_bytes sizeof"
  shows "main_init_loop ops sizeof sn0 S = None"
proof -
  have "ops = ops \<longrightarrow> sizeof = sizeof \<longrightarrow>
      (\<forall>M. Malloc.pool_rep SRAMIN (mallco S) M \<longrightarrow> \<not> 102400 < used M + init_bytes sizeof)"
    if "main_init_loop ops sizeof sn0 S = Some T" for S T
  proof (rule main_init_loop.raw_induct [where P = "\<lambda>ops' sizeof' _ S _. ops' = ops \<longrightarrow> sizeof' = sizeof \<longrightarrow>
      (\<forall>M. Malloc.pool_rep SRAMIN (mallco S) M \<longrightarrow> \<not> 102400 < used M + init_bytes sizeof)", OF _ that])
    fix loop ops' sizeof' sn0' S T
    assume IH: "\<And>ops' sizeof' sn0' S T. loop ops' sizeof' sn0' S = Some T \<Longrightarrow> ops' = ops \<longrightarrow> sizeof' = sizeof \<longrightarrow>
        (\<forall>M. Malloc.pool_rep SRAMIN (mallco S) M \<longrightarrow> \<not> 102400 < used M + init_bytes sizeof)"
      and body: "lwip_comm_init ops' sizeof' sn0' S \<bind>
        (\<lambda>(S, r). if r \<noteq> 0 then loop ops' sizeof' sn0' S else Some S) = Some T"
    show "ops' = ops \<longrightarrow> sizeof' = sizeof \<longrightarrow>
        (\<forall>M. Malloc.pool_rep SRAMIN (mallco S) M \<longrightarrow> \<not> 102400 < used M + init_bytes sizeof)"
    proof (intro impI allI notI)
      fix M
      assume e: "ops' = ops" "sizeof' = sizeof" and r: "Malloc.pool_rep SRAMIN (mallco S) M"
        and full: "102400 < used M + init_bytes sizeof"
      obtain S' res M' where a: "lwip_comm_init ops sizeof sn0' S = Some (S', res)" "Malloc.pool_rep SRAMIN (mallco S') M'"
          "used M \<le> used M'" "res \<noteq> 1 \<longrightarrow> used M + init_bytes sizeof \<le> used M'"
        using init_attempt [OF r k m] by blast
      have "res = 1" using a(4) used_bound [OF a(2)] full by linarith
      then have "loop ops sizeof sn0' S' = Some T" using body a(1) e by simp
      then show False using IH a(2,3) full by fastforce
    qed
  qed
  then show ?thesis using r full by (cases "main_init_loop ops sizeof sn0 S") auto
qed


text \<open>The first \<open>t\<close> blocks of the internal pool are free.\<close>

definition low_free :: "mallco_dev \<Rightarrow> nat \<Rightarrow> bool" where
  "low_free d t \<longleftrightarrow> pool_wf SRAMIN d \<and> (\<exists>B. tab (memmap d SRAMIN) B) \<and> t \<le> 3200 \<and> (\<forall>i < t. memmap d SRAMIN ! i = 0)"

lemma low_free_malloc:
  assumes l: "low_free d t" and sz: "0 < sz" "sz \<le> 2097120" and n: "blocks_of sz \<le> t"
  shows "\<exists>d' p. mymalloc SRAMIN sz d = Some (d', p) \<and> p \<noteq> 0 \<and> low_free d' (t - blocks_of sz)"
proof -
  let ?n = "blocks_of sz" and ?m = "memmap d SRAMIN"
  obtain B where w: "pool_wf SRAMIN d" and B: "tab ?m B" and t: "t \<le> 3200" "\<forall>i < t. ?m ! i = 0"
    using l by (auto simp: low_free_def)
  have len: "length ?m = 3200" using w by (simp add: pool_wf_def memtblsize_def SRAMIN_def)
  have fr: "free_run ?m (t - ?n) ?n" using t n len by (simp add: free_run_def)
  obtain k where k: "mymem_malloc SRAMIN sz d = Some (d\<lparr>memmap := (memmap d)(SRAMIN := fill ?m k ?n (of_nat ?n))\<rparr>, of_nat (32 * k))"
      "free_run ?m k ?n" "\<forall>j > k. \<not> free_run ?m j ?n"
    using mymem_malloc_run [OF w B sz] fr by blast
  have kt: "t - ?n \<le> k" using k(3) fr by (metis linorder_not_less)
  have kl: "k + ?n \<le> length ?m" using k(2) by (simp add: free_run_def)
  have n': "0 < ?n" "?n < 65536" using block_count_exact [OF sz] by auto
  have k2: "k < 6400" using kl len n'(1) by linarith
  let ?d = "d\<lparr>memmap := (memmap d)(SRAMIN := fill ?m k ?n (of_nat ?n))\<rparr>"
  have run: "mymalloc SRAMIN sz d = Some (?d, block_ptr SRAMIN d k)"
    using k(1) offset_not_error [OF k2] by (simp add: mymalloc_def block_ptr_def del: of_nat_mult)
  have "unat (memtblsize SRAMIN) = 3200" by (simp add: memtblsize_def SRAMIN_def)
  then have nz: "block_ptr SRAMIN d k \<noteq> 0" using block_ptr_unat(2) [OF w] kl len by simp
  have "pool_wf SRAMIN ?d" by (rule pool_wf_table [OF w fill_length [OF kl]])
  moreover have "tab (fill ?m k ?n (of_nat ?n)) (B(k \<mapsto> ?n))" using tab_alloc(2) [OF B k(2) n'] by blast
  moreover have "fill ?m k ?n (of_nat ?n) ! i = 0" if "i < t - ?n" for i
    using that kt t len fill_nth [OF kl, of i] by simp
  ultimately have "low_free ?d (t - ?n)" using t(1) by (auto simp: low_free_def)
  then show ?thesis using run nz by blast
qed

lemma low_free_grab:
  "low_free d t \<Longrightarrow> \<forall>sz \<in> set szs. 0 < sz \<and> sz \<le> 2097120 \<Longrightarrow> sum_list (map blocks_of szs) \<le> t \<Longrightarrow>
   \<exists>d' ps. grab szs d = Some (d', ps) \<and> 0 \<notin> set ps \<and> low_free d' (t - sum_list (map blocks_of szs))"
proof (induction szs arbitrary: d t)
  case (Cons sz szs)
  obtain d1 p where 1: "mymalloc SRAMIN sz d = Some (d1, p)" "p \<noteq> 0" "low_free d1 (t - blocks_of sz)"
    using low_free_malloc [OF Cons.prems(1), of sz] Cons.prems(2,3) by auto
  obtain d2 ps where 2: "grab szs d1 = Some (d2, ps)" "0 \<notin> set ps"
      "low_free d2 (t - blocks_of sz - sum_list (map blocks_of szs))"
  proof -
    have "sum_list (map blocks_of szs) \<le> t - blocks_of sz" using Cons.prems(3) by simp
    then show ?thesis using Cons.IH [OF 1(3)] Cons.prems(2) that by auto
  qed
  then show ?case using 1(1,2) by (simp add: diff_diff_add)
qed simp

subsection \<open>A board whose PHY does not answer, for the instances\<close>

definition deaf :: "unit stack_ops" where
  "deaf = \<lparr>tcp_tmr = id, etharp_tmr = id, dhcp_fine_tmr = id, dhcp_coarse_tmr = id, dhcp_start = id,
     LAN8720_Init = (\<lambda>S. (S, 1)), lwip_init = id, netif_add = (\<lambda>a b c S. (S, True)),
     netif_set_default = id, netif_set_up = id\<rparr>"

definition comm0 :: "unit comm" where
  "comm0 = \<lparr>mallco = dev0, DMARxDscrTab = 0, DMATxDscrTab = 0, Rx_Buff = 0, Tx_Buff = 0, memp_memory = 0, ram_heap = 0,
     lwipdev = \<lparr>mac = replicate 6 0, remoteip = replicate 4 0, dev_ip = replicate 4 0, dev_netmask = replicate 4 0,
       dev_gateway = replicate 4 0, dhcpstatus = 0\<rparr>,
     netif_ip = 0, netif_netmask = 0, netif_gw = 0, netif_dhcp = Some 0, TCPTimer = 0, ARPTimer = 0, DHCPfineTimer = 0,
     DHCPcoarseTimer = 0, lwip_localtime = 0, tim3_i = 0, LED0 = False, stack = ()\<rparr>"

lemma request40: "memp_request (\<lambda>_. 40) = 13483"
  by (simp add: memp_request_def memp_get_memorysize_def memp_types_def memp_sizes_def memp_num_def
    LWIP_MEM_ALIGN_SIZE_def SIZEOF_STRUCT_PBUF_def PBUF_POOL_BUFSIZE_ALIGNED_def)

lemma deaf_attempt:
  assumes "low_free (mallco S) t" and "1411 \<le> t"
  shows "\<exists>S'. lwip_comm_init deaf (\<lambda>_. 40) sn0 S = Some (S', 2) \<and> low_free (mallco S') (t - 1411)"
proof -
  have b: "blocks_of 160 = 5" "blocks_of 7620 = 239" "blocks_of 13483 = 422" "blocks_of 16028 = 501"
    by (simp_all add: blocks_of_def)
  obtain d1 ps1 where 1: "grab [160, 160, 7620, 7620] (mallco S) = Some (d1, ps1)" "0 \<notin> set ps1" "low_free d1 (t - 488)"
    using low_free_grab [OF assms(1), of "[160, 160, 7620, 7620]"] assms(2) by (auto simp: b word_le_nat_alt word_less_nat_alt)
  obtain d2 ps2 where 2: "grab [13483, 16028] d1 = Some (d2, ps2)" "0 \<notin> set ps2" "low_free d2 (t - 488 - 923)"
  proof -
    have "sum_list (map blocks_of [13483, 16028]) \<le> t - 488" using assms(2) by (simp add: b)
    moreover have "\<forall>sz \<in> set [13483, 16028]. 0 < sz \<and> sz \<le> (2097120 :: u32)" by (simp add: word_le_nat_alt word_less_nat_alt)
    ultimately show ?thesis using low_free_grab [OF 1(3), of "[13483, 16028]"] that by (auto simp: b simp del: grab.simps)
  qed
  show ?thesis using 1 2
    by (simp add: lwip_comm_init_def ETH_Mem_Malloc_grab comm_mem_malloc_grab request40 deaf_def del: grab.simps)
qed


subsection \<open>The DHCP state machine\<close>

lemma IP4_ADDR_bytes: "IP4_ADDR (ucast a) (ucast (drop_bit 8 a)) (ucast (drop_bit 16 a)) (ucast (drop_bit 24 a)) = (a :: u32)"
proof (rule bit_word_eqI)
  fix n :: nat
  assume "n < LENGTH(32)"
  then have n: "n < 32" by simp
  consider "n < 8" | "8 \<le> n" "n < 16" | "16 \<le> n" "n < 24" | "24 \<le> n" by linarith
  then show "bit (IP4_ADDR (ucast a) (ucast (drop_bit 8 a)) (ucast (drop_bit 16 a)) (ucast (drop_bit 24 a))) n = bit a n"
    using n by cases (auto simp: IP4_ADDR_def bit_or_iff bit_push_bit_iff bit_ucast_iff bit_drop_bit_eq)
qed



subsection \<open>The rates of the timers\<close>

text \<open>\<open>n\<close> timer interrupts, with one call of the polling function after each.\<close>

fun poll_run :: "'s stack_ops \<Rightarrow> nat \<Rightarrow> 's comm \<Rightarrow> 's comm option" where
  "poll_run ops 0 S = Some S"
| "poll_run ops (Suc n) S = do { S \<leftarrow> poll_run ops n S; lwip_periodic_handle ops (TIM3_IRQHandler True S) }"

definition clocks :: "'s comm \<Rightarrow> u32 \<times> u32 \<times> u32 \<times> u32 \<times> u32" where
  "clocks S = (TCPTimer S, ARPTimer S, DHCPfineTimer S, DHCPcoarseTimer S, lwip_localtime S)"

text \<open>
  The stack does not touch the timers of lwip_comm.c nor drop its DHCP data, and \<open>c i\<close> counts the
  calls of the \<open>i\<close>-th timer function.
\<close>

definition counted :: "'s stack_ops \<Rightarrow> (nat \<Rightarrow> 's \<Rightarrow> nat) \<Rightarrow> bool" where
  "counted ops c \<longleftrightarrow>
     (\<forall>(i, f) \<in> {(0, tcp_tmr ops), (1, etharp_tmr ops), (2, dhcp_fine_tmr ops), (3, dhcp_coarse_tmr ops), (4, dhcp_start ops)}.
        \<forall>S. clocks (f S) = clocks S \<and> (netif_dhcp S \<noteq> None \<longrightarrow> netif_dhcp (f S) \<noteq> None)
          \<and> (\<forall>j < 4. c j (stack (f S)) = c j (stack S) + (if j = i then 1 else 0)))"

lemma countedD:
  assumes "counted ops c"
  shows "clocks (tcp_tmr ops S) = clocks S" "clocks (etharp_tmr ops S) = clocks S" "clocks (dhcp_fine_tmr ops S) = clocks S"
    "clocks (dhcp_coarse_tmr ops S) = clocks S" "clocks (dhcp_start ops S) = clocks S"
    "netif_dhcp S \<noteq> None \<Longrightarrow> netif_dhcp (tcp_tmr ops S) \<noteq> None" "netif_dhcp S \<noteq> None \<Longrightarrow> netif_dhcp (etharp_tmr ops S) \<noteq> None"
    "netif_dhcp S \<noteq> None \<Longrightarrow> netif_dhcp (dhcp_fine_tmr ops S) \<noteq> None" "netif_dhcp S \<noteq> None \<Longrightarrow> netif_dhcp (dhcp_coarse_tmr ops S) \<noteq> None"
    "netif_dhcp S \<noteq> None \<Longrightarrow> netif_dhcp (dhcp_start ops S) \<noteq> None"
    "j < 4 \<Longrightarrow> c j (stack (tcp_tmr ops S)) = c j (stack S) + (if j = 0 then 1 else 0)"
    "j < 4 \<Longrightarrow> c j (stack (etharp_tmr ops S)) = c j (stack S) + (if j = 1 then 1 else 0)"
    "j < 4 \<Longrightarrow> c j (stack (dhcp_fine_tmr ops S)) = c j (stack S) + (if j = 2 then 1 else 0)"
    "j < 4 \<Longrightarrow> c j (stack (dhcp_coarse_tmr ops S)) = c j (stack S) + (if j = 3 then 1 else 0)"
    "j < 4 \<Longrightarrow> c j (stack (dhcp_start ops S)) = c j (stack S)"
  using assms by (simp_all add: counted_def)

lemma process_handle_quiet:
  assumes "counted ops c" and "netif_dhcp S \<noteq> None"
  shows "\<exists>T. lwip_dhcp_process_handle ops S = Some T \<and> clocks T = clocks S \<and> netif_dhcp T \<noteq> None
    \<and> (\<forall>j < 4. c j (stack T) = c j (stack S))"
  using assms(2) countedD(5,10,15) [OF assms(1)]
  by (auto simp: lwip_dhcp_process_handle_def set_status_def clocks_def Let_def split: option.splits)

lemma timer_due:
  assumes "r < K" and "K \<le> 6000"
  shows "(of_nat (10 * r) + 10 :: u32) \<ge> of_nat (10 * K) \<longleftrightarrow> Suc r = K"
proof -
  have "unat (of_nat (10 * r) + 10 :: u32) = 10 * r + 10" "unat (of_nat (10 * K) :: u32) = 10 * K"
    using assms by (simp_all add: unat_word_ariths unat_of_nat)
  then show ?thesis using assms(1) by (auto simp: word_le_nat_alt)
qed

lemma mod_div_Suc: "Suc (n mod K) = K \<Longrightarrow> Suc n mod K = 0 \<and> Suc n div K = Suc (n div K)"
    "Suc (n mod K) \<noteq> K \<Longrightarrow> Suc n mod K = Suc (n mod K) \<and> Suc n div K = n div K"
  by (auto simp: mod_Suc div_Suc)

text \<open>One timer: what its difference to the time is after \<open>n\<close> interrupts and polls.\<close>

lemma timer_step:
  assumes d: "t - tm = of_nat (10 * (n mod K))" and K: "0 < K" "K \<le> 6000"
  shows "(t + 10 - tm \<ge> (of_nat (10 * K) :: u32)) = (Suc (n mod K) = K)"
    and "(t + 10) - (if Suc (n mod K) = K then t + 10 else tm) = of_nat (10 * (Suc n mod K))"
    and "Suc n div K = n div K + (if Suc (n mod K) = K then 1 else 0)"
proof -
  have e: "t + 10 - tm = of_nat (10 * (n mod K)) + 10" using d by (simp add: algebra_simps)
  show "(t + 10 - tm \<ge> of_nat (10 * K)) = (Suc (n mod K) = K)"
    unfolding e by (rule timer_due) (use K in auto)
  show "(t + 10) - (if Suc (n mod K) = K then t + 10 else tm) = of_nat (10 * (Suc n mod K))"
    using mod_div_Suc [of n K] e by auto
  show "Suc n div K = n div K + (if Suc (n mod K) = K then 1 else 0)" using mod_div_Suc [of n K] by auto
qed

definition due_state :: "(nat \<Rightarrow> 's \<Rightarrow> nat) \<Rightarrow> (nat \<Rightarrow> nat) \<Rightarrow> nat \<Rightarrow> 's comm \<Rightarrow> bool" where
  "due_state c c0 n S \<longleftrightarrow>
     lwip_localtime S - TCPTimer S = of_nat (10 * (n mod 25)) \<and> lwip_localtime S - ARPTimer S = of_nat (10 * (n mod 500))
   \<and> lwip_localtime S - DHCPfineTimer S = of_nat (10 * (n mod 50)) \<and> lwip_localtime S - DHCPcoarseTimer S = of_nat (10 * (n mod 6000))
   \<and> netif_dhcp S \<noteq> None
   \<and> c 0 (stack S) = c0 0 + n div 25 \<and> c 1 (stack S) = c0 1 + n div 500 \<and> c 2 (stack S) = c0 2 + n div 50
   \<and> c 3 (stack S) = c0 3 + n div 6000"

lemma poll_step:
  assumes k: "counted ops c" and i: "due_state c c0 n S"
  shows "\<exists>T. lwip_periodic_handle ops (TIM3_IRQHandler True S) = Some T \<and> due_state c c0 (Suc n) T
    \<and> lwip_localtime T = lwip_localtime S + 10"
proof -
  let ?t = "lwip_localtime S"
  note D = countedD [OF k]
  note T1 = timer_step [of ?t "TCPTimer S" n 25] and T2 = timer_step [of ?t "ARPTimer S" n 500]
    and T3 = timer_step [of ?t "DHCPfineTimer S" n 50] and T4 = timer_step [of ?t "DHCPcoarseTimer S" n 6000]
  have d: "?t - TCPTimer S = of_nat (10 * (n mod 25))" "?t - ARPTimer S = of_nat (10 * (n mod 500))"
    "?t - DHCPfineTimer S = of_nat (10 * (n mod 50))" "?t - DHCPcoarseTimer S = of_nat (10 * (n mod 6000))"
    using i by (simp_all add: due_state_def)
  define S0 where "S0 = TIM3_IRQHandler True S"
  have S0: "clocks S0 = (TCPTimer S, ARPTimer S, DHCPfineTimer S, DHCPcoarseTimer S, ?t + 10)" "netif_dhcp S0 \<noteq> None"
      "stack S0 = stack S"
    using i by (simp_all add: S0_def TIM3_IRQHandler_def clocks_def due_state_def Let_def)
  define S1 where "S1 = (if lwip_localtime S0 - TCPTimer S0 \<ge> 250 then tcp_tmr ops (S0\<lparr>TCPTimer := lwip_localtime S0\<rparr>) else S0)"
  have S1: "clocks S1 = (if Suc (n mod 25) = 25 then ?t + 10 else TCPTimer S, ARPTimer S, DHCPfineTimer S, DHCPcoarseTimer S, ?t + 10)"
      "netif_dhcp S1 \<noteq> None" "\<forall>j < 4. c j (stack S1) = c j (stack S) + (if j = 0 \<and> Suc (n mod 25) = 25 then 1 else 0)"
    using S0 T1(1) [OF d(1)] D(1) [of "S0\<lparr>TCPTimer := lwip_localtime S0\<rparr>"] D(6) [of "S0\<lparr>TCPTimer := lwip_localtime S0\<rparr>"]
      D(11) [of _ "S0\<lparr>TCPTimer := lwip_localtime S0\<rparr>"]
    by (auto simp: S1_def clocks_def)
  define S2 where "S2 = (if lwip_localtime S1 - ARPTimer S1 \<ge> 5000 then etharp_tmr ops (S1\<lparr>ARPTimer := lwip_localtime S1\<rparr>) else S1)"
  have S2: "clocks S2 = (if Suc (n mod 25) = 25 then ?t + 10 else TCPTimer S, if Suc (n mod 500) = 500 then ?t + 10 else ARPTimer S,
        DHCPfineTimer S, DHCPcoarseTimer S, ?t + 10)"
      "netif_dhcp S2 \<noteq> None" "\<forall>j < 4. c j (stack S2) = c j (stack S1) + (if j = 1 \<and> Suc (n mod 500) = 500 then 1 else 0)"
    using S1 T2(1) [OF d(2)] D(2) [of "S1\<lparr>ARPTimer := lwip_localtime S1\<rparr>"] D(7) [of "S1\<lparr>ARPTimer := lwip_localtime S1\<rparr>"]
      D(12) [of _ "S1\<lparr>ARPTimer := lwip_localtime S1\<rparr>"]
    by (auto simp: S2_def clocks_def)
  define F where "F = dhcp_fine_tmr ops (S2\<lparr>DHCPfineTimer := lwip_localtime S2\<rparr>)"
  have F: "clocks F = (TCPTimer S2, ARPTimer S2, ?t + 10, DHCPcoarseTimer S, ?t + 10)" "netif_dhcp F \<noteq> None"
      "\<forall>j < 4. c j (stack F) = c j (stack S2) + (if j = 2 then 1 else 0)"
    using S2 D(3) [of "S2\<lparr>DHCPfineTimer := lwip_localtime S2\<rparr>"] D(8) [of "S2\<lparr>DHCPfineTimer := lwip_localtime S2\<rparr>"]
      D(13) [of _ "S2\<lparr>DHCPfineTimer := lwip_localtime S2\<rparr>"]
    by (auto simp: F_def clocks_def)
  obtain G where G: "(if dhcpstatus (lwipdev F) \<noteq> 2 \<and> dhcpstatus (lwipdev F) \<noteq> 0xFF then lwip_dhcp_process_handle ops F else Some F) = Some G"
      "clocks G = clocks F" "netif_dhcp G \<noteq> None" "\<forall>j < 4. c j (stack G) = c j (stack F)"
    using process_handle_quiet [OF k F(2)] F(2) by (cases "dhcpstatus (lwipdev F) \<noteq> 2 \<and> dhcpstatus (lwipdev F) \<noteq> 0xFF") auto
  define S3 where "S3 = (if lwip_localtime S2 - DHCPfineTimer S2 \<ge> 500 then G else S2)"
  have S3: "clocks S3 = (if Suc (n mod 25) = 25 then ?t + 10 else TCPTimer S, if Suc (n mod 500) = 500 then ?t + 10 else ARPTimer S,
        if Suc (n mod 50) = 50 then ?t + 10 else DHCPfineTimer S, DHCPcoarseTimer S, ?t + 10)"
      "netif_dhcp S3 \<noteq> None" "\<forall>j < 4. c j (stack S3) = c j (stack S2) + (if j = 2 \<and> Suc (n mod 50) = 50 then 1 else 0)"
    using S2 F G(2-4) T3(1) [OF d(3)] by (auto simp: S3_def clocks_def)
  define T where "T = (if lwip_localtime S3 - DHCPcoarseTimer S3 \<ge> 60000
      then dhcp_coarse_tmr ops (S3\<lparr>DHCPcoarseTimer := lwip_localtime S3\<rparr>) else S3)"
  have T: "clocks T = (if Suc (n mod 25) = 25 then ?t + 10 else TCPTimer S, if Suc (n mod 500) = 500 then ?t + 10 else ARPTimer S,
        if Suc (n mod 50) = 50 then ?t + 10 else DHCPfineTimer S, if Suc (n mod 6000) = 6000 then ?t + 10 else DHCPcoarseTimer S, ?t + 10)"
      "netif_dhcp T \<noteq> None" "\<forall>j < 4. c j (stack T) = c j (stack S3) + (if j = 3 \<and> Suc (n mod 6000) = 6000 then 1 else 0)"
    using S3 T4(1) [OF d(4)] D(4) [of "S3\<lparr>DHCPcoarseTimer := lwip_localtime S3\<rparr>"] D(9) [of "S3\<lparr>DHCPcoarseTimer := lwip_localtime S3\<rparr>"]
      D(14) [of _ "S3\<lparr>DHCPcoarseTimer := lwip_localtime S3\<rparr>"]
    by (auto simp: T_def clocks_def)
  have run: "lwip_periodic_handle ops S0 = Some T"
    using G(1) by (simp add: lwip_periodic_handle_def Let_def S1_def [symmetric] S2_def [symmetric] F_def [symmetric] S3_def T_def)
  have cl: "TCPTimer T = (if Suc (n mod 25) = 25 then ?t + 10 else TCPTimer S)"
    "ARPTimer T = (if Suc (n mod 500) = 500 then ?t + 10 else ARPTimer S)"
    "DHCPfineTimer T = (if Suc (n mod 50) = 50 then ?t + 10 else DHCPfineTimer S)"
    "DHCPcoarseTimer T = (if Suc (n mod 6000) = 6000 then ?t + 10 else DHCPcoarseTimer S)" "lwip_localtime T = ?t + 10"
    using T(1) by (simp_all add: clocks_def)
  have cn: "c 0 (stack T) = c0 0 + Suc n div 25" "c 1 (stack T) = c0 1 + Suc n div 500"
    "c 2 (stack T) = c0 2 + Suc n div 50" "c 3 (stack T) = c0 3 + Suc n div 6000"
    using i S1(3) S2(3) S3(3) T(3) T1(3) [OF d(1)] T2(3) [OF d(2)] T3(3) [OF d(3)] T4(3) [OF d(4)]
    by (simp_all add: due_state_def)
  have df: "lwip_localtime T - TCPTimer T = of_nat (10 * (Suc n mod 25))" "lwip_localtime T - ARPTimer T = of_nat (10 * (Suc n mod 500))"
    "lwip_localtime T - DHCPfineTimer T = of_nat (10 * (Suc n mod 50))" "lwip_localtime T - DHCPcoarseTimer T = of_nat (10 * (Suc n mod 6000))"
    using T1(2) [OF d(1)] T2(2) [OF d(2)] T3(2) [OF d(3)] T4(2) [OF d(4)] unfolding cl by simp_all
  show ?thesis
    using run cn df T(2) cl(5) unfolding due_state_def S0_def by (intro exI [of _ T]) simp
qed

text \<open>
  C5: when the polling function is called after every timer interrupt, the timer functions of the
  stack are called exactly every 25th, 500th, 50th and 6000th interrupt (250 ms, 5 s, 500 ms,
  60 s), for ever: also when the 32-bit clock wraps, and whatever DHCP does.
\<close>

theorem lwip_periodic_rates:
  assumes "counted ops c" and "netif_dhcp S0 \<noteq> None"
    and "clocks S0 = (t, t, t, t, t)"
  shows "\<exists>S. poll_run ops n S0 = Some S \<and> lwip_localtime S = t + of_nat (10 * n)
    \<and> c 0 (stack S) = c 0 (stack S0) + n div 25 \<and> c 1 (stack S) = c 1 (stack S0) + n div 500
    \<and> c 2 (stack S) = c 2 (stack S0) + n div 50 \<and> c 3 (stack S) = c 3 (stack S0) + n div 6000"
proof -
  have "\<exists>S. poll_run ops n S0 = Some S \<and> due_state c (\<lambda>j. c j (stack S0)) n S \<and> lwip_localtime S = t + of_nat (10 * n)"
  proof (induction n)
    case 0
    then show ?case using assms(2,3) by (simp add: due_state_def clocks_def)
  next
    case (Suc n)
    then obtain S where S: "poll_run ops n S0 = Some S" "due_state c (\<lambda>j. c j (stack S0)) n S" "lwip_localtime S = t + of_nat (10 * n)"
      by blast
    from poll_step [OF assms(1) S(2)] S(1,3) show ?case by (auto simp: algebra_simps)
  qed
  then show ?thesis by (auto simp: due_state_def)
qed

text \<open>A stack that only counts the calls.\<close>

definition counting :: "(nat \<Rightarrow> nat) stack_ops" where
  "counting = (let tick = (\<lambda>j S. S\<lparr>stack := (stack S)(j := stack S j + 1)\<rparr>) in
     \<lparr>tcp_tmr = tick 0, etharp_tmr = tick 1, dhcp_fine_tmr = tick 2, dhcp_coarse_tmr = tick 3, dhcp_start = id,
      LAN8720_Init = (\<lambda>S. (S, 0)), lwip_init = id, netif_add = (\<lambda>a b c S. (S, True)), netif_set_default = id, netif_set_up = id\<rparr>)"

definition comm_late :: "(nat \<Rightarrow> nat) comm" where
  "comm_late = \<lparr>mallco = dev0, DMARxDscrTab = 0, DMATxDscrTab = 0, Rx_Buff = 0, Tx_Buff = 0, memp_memory = 0, ram_heap = 0,
     lwipdev = lwipdev comm0, netif_ip = 0, netif_netmask = 0, netif_gw = 0, netif_dhcp = Some 0,
     TCPTimer = 0xFFFFFFF0, ARPTimer = 0xFFFFFFF0, DHCPfineTimer = 0xFFFFFFF0, DHCPcoarseTimer = 0xFFFFFFF0,
     lwip_localtime = 0xFFFFFFF0, tim3_i = 0, LED0 = False, stack = (\<lambda>_. 0)\<rparr>"

theorem lwip_periodic_rates_witness:
  "\<exists>S. poll_run counting 100 comm_late = Some S \<and> lwip_localtime S = 984 \<and> stack S 0 = 4 \<and> stack S 2 = 2"
proof -
  have "counted counting (\<lambda>j f. f j)"
    by (simp add: counted_def counting_def clocks_def Let_def)
  from lwip_periodic_rates [OF this, of comm_late "0xFFFFFFF0" 100] show ?thesis
    by (auto simp: comm_late_def clocks_def)
qed

end
