(* ===== verification/Eth_Driver.thy ===== *)
theory Eth_Driver
  imports Pbuf
begin

unbundle bit_operations_syntax

text \<open>
  Model of the network interface: the descriptor rings of HARDWARE/ETHERNET/lan8720.c (with the
  functions of FWLIB/STM32F4x7_ETH_Driver it uses) and netif/ethernetif.c, which moves packets
  between the rings and packet buffers. Descriptors are addressed by their pointer; the octets of
  the DMA buffers are in the memory of the network state (\<open>netw\<close>). \<open>DMASR\<close> is the status register
  (a written 1 clears a bit) and \<open>DMARPDR\<close>, \<open>DMATPDR\<close> count the poll demands. The state of the layers
  above is the field \<open>upper\<close>; \<open>netif->input\<close> is a parameter.
\<close>

subsection \<open>Data\<close>

record dma_desc =
  Status :: u32
  ControlBufferSize :: u32
  Buffer1Addr :: ptr
  Buffer2NextDescAddr :: ptr

record 'u eth =
  netw :: net
  descs :: "ptr \<Rightarrow> dma_desc"
  DMARxDescToGet :: ptr
  DMATxDescToSet :: ptr
  DMASR :: u32
  DMARPDR :: nat
  DMATPDR :: nat
  DMARDLAR :: ptr
  DMATDLAR :: ptr
  upper :: 'u

record FrameTypeDef =
  f_length :: u32
  f_buffer :: ptr
  f_descriptor :: ptr

definition ETH_DMARxDesc_OWN :: u32 where "ETH_DMARxDesc_OWN = 0x80000000"
definition ETH_DMARxDesc_FL :: u32 where "ETH_DMARxDesc_FL = 0x3FFF0000"
definition ETH_DMARxDesc_ES :: u32 where "ETH_DMARxDesc_ES = 0x00008000"
definition ETH_DMARxDesc_RCH :: u32 where "ETH_DMARxDesc_RCH = 0x00004000"
definition ETH_DMARxDesc_FS :: u32 where "ETH_DMARxDesc_FS = 0x00000200"
definition ETH_DMARxDesc_LS :: u32 where "ETH_DMARxDesc_LS = 0x00000100"
definition ETH_DMATxDesc_OWN :: u32 where "ETH_DMATxDesc_OWN = 0x80000000"
definition ETH_DMATxDesc_LS :: u32 where "ETH_DMATxDesc_LS = 0x20000000"
definition ETH_DMATxDesc_FS :: u32 where "ETH_DMATxDesc_FS = 0x10000000"
definition ETH_DMATxDesc_TCH :: u32 where "ETH_DMATxDesc_TCH = 0x00100000"
definition ETH_DMATxDesc_TBS1 :: u32 where "ETH_DMATxDesc_TBS1 = 0x00001FFF"
definition ETH_DMASR_RBUS :: u32 where "ETH_DMASR_RBUS = 0x00000080"
definition ETH_DMASR_TBUS :: u32 where "ETH_DMASR_TBUS = 0x00000004"
definition ETH_DMA_IT_R :: u32 where "ETH_DMA_IT_R = 0x00000040"
definition ETH_DMA_IT_NIS :: u32 where "ETH_DMA_IT_NIS = 0x00010000"

lemmas rx_bits = ETH_DMARxDesc_OWN_def ETH_DMARxDesc_FL_def ETH_DMARxDesc_ES_def ETH_DMARxDesc_FS_def ETH_DMARxDesc_LS_def
lemmas tx_bits = ETH_DMATxDesc_OWN_def ETH_DMATxDesc_LS_def ETH_DMATxDesc_FS_def ETH_DMATxDesc_TCH_def ETH_DMATxDesc_TBS1_def

abbreviation status :: "'u eth \<Rightarrow> ptr \<Rightarrow> u32" where "status S d \<equiv> Status (descs S d)"

definition upd_desc :: "ptr \<Rightarrow> (dma_desc \<Rightarrow> dma_desc) \<Rightarrow> 'u eth \<Rightarrow> 'u eth" where
  "upd_desc d f S = S\<lparr>descs := (descs S)(d := f (descs S d))\<rparr>"

definition write_DMASR :: "u32 \<Rightarrow> 'u eth \<Rightarrow> 'u eth" where
  "write_DMASR v S = S\<lparr>DMASR := DMASR S AND NOT v\<rparr>"

subsection \<open>The rings\<close>

text \<open>\<open>sizeof(ETH_DMADESCTypeDef)\<close> is 32 with the enhanced descriptors, \<open>ETH_RX_BUF_SIZE\<close> and \<open>ETH_TX_BUF_SIZE\<close> are 1524.\<close>

fun rx_chain_loop :: "nat \<Rightarrow> ptr \<Rightarrow> ptr \<Rightarrow> nat \<Rightarrow> 'u eth \<Rightarrow> 'u eth" where
  "rx_chain_loop 0 tab buf cnt S = S"
| "rx_chain_loop (Suc k) tab buf cnt S =
     (let i = cnt - Suc k;
          S = upd_desc (tab + 32 * int i) (\<lambda>d. d\<lparr>Status := ETH_DMARxDesc_OWN,
                ControlBufferSize := ETH_DMARxDesc_RCH OR 1524, Buffer1Addr := buf + int i * 1524,
                Buffer2NextDescAddr := (if i < cnt - 1 then tab + 32 * (int i + 1) else tab)\<rparr>) S
      in rx_chain_loop k tab buf cnt S)"

definition ETH_DMARxDescChainInit :: "ptr \<Rightarrow> ptr \<Rightarrow> nat \<Rightarrow> 'u eth \<Rightarrow> 'u eth" where
  "ETH_DMARxDescChainInit tab buf cnt S =
     (let S = S\<lparr>DMARxDescToGet := tab\<rparr>;
          S = rx_chain_loop cnt tab buf cnt S
      in S\<lparr>DMARDLAR := tab\<rparr>)"

fun tx_chain_loop :: "nat \<Rightarrow> ptr \<Rightarrow> ptr \<Rightarrow> nat \<Rightarrow> 'u eth \<Rightarrow> 'u eth" where
  "tx_chain_loop 0 tab buf cnt S = S"
| "tx_chain_loop (Suc k) tab buf cnt S =
     (let i = cnt - Suc k;
          S = upd_desc (tab + 32 * int i) (\<lambda>d. d\<lparr>Status := ETH_DMATxDesc_TCH, Buffer1Addr := buf + int i * 1524,
                Buffer2NextDescAddr := (if i < cnt - 1 then tab + 32 * (int i + 1) else tab)\<rparr>) S
      in tx_chain_loop k tab buf cnt S)"

definition ETH_DMATxDescChainInit :: "ptr \<Rightarrow> ptr \<Rightarrow> nat \<Rightarrow> 'u eth \<Rightarrow> 'u eth" where
  "ETH_DMATxDescChainInit tab buf cnt S =
     (let S = S\<lparr>DMATxDescToSet := tab\<rparr>;
          S = tx_chain_loop cnt tab buf cnt S
      in S\<lparr>DMATDLAR := tab\<rparr>)"

definition ETH_GetDMARxDescFrameLength :: "ptr \<Rightarrow> 'u eth \<Rightarrow> u32" where
  "ETH_GetDMARxDescFrameLength d S = drop_bit 16 (status S d AND ETH_DMARxDesc_FL)"

definition ETH_GetRxPktSize :: "ptr \<Rightarrow> 'u eth \<Rightarrow> u32" where
  "ETH_GetRxPktSize d S =
     (if status S d AND ETH_DMARxDesc_OWN = 0 \<and> status S d AND ETH_DMARxDesc_ES = 0 \<and> status S d AND ETH_DMARxDesc_LS \<noteq> 0
      then ETH_GetDMARxDescFrameLength d S else 0)"

text \<open>Bits of a status register cleared and the DMA restarted.\<close>

definition rx_resume :: "'u eth \<Rightarrow> 'u eth" where
  "rx_resume S =
     (if DMASR S AND ETH_DMASR_RBUS \<noteq> 0
      then let S = write_DMASR ETH_DMASR_RBUS S in S\<lparr>DMARPDR := DMARPDR S + 1\<rparr>
      else S)"

definition ETH_Rx_Packet :: "'u eth \<Rightarrow> 'u eth \<times> FrameTypeDef" where
  "ETH_Rx_Packet S =
     (let get = DMARxDescToGet S in
      if status S get AND ETH_DMARxDesc_OWN \<noteq> 0 then
        (rx_resume S, \<lparr>f_length = 0, f_buffer = 0, f_descriptor = NULL\<rparr>)
      else
        let ok = (status S get AND ETH_DMARxDesc_ES = 0 \<and> status S get AND ETH_DMARxDesc_LS \<noteq> 0
                  \<and> status S get AND ETH_DMARxDesc_FS \<noteq> 0);
            frame = \<lparr>f_length = (if ok then drop_bit 16 (status S get AND ETH_DMARxDesc_FL) - 4 else 0),
                     f_buffer = (if ok then Buffer1Addr (descs S get) else 0), f_descriptor = get\<rparr>
        in (S\<lparr>DMARxDescToGet := Buffer2NextDescAddr (descs S get)\<rparr>, frame))"

definition ETH_Tx_Packet :: "u16 \<Rightarrow> 'u eth \<Rightarrow> 'u eth \<times> u8" where
  "ETH_Tx_Packet FrameLength S =
     (let set = DMATxDescToSet S in
      if status S set AND ETH_DMATxDesc_OWN \<noteq> 0 then (S, 0)
      else
        let S = upd_desc set (\<lambda>d. d\<lparr>ControlBufferSize := ucast FrameLength AND ETH_DMATxDesc_TBS1\<rparr>) S;
            S = upd_desc set (\<lambda>d. d\<lparr>Status := Status d OR (ETH_DMATxDesc_LS OR ETH_DMATxDesc_FS)\<rparr>) S;
            S = upd_desc set (\<lambda>d. d\<lparr>Status := Status d OR ETH_DMATxDesc_OWN\<rparr>) S;
            S = (if DMASR S AND ETH_DMASR_TBUS \<noteq> 0
                 then let S = write_DMASR ETH_DMASR_TBUS S in S\<lparr>DMATPDR := DMATPDR S + 1\<rparr>
                 else S)
        in (S\<lparr>DMATxDescToSet := Buffer2NextDescAddr (descs S (DMATxDescToSet S))\<rparr>, 1))"

definition ETH_GetCurrentTxBuffer :: "'u eth \<Rightarrow> ptr" where
  "ETH_GetCurrentTxBuffer S = Buffer1Addr (descs S (DMATxDescToSet S))"

subsection \<open>The interface\<close>

text \<open>The loops that copy a packet to a DMA buffer and a frame into a packet.\<close>

partial_function (option) gather :: "ptr \<Rightarrow> ptr \<Rightarrow> int \<Rightarrow> net \<Rightarrow> (net \<times> int) option" where
  "gather buffer q l N =
     (if q \<noteq> NULL then
        let N = upd_bytes (memcpy (buffer + l) (ppay N q) (uint (plen N q))) N
        in gather buffer (pnx N q) (l + uint (plen N q)) N
      else Some (N, l))"

partial_function (option) scatter :: "ptr \<Rightarrow> ptr \<Rightarrow> int \<Rightarrow> net \<Rightarrow> net option" where
  "scatter buffer q l N =
     (if q \<noteq> NULL then
        let N = upd_bytes (memcpy (ppay N q) (buffer + l) (uint (plen N q))) N
        in scatter buffer (pnx N q) (l + uint (plen N q)) N
      else Some N)"

definition low_level_output :: "ptr \<Rightarrow> 'u eth \<Rightarrow> ('u eth \<times> err_t) option" where
  "low_level_output p S = do {
     (N, l) \<leftarrow> gather (ETH_GetCurrentTxBuffer S) p 0 (netw S);
     let (S, res) = ETH_Tx_Packet (word_of_int l) (S\<lparr>netw := N\<rparr>);
     Some (S, if res = 0 then ERR_MEM else ERR_OK) }"

definition low_level_input :: "'u eth \<Rightarrow> ('u eth \<times> ptr) option" where
  "low_level_input S = do {
     let (S, frame) = ETH_Rx_Packet S;
     (N, p) \<leftarrow> pbuf_alloc PBUF_RAW (ucast (f_length frame)) PBUF_POOL (netw S);
     N \<leftarrow> (if p \<noteq> NULL then scatter (f_buffer frame) p 0 N else Some N);
     if f_descriptor frame = NULL then None
     else do {
       let S = upd_desc (f_descriptor frame) (\<lambda>d. d\<lparr>Status := ETH_DMARxDesc_OWN\<rparr>) (S\<lparr>netw := N\<rparr>);
       Some (rx_resume S, p)
     } }"

type_synonym 'u input_fn = "ptr \<Rightarrow> 'u eth \<Rightarrow> ('u eth \<times> err_t) option"

definition ethernetif_input :: "'u input_fn \<Rightarrow> 'u eth \<Rightarrow> ('u eth \<times> err_t) option" where
  "ethernetif_input netif_input S = do {
     (S, p) \<leftarrow> low_level_input S;
     if p = NULL then Some (S, ERR_MEM)
     else do {
       (S, err) \<leftarrow> netif_input p S;
       if err \<noteq> ERR_OK then do { (N, n) \<leftarrow> pbuf_free p (netw S); Some (S\<lparr>netw := N\<rparr>, err) }
       else Some (S, err)
     } }"

definition lwip_pkt_handle :: "'u input_fn \<Rightarrow> 'u eth \<Rightarrow> 'u eth option" where
  "lwip_pkt_handle netif_input S = do { (S, err) \<leftarrow> ethernetif_input netif_input S; Some S }"

partial_function (option) eth_irq_loop :: "'u input_fn \<Rightarrow> 'u eth \<Rightarrow> 'u eth option" where
  "eth_irq_loop netif_input S =
     (if ETH_GetRxPktSize (DMARxDescToGet S) S \<noteq> 0 then do {
        S \<leftarrow> lwip_pkt_handle netif_input S;
        eth_irq_loop netif_input S
      }
      else Some S)"

definition ETH_DMAClearITPendingBit :: "u32 \<Rightarrow> 'u eth \<Rightarrow> 'u eth" where
  "ETH_DMAClearITPendingBit ETH_DMA_IT S = write_DMASR ETH_DMA_IT S"

definition ETH_IRQHandler :: "'u input_fn \<Rightarrow> 'u eth \<Rightarrow> 'u eth option" where
  "ETH_IRQHandler netif_input S = do {
     S \<leftarrow> eth_irq_loop netif_input S;
     let S = ETH_DMAClearITPendingBit ETH_DMA_IT_R S;
     Some (ETH_DMAClearITPendingBit ETH_DMA_IT_NIS S) }"

subsection \<open>Copying\<close>

lemma memcpy_none [simp]: "upd_bytes (memcpy d s 0) N = N"
proof -
  have "memcpy d s 0 b = b" for b by (rule ext) (auto simp: memcpy_def)
  then show ?thesis by (simp add: upd_bytes_def)
qed

lemma scatter_take:
  "chain (pbufs N) p ps \<Longrightarrow> unat n = tlen (pbufs N) ps \<Longrightarrow> unat cop + unat n < 65536 \<Longrightarrow>
   scatter b p (int (unat cop)) N = take_loop p b n cop N"
proof (induction ps arbitrary: p n cop N)
  case Nil
  then have "n = 0" by (simp add: unat_eq_0)
  then show ?case using Nil by (subst scatter.simps, subst take_loop.simps) simp
next
  case (Cons x xs)
  have x: "p = x" "x \<noteq> NULL" "chain (pbufs N) (pnx N x) xs" using Cons.prems(1) by auto
  let ?N = "upd_bytes (memcpy (ppay N x) (b + int (unat cop)) (uint (plen N x))) N"
  have le: "unat (plen N x) \<le> unat n" using Cons.prems(2) by simp
  have nc: "unat (n - plen N x) = tlen (pbufs N) xs" using le Cons.prems(2) by (simp add: unat_sub word_le_nat_alt)
  have lc: "unat (cop + plen N x) = unat cop + unat (plen N x)" using Cons.prems(3) le by (intro unat_add_u16) simp
  have "scatter b x (int (unat cop)) N = scatter b (pnx N x) (int (unat (cop + plen N x))) ?N"
    using x(2) lc by (subst scatter.simps) (simp add: Let_def)
  also have "\<dots> = take_loop (pnx N x) b (n - plen N x) (cop + plen N x) ?N"
    by (rule Cons.IH) (use x(3) nc lc Cons.prems(2,3) in auto)
  also have "\<dots> = take_loop x b n cop N"
  proof (cases "n = 0")
    case True
    then have "plen N x = 0" using le by (simp add: unat_eq_0)
    then show ?thesis using True by (subst take_loop.simps, subst (2) take_loop.simps) simp
  next
    case False
    have "(if n > plen N x then plen N x else n) = plen N x" using le by (auto simp: word_less_nat_alt word_unat_eq_iff)
    then show ?thesis using False x(2) by (subst (2) take_loop.simps) (simp add: Let_def)
  qed
  finally show ?case using x(1) by simp
qed

lemma gather_copy:
  "chain (pbufs N) p ps \<Longrightarrow> unat n = tlen (pbufs N) ps \<Longrightarrow> unat left + unat n < 65536 \<Longrightarrow>
   copy_partial_loop p b n 0 left tot N = Some (N', t) \<Longrightarrow>
   gather b p (int (unat left)) N = Some (N', int (unat left) + int (unat n))"
proof (induction ps arbitrary: p n left tot N)
  case Nil
  then have "n = 0" by (simp add: unat_eq_0)
  then have "copy_partial_loop p b n 0 left tot N = Some (N, tot)" by (subst copy_partial_loop.simps) simp
  then show ?case using Nil \<open>n = 0\<close> by (subst gather.simps) simp
next
  case (Cons x xs)
  have x: "p = x" "x \<noteq> NULL" "chain (pbufs N) (pnx N x) xs" using Cons.prems(1) by auto
  let ?N = "upd_bytes (memcpy (b + int (unat left)) (ppay N x) (uint (plen N x))) N"
  have le: "unat (plen N x) \<le> unat n" using Cons.prems(2) by simp
  have nc: "unat (n - plen N x) = tlen (pbufs N) xs" "unat (n - plen N x) = unat n - unat (plen N x)"
    using le Cons.prems(2) by (simp_all add: unat_sub word_le_nat_alt)
  have lc: "unat (left + plen N x) = unat left + unat (plen N x)" using Cons.prems(3) le by (intro unat_add_u16) simp
  have step: "gather b x (int (unat left)) N = gather b (pnx N x) (int (unat (left + plen N x))) ?N"
    using x(2) lc by (subst gather.simps) (simp add: Let_def)
  have "copy_partial_loop (pnx N x) b (n - plen N x) 0 (left + plen N x) (tot + plen N x) ?N = Some (N', t) \<or>
      copy_partial_loop (pnx N x) b (n - plen N x) 0 (left + plen N x) tot ?N = Some (N', t)"
  proof (cases "n = 0")
    case True
    then have l0: "plen N x = 0" using le by (simp add: unat_eq_0)
    have "copy_partial_loop p b n 0 left tot N = Some (N, tot)" using True by (subst copy_partial_loop.simps) simp
    then show ?thesis using True l0 Cons.prems(4) by (subst (2) copy_partial_loop.simps) simp
  next
    case False
    have "(if plen N x > n then n else plen N x) = plen N x" using le by (auto simp: word_less_nat_alt)
    then show ?thesis using False x Cons.prems(4) by (subst (asm) copy_partial_loop.simps) (simp add: Let_def)
  qed
  then obtain tot' where c: "copy_partial_loop (pnx N x) b (n - plen N x) 0 (left + plen N x) tot' ?N = Some (N', t)" by blast
  have "gather b (pnx N x) (int (unat (left + plen N x))) ?N = Some (N', int (unat (left + plen N x)) + int (unat (n - plen N x)))"
    by (rule Cons.IH [OF _ _ _ c]) (use x(3) nc lc Cons.prems(2,3) in auto)
  then show ?case using step x(1) lc nc(2) le by simp
qed

lemma gather_run:
  assumes c: "chain (pbufs N) p ps" and t: "tlen (pbufs N) ps < 65536"
    and d: "\<forall>x \<in> set ps. region N x \<inter> {b ..< b + int (tlen (pbufs N) ps)} = {}"
  shows "gather b p 0 N = Some (upd_bytes (put_bytes b (content N ps)) N, int (tlen (pbufs N) ps))"
proof -
  define n :: u16 where "n = of_nat (tlen (pbufs N) ps)"
  have n: "unat n = tlen (pbufs N) ps" using t by (simp add: n_def unat_of_nat)
  have "copy_partial_loop p b n 0 0 0 N = Some (upd_bytes (put_bytes b (content N ps)) N, of_nat (tlen (pbufs N) ps))"
    using copy_partial_run [of N p ps 0 b n 0 0] c t d n by simp
  from gather_copy [OF c n _ this] show ?thesis using t n by simp
qed

text \<open>Pbufs taken from the pool do not share octets.\<close>

lemma memp_cell: "memp_rep E sz t S M \<Longrightarrow> M p = Some C \<Longrightarrow> C = {p ..< p + sz}"
  by (simp only: memp_rep_def)

lemma pool_apart:
  assumes "pool_rep E N M" and "distinct ps" and "\<forall>x \<in> set ps. pool_pbuf N x \<and> M x \<noteq> None"
  shows "apart N ps"
  using assms(2,3)
proof (induction ps)
  case (Cons x xs)
  have sub: "region N y \<subseteq> {y ..< y + 528} \<and> M y = Some {y ..< y + 528}" if "y \<in> set (x # xs)" for y
  proof -
    have y: "pool_pbuf N y" "M y \<noteq> None" using bspec [OF Cons.prems(2) that] by simp_all
    then obtain C where "M y = Some C" by (cases "M y") simp_all
    moreover from this have "C = {y ..< y + 528}" by (rule memp_cell [OF assms(1)])
    ultimately show ?thesis using y(1) by (auto simp: pool_pbuf_def region_def)
  qed
  have "region N x \<inter> region N y = {}" if y: "y \<in> set xs" for y
  proof -
    have "x \<noteq> y" using Cons.prems(1) y by auto
    then have "{x ..< x + 528} \<inter> {y ..< y + 528} = {}"
      using memp.rep_disjoint [OF assms(1), of x "{x ..< x + 528}" y "{y ..< y + 528}"] sub [of x] sub [of y] y by simp
    moreover have "region N x \<subseteq> {x ..< x + 528}" "region N y \<subseteq> {y ..< y + 528}" using sub [of x] sub [of y] y by simp_all
    ultimately show ?thesis by blast
  qed
  then show ?case using Cons by simp
qed simp

subsection \<open>The receive ring\<close>

definition rx_slot :: "ptr \<Rightarrow> nat \<Rightarrow> ptr" where "rx_slot tab i = tab + 32 * int (i mod 5)"

text \<open>A descriptor the DMA handed over, with one complete frame and no error.\<close>

definition rx_good :: "u32 \<Rightarrow> nat \<Rightarrow> bool" where
  "rx_good st n \<longleftrightarrow> st AND ETH_DMARxDesc_OWN = 0 \<and> st AND ETH_DMARxDesc_ES = 0 \<and> st AND ETH_DMARxDesc_LS \<noteq> 0
     \<and> st AND ETH_DMARxDesc_FS \<noteq> 0 \<and> drop_bit 16 (st AND ETH_DMARxDesc_FL) = of_nat (n + 4) \<and> 0 < n \<and> n \<le> 1520"

text \<open>
  The ring holds the frames \<open>fs\<close>, in order, from the descriptor the driver reads next, which is
  number \<open>g\<close>; the DMA owns the other descriptors.
\<close>

definition rx_ring :: "ptr \<Rightarrow> ptr \<Rightarrow> 'u eth \<Rightarrow> nat \<Rightarrow> u8 list list \<Rightarrow> bool" where
  "rx_ring tab buf S g fs \<longleftrightarrow> 0 < tab \<and> length fs \<le> 5 \<and> DMARxDescToGet S = rx_slot tab g
     \<and> (\<forall>i < 5. Buffer1Addr (descs S (rx_slot tab i)) = buf + 1524 * int i
          \<and> Buffer2NextDescAddr (descs S (rx_slot tab i)) = rx_slot tab (i + 1))
     \<and> (\<forall>k < length fs. rx_good (status S (rx_slot tab (g + k))) (length (fs ! k))
          \<and> mem_range (mbytes (netw S)) (Buffer1Addr (descs S (rx_slot tab (g + k)))) (length (fs ! k)) = fs ! k)
     \<and> (\<forall>k < 5. length fs \<le> k \<longrightarrow> status S (rx_slot tab (g + k)) AND ETH_DMARxDesc_OWN \<noteq> 0)"

lemma rx_slot_inj: "rx_slot tab (g + i) = rx_slot tab (g + k) \<Longrightarrow> i < 5 \<Longrightarrow> k < 5 \<Longrightarrow> i = k"
proof -
  assume "rx_slot tab (g + i) = rx_slot tab (g + k)" and b: "i < 5" "k < 5"
  then have "(g + i) mod 5 = (g + k) mod 5" by (simp add: rx_slot_def)
  then have "((g + i) + 4 * g) mod 5 = ((g + k) + 4 * g) mod 5" by (rule mod_add_cong) simp
  moreover have "(g + j) + 4 * g = j + g * 5" for j by simp
  ultimately show "i = k" using b by simp
qed

lemma rx_slot_mod: "rx_slot tab (i mod 5) = rx_slot tab i" "rx_slot tab (Suc (i mod 5)) = rx_slot tab (Suc i)"
  by (simp_all add: rx_slot_def mod_Suc_eq)

lemma rx_ring_desc:
  "rx_ring tab buf S g fs \<Longrightarrow> Buffer1Addr (descs S (rx_slot tab i)) = buf + 1524 * int (i mod 5)
     \<and> Buffer2NextDescAddr (descs S (rx_slot tab i)) = rx_slot tab (Suc i)"
proof -
  assume r: "rx_ring tab buf S g fs"
  have "i mod 5 < 5" by simp
  then have "Buffer1Addr (descs S (rx_slot tab (i mod 5))) = buf + 1524 * int (i mod 5)
      \<and> Buffer2NextDescAddr (descs S (rx_slot tab (i mod 5))) = rx_slot tab (Suc (i mod 5))"
    using r unfolding rx_ring_def Suc_eq_plus1 by blast
  then show ?thesis by (simp only: rx_slot_mod)
qed

text \<open>Returning the descriptor at the head to the DMA.\<close>

lemma rx_ring_return:
  assumes r: "rx_ring tab buf S g (f # fs)"
    and d: "descs S' = (descs S)(rx_slot tab g := (descs S (rx_slot tab g))\<lparr>Status := ETH_DMARxDesc_OWN\<rparr>)"
    and g: "DMARxDescToGet S' = rx_slot tab (Suc g)"
    and b: "\<And>a. buf \<le> a \<Longrightarrow> a < buf + 7620 \<Longrightarrow> mbytes (netw S') a = mbytes (netw S) a"
  shows "rx_ring tab buf S' (Suc g) fs"
proof -
  let ?h = "rx_slot tab g"
  note RD = rx_ring_desc [OF r]
  have other: "descs S' (rx_slot tab (Suc g + k)) = descs S (rx_slot tab (Suc g + k))" if "k < 4" for k
  proof -
    have "rx_slot tab (g + Suc k) \<noteq> rx_slot tab (g + 0)" using rx_slot_inj [of tab g "Suc k" 0] that by auto
    then show ?thesis by (simp add: d)
  qed
  have len: "length fs \<le> 4" using r by (simp add: rx_ring_def)
  have addr: "Buffer1Addr (descs S' x) = Buffer1Addr (descs S x)" "Buffer2NextDescAddr (descs S' x) = Buffer2NextDescAddr (descs S x)" for x
    by (simp_all add: d)
  have full: "rx_good (status S' (rx_slot tab (Suc g + k))) (length (fs ! k))
      \<and> mem_range (mbytes (netw S')) (Buffer1Addr (descs S' (rx_slot tab (Suc g + k)))) (length (fs ! k)) = fs ! k"
    if k: "k < length fs" for k
  proof -
    have old: "rx_good (status S (rx_slot tab (Suc g + k))) (length (fs ! k))"
        "mem_range (mbytes (netw S)) (Buffer1Addr (descs S (rx_slot tab (Suc g + k)))) (length (fs ! k)) = fs ! k"
      using r k unfolding rx_ring_def by (metis Suc_less_eq add_Suc_shift length_Cons nth_Cons_Suc)+
    have "mem_range (mbytes (netw S')) (Buffer1Addr (descs S (rx_slot tab (Suc g + k)))) (length (fs ! k))
        = mem_range (mbytes (netw S)) (Buffer1Addr (descs S (rx_slot tab (Suc g + k)))) (length (fs ! k))"
    proof (rule mem_range_cong)
      fix i assume i: "i < length (fs ! k)"
      have "length (fs ! k) \<le> 1520" using old(1) by (simp add: rx_good_def)
      moreover have "Buffer1Addr (descs S (rx_slot tab (Suc g + k))) = buf + 1524 * int ((Suc g + k) mod 5)" using RD by blast
      moreover have "(Suc g + k) mod 5 < 5" by simp
      ultimately show "mbytes (netw S') (Buffer1Addr (descs S (rx_slot tab (Suc g + k))) + int i)
          = mbytes (netw S) (Buffer1Addr (descs S (rx_slot tab (Suc g + k))) + int i)"
        using i by (intro b) linarith+
    qed
    then show ?thesis using old other [of k] k len by simp
  qed
  have own: "status S' (rx_slot tab (Suc g + k)) AND ETH_DMARxDesc_OWN \<noteq> 0" if k: "k < 5" "length fs \<le> k" for k
  proof (cases "k = 4")
    case True
    have "rx_slot tab (Suc g + k) = ?h" by (simp add: True rx_slot_def)
    then show ?thesis by (simp add: d ETH_DMARxDesc_OWN_def)
  next
    case False
    have "\<forall>k < 5. length (f # fs) \<le> k \<longrightarrow> status S (rx_slot tab (g + k)) AND ETH_DMARxDesc_OWN \<noteq> 0"
      using r unfolding rx_ring_def by blast
    moreover have "Suc k < 5" "length (f # fs) \<le> Suc k" using False k by simp_all
    ultimately have "status S (rx_slot tab (g + Suc k)) AND ETH_DMARxDesc_OWN \<noteq> 0" by blast
    then show ?thesis using other [of k] False k by simp
  qed
  have "0 < tab" using r by (simp add: rx_ring_def)
  moreover have "\<forall>i < 5. Buffer1Addr (descs S' (rx_slot tab i)) = buf + 1524 * int i
      \<and> Buffer2NextDescAddr (descs S' (rx_slot tab i)) = rx_slot tab (i + 1)"
    using r unfolding addr rx_ring_def by blast
  ultimately show ?thesis using g len full own unfolding rx_ring_def by simp
qed

lemma low_level_input_ring:
  fixes S :: "'u eth"
  assumes r: "rx_ring tab buf S g (f # fs)"
    and pool: "Pbuf.pool_rep E (netw S) M" "finite E" "\<forall>x \<in> E. x mod 4 = 0 \<and> \<not> custom (netw S) x"
    and apart: "\<forall>x \<in> E. {x ..< x + 528} \<inter> {buf ..< buf + 7620} = {}"
  shows "\<exists>S' p. low_level_input S = Some (S', p) \<and> rx_ring tab buf S' (Suc g) fs \<and> upper S' = upper S
    \<and> (\<forall>x \<in> E. \<not> custom (netw S') x) \<and> (p = NULL \<longleftrightarrow> card (E - dom M) < pool_need PBUF_RAW (of_nat (length f)))
    \<and> (if p = NULL then Pbuf.pool_rep E (netw S') M
       else \<exists>ps. packet (pbufs (netw S')) p ps \<and> content (netw S') ps = f \<and> set ps \<inter> dom M = {}
         \<and> (\<forall>x \<in> set ps. pool_pbuf (netw S') x) \<and> Pbuf.pool_rep E (netw S') (hand M ps))"
proof -
  let ?h = "rx_slot tab g" and ?N = "netw S"
  have h: "DMARxDescToGet S = ?h" and hn: "?h \<noteq> NULL" using r by (auto simp: rx_ring_def rx_slot_def)
  have good: "rx_good (status S ?h) (length f)" and data: "mem_range (mbytes ?N) (Buffer1Addr (descs S ?h)) (length f) = f"
    using r unfolding rx_ring_def by (metis add.right_neutral length_greater_0_conv list.discI nth_Cons_0)+
  have lf: "0 < length f" "length f \<le> 1520" using good by (simp_all add: rx_good_def)
  let ?b = "Buffer1Addr (descs S ?h)"
  have next_d: "Buffer2NextDescAddr (descs S ?h) = rx_slot tab (Suc g)" and bb: "buf \<le> ?b" "?b + 1524 \<le> buf + 7620"
    using rx_ring_desc [OF r, of g] by (auto simp del: of_nat_mod)
  let ?S1 = "S\<lparr>DMARxDescToGet := rx_slot tab (Suc g)\<rparr>"
  have rxp: "ETH_Rx_Packet S = (?S1, \<lparr>f_length = of_nat (length f), f_buffer = ?b, f_descriptor = ?h\<rparr>)"
    using good next_d by (simp add: ETH_Rx_Packet_def h rx_good_def Let_def)
  define n :: u16 where "n = of_nat (length f)"
  have un: "unat n = length f" using lf by (simp add: n_def unat_of_nat)
  have cn: "ucast (of_nat (length f) :: u32) = n" using lf by (simp add: n_def unat_of_nat word_unat_eq_iff unat_ucast_u32_u16)
  obtain N p where a: "pbuf_alloc PBUF_RAW n PBUF_POOL ?N = Some (N, p)" "mheap N = mheap ?N"
      "\<forall>x \<in> E. \<not> custom N x"
      "p = NULL \<longleftrightarrow> card (E - dom M) < pool_need PBUF_RAW n"
      "if p = NULL then Pbuf.pool_rep E N M
       else \<exists>ps. packet (pbufs N) p ps \<and> tlen (pbufs N) ps = unat n \<and> set ps \<inter> dom M = {}
         \<and> (\<forall>x \<in> set ps. pool_pbuf N x) \<and> Pbuf.pool_rep E N (hand M ps)"
    using pool_alloc_spec [OF pool, of PBUF_RAW n] by metis
  let ?fin = "\<lambda>N. rx_resume (upd_desc ?h (\<lambda>d. d\<lparr>Status := ETH_DMARxDesc_OWN\<rparr>) (?S1\<lparr>netw := N\<rparr>))"
  have fin: "descs (?fin N) = (descs S)(?h := (descs S ?h)\<lparr>Status := ETH_DMARxDesc_OWN\<rparr>)" "DMARxDescToGet (?fin N) = rx_slot tab (Suc g)"
      "netw (?fin N) = N" "upper (?fin N) = upper S" for N
    by (simp_all add: rx_resume_def upd_desc_def write_DMASR_def Let_def)
  have n_eq: "pool_need PBUF_RAW (of_nat (length f)) = pool_need PBUF_RAW n" by (simp add: n_def)
  show ?thesis
  proof (cases "p = NULL")
    case True
    have run: "low_level_input S = Some (?fin N, NULL)" using a(1) True hn by (simp add: low_level_input_def rxp cn)
    have "rx_ring tab buf (?fin N) (Suc g) fs" by (rule rx_ring_return [OF r fin(1,2)]) (simp add: fin(3) a(2))
    then show ?thesis using run fin(4) a(3-5) True n_eq by (intro exI [of _ "?fin N"] exI [of _ NULL]) (simp add: fin(3))
  next
    case False
    then obtain ps where ps: "packet (pbufs N) p ps" "tlen (pbufs N) ps = unat n" "set ps \<inter> dom M = {}"
        "\<forall>x \<in> set ps. pool_pbuf N x" "Pbuf.pool_rep E N (hand M ps)"
      using a(5) by auto
    have pk: "chain (pbufs N) p ps" "distinct ps" using ps(1) by (simp_all add: packet_def)
    have "set ps \<subseteq> dom (hand M ps)" by simp
    then have "\<forall>x \<in> set ps. pool_pbuf N x \<and> hand M ps x \<noteq> None" using ps(4) by (simp add: hand_def)
    then have ap: "apart N ps" by (rule pool_apart [OF ps(5) pk(2)])
    have sub: "set ps \<subseteq> E" using memp_rep_dom [OF ps(5)] by auto
    have reg: "region N x \<inter> {buf ..< buf + 7620} = {}" if "x \<in> set ps" for x
    proof -
      have "region N x \<subseteq> {x ..< x + 528}" using ps(4) that by (auto simp: pool_pbuf_def region_def)
      moreover have "{x ..< x + 528} \<inter> {buf ..< buf + 7620} = {}" using apart sub that by blast
      ultimately show ?thesis by blast
    qed
    have src: "\<forall>x \<in> set ps. region N x \<inter> {?b + int (unat (0 :: u16)) ..< ?b + int (unat (0 :: u16)) + int (unat n)} = {}"
    proof
      fix x assume x: "x \<in> set ps"
      have "{?b + int (unat (0 :: u16)) ..< ?b + int (unat (0 :: u16)) + int (unat n)} \<subseteq> {buf ..< buf + 7620}"
        using bb lf(2) by (simp only: un unsigned_0 of_nat_0 add_0_right) auto
      then show "region N x \<inter> {?b + int (unat (0 :: u16)) ..< ?b + int (unat (0 :: u16)) + int (unat n)} = {}"
        using reg [OF x] by blast
    qed
    obtain T where T: "take_loop p ?b n 0 N = Some T" "pbufs T = pbufs N" "pools T = pools N"
        "content T ps = mem_range (mbytes N) (?b + int (unat (0 :: u16))) (unat n) @ drop (unat n) (content N ps)"
        "\<forall>a. (\<forall>x \<in> set ps. a \<notin> region N x) \<longrightarrow> mbytes T a = mbytes N a"
      using take_run [OF pk(1) _ ap _ src] ps(2) un lf(2) by auto
    have "scatter ?b p (int (unat (0 :: u16))) N = take_loop p ?b n 0 N"
      by (rule scatter_take [OF pk(1)]) (use ps(2) un lf(2) in auto)
    then have sc: "scatter ?b p 0 N = Some T" using T(1) by simp
    have run: "low_level_input S = Some (?fin T, p)" using a(1) False hn sc by (simp add: low_level_input_def rxp cn)
    have ct: "content T ps = f" using T(4) ps(2) un data a(2) by simp
    have "rx_ring tab buf (?fin T) (Suc g) fs"
    proof (rule rx_ring_return [OF r fin(1,2)])
      fix a assume ab: "buf \<le> a" "a < buf + 7620"
      then have "a \<notin> region N x" if "x \<in> set ps" for x using reg [OF that] by auto
      then show "mbytes (netw (?fin T)) a = mbytes ?N a" using T(5) a(2) by (simp add: fin(3))
    qed
    moreover have "\<forall>x \<in> set ps. pool_pbuf T x" using ps(4) T(2) by (simp add: pool_pbuf_def)
    then have "packet (pbufs T) p ps \<and> content T ps = f \<and> set ps \<inter> dom M = {} \<and> (\<forall>x \<in> set ps. pool_pbuf T x)
        \<and> Pbuf.pool_rep E T (hand M ps)"
      using ps(1,3,5) ct T(2,3) by simp
    moreover have "\<forall>x \<in> E. \<not> custom T x" using a(3) T(2) by simp
    ultimately show ?thesis
      using run fin(4) a(4) False n_eq by (intro exI [of _ "?fin T"] exI [of _ p]) (simp add: fin(3), blast)
  qed
qed

text \<open>
  C7: in a ring that holds frames, one call of \<open>low_level_input\<close> takes the oldest frame and returns
  its descriptor to the DMA. It delivers the frame, octet for octet, in a fresh packet of the
  pool; only when the pool has too few elements is the frame dropped. The ring goes on with the
  other frames in order.
\<close>

theorem ethernet_rx_in_order:
  fixes S :: "'u eth"
  assumes r: "rx_ring tab buf S g (f # fs)"
    and pool: "Pbuf.pool_rep E (netw S) M" "finite E" "\<forall>x \<in> E. x mod 4 = 0 \<and> \<not> custom (netw S) x"
    and apart: "\<forall>x \<in> E. {x ..< x + 528} \<inter> {buf ..< buf + 7620} = {}"
  shows "\<exists>S' p. low_level_input S = Some (S', p) \<and> rx_ring tab buf S' (Suc g) fs \<and> upper S' = upper S
    \<and> (p = NULL \<longleftrightarrow> card (E - dom M) < pool_need PBUF_RAW (of_nat (length f)))
    \<and> (if p = NULL then Pbuf.pool_rep E (netw S') M
       else \<exists>ps. packet (pbufs (netw S')) p ps \<and> content (netw S') ps = f \<and> set ps \<inter> dom M = {}
         \<and> Pbuf.pool_rep E (netw S') (hand M ps))"
  using low_level_input_ring [OF assms] by (elim exE conjE) (intro exI conjI, assumption+, auto split: if_splits)

text \<open>Initialisation and arrival.\<close>

lemma rx_chain_get [simp]: "DMARxDescToGet (rx_chain_loop k tab buf cnt S) = DMARxDescToGet S"
  by (induction k arbitrary: S) (simp_all add: Let_def upd_desc_def)

lemma five: "rx_chain_loop 5 tab buf 5 S = rx_chain_loop (Suc (Suc (Suc (Suc (Suc 0))))) tab buf 5 S"
  by (simp add: eval_nat_numeral)

lemma rx_chain_init:
  "descs (ETH_DMARxDescChainInit tab buf 5 S) (rx_slot tab i) =
     \<lparr>Status = ETH_DMARxDesc_OWN, ControlBufferSize = ETH_DMARxDesc_RCH OR 1524, Buffer1Addr = buf + 1524 * int (i mod 5),
      Buffer2NextDescAddr = rx_slot tab (Suc i)\<rparr>"
proof -
  have rec: "d\<lparr>Status := a, ControlBufferSize := b, Buffer1Addr := c, Buffer2NextDescAddr := e\<rparr>
      = \<lparr>Status = a, ControlBufferSize = b, Buffer1Addr = c, Buffer2NextDescAddr = e\<rparr>" for a b c e and d :: dma_desc
    by (cases d) simp
  have all: "descs (ETH_DMARxDescChainInit tab buf 5 S) (tab + 32 * int j) =
     \<lparr>Status = ETH_DMARxDesc_OWN, ControlBufferSize = ETH_DMARxDesc_RCH OR 1524, Buffer1Addr = buf + 1524 * int j,
      Buffer2NextDescAddr = tab + 32 * int (Suc j mod 5)\<rparr>" if "j = 0 \<or> j = 1 \<or> j = 2 \<or> j = 3 \<or> j = 4" for j
    using that
    by (elim disjE) (simp_all add: ETH_DMARxDescChainInit_def five Let_def upd_desc_def rec)
  have "i mod 5 = 0 \<or> i mod 5 = 1 \<or> i mod 5 = 2 \<or> i mod 5 = 3 \<or> i mod 5 = 4" by presburger
  from all [OF this] show ?thesis by (simp add: rx_slot_def mod_Suc_eq)
qed

text \<open>
  What the DMA does with a frame, as documented: it needs the ownership of the next descriptor of
  the ring, stores the octets in its buffer and hands the descriptor over.
\<close>

definition dma_stores :: "ptr \<Rightarrow> u32 \<Rightarrow> u8 list \<Rightarrow> 'u eth \<Rightarrow> 'u eth" where
  "dma_stores d st f S = S\<lparr>netw := upd_bytes (put_bytes (Buffer1Addr (descs S d)) f) (netw S),
     descs := (descs S)(d := (descs S d)\<lparr>Status := st\<rparr>)\<rparr>"

lemma rx_ring_init: "0 < tab \<Longrightarrow> rx_ring tab buf (ETH_DMARxDescChainInit tab buf 5 S) 0 []"
  unfolding rx_ring_def rx_chain_init
  by (simp add: ETH_DMARxDesc_OWN_def) (simp add: ETH_DMARxDescChainInit_def rx_slot_def Let_def)

lemma rx_ring_store:
  assumes r: "rx_ring tab buf S g fs" and l: "length fs < 5" and st: "rx_good st (length f)"
  shows "rx_ring tab buf (dma_stores (rx_slot tab (g + length fs)) st f S) g (fs @ [f])"
proof -
  let ?d = "rx_slot tab (g + length fs)"
  let ?S = "dma_stores ?d st f S"
  have d: "descs ?S x = (if x = ?d then (descs S ?d)\<lparr>Status := st\<rparr> else descs S x)" for x by (simp add: dma_stores_def)
  have addr: "Buffer1Addr (descs ?S x) = Buffer1Addr (descs S x)" "Buffer2NextDescAddr (descs ?S x) = Buffer2NextDescAddr (descs S x)" for x
    by (simp_all add: d)
  have sl: "rx_slot tab (g + k) \<noteq> ?d" if "k < 5" "k \<noteq> length fs" for k using rx_slot_inj [of tab g k "length fs"] that l by auto
  have own: "status ?S (rx_slot tab (g + k)) AND ETH_DMARxDesc_OWN \<noteq> 0" if "k < 5" "length (fs @ [f]) \<le> k" for k
    using r that sl [of k] unfolding rx_ring_def by (simp add: d)
  have full: "rx_good (status ?S (rx_slot tab (g + k))) (length ((fs @ [f]) ! k))
      \<and> mem_range (mbytes (netw ?S)) (Buffer1Addr (descs ?S (rx_slot tab (g + k)))) (length ((fs @ [f]) ! k)) = (fs @ [f]) ! k"
    if k: "k < length (fs @ [f])" for k
  proof (cases "k = length fs")
    case True
    have "mem_range (mbytes (netw ?S)) (Buffer1Addr (descs ?S ?d)) (length f) = f"
      using mem_range_put [of "Buffer1Addr (descs S ?d)" f] by (simp add: dma_stores_def)
    then show ?thesis using True st by (simp add: d)
  next
    case False
    then have kl: "k < length fs" "k < 5" using k l by auto
    have old: "rx_good (status S (rx_slot tab (g + k))) (length (fs ! k))"
        "mem_range (mbytes (netw S)) (Buffer1Addr (descs S (rx_slot tab (g + k)))) (length (fs ! k)) = fs ! k"
      using r kl(1) unfolding rx_ring_def by blast+
    have "mem_range (mbytes (netw ?S)) (Buffer1Addr (descs S (rx_slot tab (g + k)))) (length (fs ! k))
        = mem_range (mbytes (netw S)) (Buffer1Addr (descs S (rx_slot tab (g + k)))) (length (fs ! k))"
    proof (rule mem_range_cong)
      fix i assume i: "i < length (fs ! k)"
      have "length (fs ! k) \<le> 1520" "length f \<le> 1520" using old(1) st by (simp_all add: rx_good_def)
      moreover have "(g + k) mod 5 \<noteq> (g + length fs) mod 5" using sl [OF kl(2)] kl(1) by (auto simp: rx_slot_def)
      moreover have "Buffer1Addr (descs S (rx_slot tab (g + k))) = buf + 1524 * int ((g + k) mod 5)"
        "Buffer1Addr (descs S ?d) = buf + 1524 * int ((g + length fs) mod 5)" using rx_ring_desc [OF r] by blast+
      ultimately have "Buffer1Addr (descs S (rx_slot tab (g + k))) + int i < Buffer1Addr (descs S ?d)
          \<or> Buffer1Addr (descs S ?d) + int (length f) \<le> Buffer1Addr (descs S (rx_slot tab (g + k))) + int i"
        using i by linarith
      then show "mbytes (netw ?S) (Buffer1Addr (descs S (rx_slot tab (g + k))) + int i)
          = mbytes (netw S) (Buffer1Addr (descs S (rx_slot tab (g + k))) + int i)"
        by (simp add: dma_stores_def put_bytes_outside)
    qed
    then show ?thesis using old sl [OF kl(2)] kl(1) by (simp add: d nth_append)
  qed
  have "0 < tab" "DMARxDescToGet ?S = rx_slot tab g" "\<forall>i < 5. Buffer1Addr (descs ?S (rx_slot tab i)) = buf + 1524 * int i
      \<and> Buffer2NextDescAddr (descs ?S (rx_slot tab i)) = rx_slot tab (i + 1)"
    using r unfolding addr rx_ring_def by (simp_all add: dma_stores_def)
  then show ?thesis using l full own unfolding rx_ring_def by simp
qed

lemma rx_ring_full:
  assumes a: "rx_ring tab buf S g fs \<and> length fs = 5"
  shows "status S (rx_slot tab i) AND ETH_DMARxDesc_OWN = 0"
proof -
  have "\<exists>k < 5. rx_slot tab i = rx_slot tab (g + k)"
  proof -
    have "(g + (i + 4 * g) mod 5) mod 5 = (i + g * 5) mod 5" unfolding mod_add_right_eq by (simp add: algebra_simps)
    then have "(g + (i + 4 * g) mod 5) mod 5 = i mod 5" by simp
    then show ?thesis by (intro exI [of _ "(i + 4 * g) mod 5"]) (simp add: rx_slot_def)
  qed
  then obtain k where "k < 5" "rx_slot tab i = rx_slot tab (g + k)" by blast
  then show ?thesis using a unfolding rx_ring_def rx_good_def by metis
qed


subsection \<open>The interrupt\<close>

text \<open>The ring does not depend on the status register or on memory outside the buffers.\<close>

lemma rx_ring_cong:
  assumes "rx_ring tab buf S g fs" and d: "descs S' = descs S" "DMARxDescToGet S' = DMARxDescToGet S"
    and b: "\<forall>a. buf \<le> a \<and> a < buf + 7620 \<longrightarrow> mbytes (netw S') a = mbytes (netw S) a"
  shows "rx_ring tab buf S' g fs"
proof -
  have "mem_range (mbytes (netw S')) (Buffer1Addr (descs S (rx_slot tab i))) n
      = mem_range (mbytes (netw S)) (Buffer1Addr (descs S (rx_slot tab i))) n" if "n \<le> 1520" for i n
  proof (rule mem_range_cong)
    fix k assume "k < n"
    moreover have "Buffer1Addr (descs S (rx_slot tab i)) = buf + 1524 * int (i mod 5)"
      using rx_ring_desc [OF assms(1), of i] by blast
    moreover have "i mod 5 < 5" by simp
    ultimately show "mbytes (netw S') (Buffer1Addr (descs S (rx_slot tab i)) + int k)
        = mbytes (netw S) (Buffer1Addr (descs S (rx_slot tab i)) + int k)"
      using that by (intro b [rule_format] conjI) linarith+
  qed
  then show ?thesis using assms(1) unfolding rx_ring_def d rx_good_def by simp
qed

lemma rx_ring_size: "rx_ring tab buf S g fs \<Longrightarrow> ETH_GetRxPktSize (DMARxDescToGet S) S \<noteq> 0 \<longleftrightarrow> fs \<noteq> []"
proof (cases fs)
  case Nil
  assume "rx_ring tab buf S g fs"
  then have "status S (rx_slot tab (g + 0)) AND ETH_DMARxDesc_OWN \<noteq> 0" "DMARxDescToGet S = rx_slot tab g"
    using Nil unfolding rx_ring_def by (metis le_0_eq length_0_conv zero_less_numeral)+
  then show ?thesis using Nil by (simp add: ETH_GetRxPktSize_def)
next
  case (Cons f r)
  assume "rx_ring tab buf S g fs"
  then have h: "rx_good (status S (rx_slot tab (g + 0))) (length f)" "DMARxDescToGet S = rx_slot tab g"
    using Cons unfolding rx_ring_def by (metis length_greater_0_conv list.discI nth_Cons_0)+
  then have "unat (of_nat (length f + 4) :: u32) = length f + 4" by (simp del: of_nat_add add: rx_good_def unat_of_nat)
  then have "(of_nat (length f + 4) :: u32) \<noteq> 0" by (metis add_eq_0_iff_both_eq_0 unsigned_0 zero_neq_numeral)
  then show ?thesis using h Cons by (simp add: ETH_GetRxPktSize_def ETH_GetDMARxDescFrameLength_def rx_good_def)
qed

text \<open>
  What the driver asks of \<open>netif->input\<close>: a packet handed to it is taken, its buffers returned to
  the pool, and the rings left alone; \<open>deliver\<close> is its effect on the layers above.
\<close>

definition consumes :: "'u input_fn \<Rightarrow> ptr set \<Rightarrow> (ptr \<rightharpoonup> ptr set) \<Rightarrow> ptr \<Rightarrow> (u8 list \<Rightarrow> 'u \<Rightarrow> 'u) \<Rightarrow> bool" where
  "consumes inp E M buf deliver \<longleftrightarrow> (\<forall>S p ps. packet (pbufs (netw S)) p ps \<and> set ps \<inter> dom M = {}
       \<and> (\<forall>x \<in> set ps. pool_pbuf (netw S) x) \<and> Pbuf.pool_rep E (netw S) (hand M ps) \<and> (\<forall>x \<in> E. \<not> custom (netw S) x) \<longrightarrow>
     (\<exists>S'. inp p S = Some (S', ERR_OK) \<and> upper S' = deliver (content (netw S) ps) (upper S)
        \<and> Pbuf.pool_rep E (netw S') M \<and> (\<forall>x \<in> E. \<not> custom (netw S') x)
        \<and> descs S' = descs S \<and> DMARxDescToGet S' = DMARxDescToGet S
        \<and> (\<forall>a. buf \<le> a \<and> a < buf + 7620 \<longrightarrow> mbytes (netw S') a = mbytes (netw S) a)))"

lemma eth_irq_loop_drains:
  fixes S :: "'u eth"
  assumes "rx_ring tab buf S g fs" and "Pbuf.pool_rep E (netw S) M" and "finite E"
    and "\<forall>x \<in> E. x mod 4 = 0" and "\<forall>x \<in> E. \<not> custom (netw S) x"
    and "\<forall>x \<in> E. {x ..< x + 528} \<inter> {buf ..< buf + 7620} = {}"
    and "\<forall>f \<in> set fs. pool_need PBUF_RAW (of_nat (length f)) \<le> card (E - dom M)"
    and "consumes inp E M buf deliver"
  shows "\<exists>S'. eth_irq_loop inp S = Some S' \<and> rx_ring tab buf S' (g + length fs) [] \<and> upper S' = fold deliver fs (upper S)
    \<and> Pbuf.pool_rep E (netw S') M"
  using assms(1,2,5,7)
proof (induction fs arbitrary: S g)
  case Nil
  then have "eth_irq_loop inp S = Some S" using rx_ring_size [OF Nil.prems(1)] by (subst eth_irq_loop.simps) simp
  then show ?case using Nil by simp
next
  case (Cons f fs)
  have al: "\<forall>x \<in> E. x mod 4 = 0 \<and> \<not> custom (netw S) x" using assms(4) Cons.prems(3) by simp
  obtain S1 p where i: "low_level_input S = Some (S1, p)" "rx_ring tab buf S1 (Suc g) fs" "upper S1 = upper S"
      "\<forall>x \<in> E. \<not> custom (netw S1) x" "p = NULL \<longleftrightarrow> card (E - dom M) < pool_need PBUF_RAW (of_nat (length f))"
      "if p = NULL then Pbuf.pool_rep E (netw S1) M
       else \<exists>ps. packet (pbufs (netw S1)) p ps \<and> content (netw S1) ps = f \<and> set ps \<inter> dom M = {}
         \<and> (\<forall>x \<in> set ps. pool_pbuf (netw S1) x) \<and> Pbuf.pool_rep E (netw S1) (hand M ps)"
    using low_level_input_ring [OF Cons.prems(1,2) assms(3) al assms(6)] by metis
  have p: "p \<noteq> NULL" using i(5) Cons.prems(4) by simp
  then obtain ps where "packet (pbufs (netw S1)) p ps" "content (netw S1) ps = f" "set ps \<inter> dom M = {}"
      "\<forall>x \<in> set ps. pool_pbuf (netw S1) x" "Pbuf.pool_rep E (netw S1) (hand M ps)"
    using i(6) by auto
  with i(4) obtain S2 where c: "inp p S1 = Some (S2, ERR_OK)" "upper S2 = deliver f (upper S1)" "Pbuf.pool_rep E (netw S2) M"
      "\<forall>x \<in> E. \<not> custom (netw S2) x" "descs S2 = descs S1" "DMARxDescToGet S2 = DMARxDescToGet S1"
      "\<forall>a. buf \<le> a \<and> a < buf + 7620 \<longrightarrow> mbytes (netw S2) a = mbytes (netw S1) a"
    using assms(8) unfolding consumes_def by metis
  have "eth_irq_loop inp S = eth_irq_loop inp S2"
    using rx_ring_size [OF Cons.prems(1)] i(1) c(1) p
    by (subst eth_irq_loop.simps) (simp add: lwip_pkt_handle_def ethernetif_input_def)
  moreover have "rx_ring tab buf S2 (Suc g) fs" by (rule rx_ring_cong [OF i(2) c(5-7)])
  ultimately show ?case using Cons.IH [of S2 "Suc g"] c(2-4) i(3) Cons.prems(4) by simp
qed


text \<open>What happens to the receive ring: the DMA stores a frame in a descriptor it owns, or the interrupt is served.\<close>

datatype rx_event = Stored ptr u32 "u8 list" | Served

fun rx_events :: "'u input_fn \<Rightarrow> rx_event list \<Rightarrow> 'u eth \<Rightarrow> 'u eth option" where
  "rx_events inp [] S = Some S"
| "rx_events inp (Stored d st f # es) S =
     rx_events inp es (if status S d AND ETH_DMARxDesc_OWN \<noteq> 0 then dma_stores d st f S else S)"
| "rx_events inp (Served # es) S = do { S \<leftarrow> ETH_IRQHandler inp S; rx_events inp es S }"

lemma irq_stuck:
  assumes "status S (DMARxDescToGet S) AND ETH_DMARxDesc_ES \<noteq> 0 \<or> status S (DMARxDescToGet S) AND ETH_DMARxDesc_LS = 0"
  shows "ETH_IRQHandler inp S = Some (write_DMASR ETH_DMA_IT_NIS (write_DMASR ETH_DMA_IT_R S))"
proof -
  have "ETH_GetRxPktSize (DMARxDescToGet S) S = 0" using assms by (auto simp: ETH_GetRxPktSize_def)
  then have "eth_irq_loop inp S = Some S" by (subst eth_irq_loop.simps) simp
  then show ?thesis by (simp add: ETH_IRQHandler_def ETH_DMAClearITPendingBit_def)
qed

text \<open>
  C11: a descriptor that reaches the head of the ring with the error bit, or without the last
  segment of its frame (a frame longer than one buffer), is never taken: whatever arrives later and
  however often the interrupt is served, no packet is ever delivered again.
\<close>

theorem eth_irq_stalls:
  fixes S :: "'u eth"
  assumes "status S (DMARxDescToGet S) AND ETH_DMARxDesc_OWN = 0"
    and "status S (DMARxDescToGet S) AND ETH_DMARxDesc_ES \<noteq> 0 \<or> status S (DMARxDescToGet S) AND ETH_DMARxDesc_LS = 0"
  shows "\<exists>S'. rx_events inp es S = Some S' \<and> upper S' = upper S \<and> DMARxDescToGet S' = DMARxDescToGet S
    \<and> pools (netw S') = pools (netw S) \<and> pbufs (netw S') = pbufs (netw S)"
  using assms
proof (induction inp es S rule: rx_events.induct)
  case (2 inp d st f es S)
  let ?S = "if status S d AND ETH_DMARxDesc_OWN \<noteq> 0 then dma_stores d st f S else S"
  have same: "DMARxDescToGet ?S = DMARxDescToGet S" "status ?S (DMARxDescToGet S) = status S (DMARxDescToGet S)"
      "upper ?S = upper S" "pools (netw ?S) = pools (netw S)" "pbufs (netw ?S) = pbufs (netw S)"
    using 2(2) by (auto simp: dma_stores_def)
  show ?case using 2(1) 2(2,3) unfolding same by simp
next
  case (3 inp es S)
  then show ?case using irq_stuck [OF 3(3), of inp] by (simp add: write_DMASR_def)
qed simp

subsection \<open>Transmission\<close>

lemma u32_below_mask: "x < 8192 \<Longrightarrow> x AND 0x1FFF = (x :: u32)"
proof -
  assume "x < 8192"
  have "x AND 0x1FFF = take_bit 13 x" by (simp add: take_bit_eq_mask mask_eq_exp_minus_1)
  moreover have "unat (take_bit 13 x) = unat x"
    using \<open>x < 8192\<close> by (simp add: unsigned_take_bit_eq word_less_nat_alt) (simp add: take_bit_eq_mod)
  ultimately show ?thesis by (simp add: word_unat_eq_iff)
qed

lemma low_level_output_run:
  fixes S :: "'u eth"
  assumes pk: "packet (pbufs (netw S)) p ps" and t: "tlen (pbufs (netw S)) ps \<le> 1524"
    and d: "DMATxDescToSet S = d" and b: "Buffer1Addr (descs S d) = b"
    and ap: "\<forall>x \<in> set ps. region (netw S) x \<inter> {b ..< b + int (tlen (pbufs (netw S)) ps)} = {}"
  shows "\<exists>S'. low_level_output p S = Some (S', if status S d AND ETH_DMATxDesc_OWN = 0 then ERR_OK else ERR_MEM)
    \<and> netw S' = upd_bytes (put_bytes b (content (netw S) ps)) (netw S)
    \<and> (if status S d AND ETH_DMATxDesc_OWN = 0
       then descs S' = (descs S)(d := (descs S d)\<lparr>Status := status S d OR 0xB0000000, ControlBufferSize := of_nat (tlen (pbufs (netw S)) ps)\<rparr>)
         \<and> DMATxDescToSet S' = Buffer2NextDescAddr (descs S d)
       else descs S' = descs S \<and> DMATxDescToSet S' = d)"
proof -
  let ?n = "tlen (pbufs (netw S)) ps" and ?N = "upd_bytes (put_bytes b (content (netw S) ps)) (netw S)"
  have "chain (pbufs (netw S)) p ps" using pk by (simp add: packet_def)
  then have g: "gather b p 0 (netw S) = Some (?N, int ?n)" by (rule gather_run) (use t ap in auto)
  have "unat (of_nat ?n :: u16) = ?n" "unat (of_nat ?n :: u32) = ?n" using t by (simp_all add: unat_of_nat)
  then have "ucast (word_of_int (int ?n) :: u16) = (of_nat ?n :: u32)"
    using t by (simp add: word_unat_eq_iff unsigned_ucast_eq take_bit_eq_mod)
  moreover have "(of_nat ?n :: u32) < 8192" using t by (simp add: word_less_nat_alt unat_of_nat)
  ultimately have len: "ucast (word_of_int (int ?n) :: u16) AND ETH_DMATxDesc_TBS1 = (of_nat ?n :: u32)"
    by (simp add: ETH_DMATxDesc_TBS1_def u32_below_mask del: of_int_of_nat_eq)
  have st: "(x OR (ETH_DMATxDesc_LS OR ETH_DMATxDesc_FS)) OR ETH_DMATxDesc_OWN = x OR 0xB0000000" for x
    by (simp add: tx_bits or.assoc)
  have com: "d\<lparr>ControlBufferSize := l, Status := v\<rparr> = d\<lparr>Status := v, ControlBufferSize := l\<rparr>" for d :: dma_desc and l v
    by (cases d) simp
  show ?thesis
    using g len st by (simp add: com low_level_output_def ETH_GetCurrentTxBuffer_def d b ETH_Tx_Packet_def upd_desc_def write_DMASR_def Let_def
        del: of_int_of_nat_eq)
qed

text \<open>
  C21: \<open>low_level_output\<close> writes the packet into the buffer of the current descriptor, octet for octet,
  whether or not the DMA still owns the descriptor. When it does not, the descriptor gets the
  length, the first and last segment bits and its ownership bit, and the driver moves to the next
  descriptor; when it does, the result is \<open>ERR_MEM\<close> and only the buffer, which the DMA is still
  sending, has changed.
\<close>

theorem low_level_output_frame:
  fixes S :: "'u eth"
  assumes pk: "packet (pbufs (netw S)) p ps" and t: "tlen (pbufs (netw S)) ps \<le> 1524"
    and d: "DMATxDescToSet S = d" and b: "Buffer1Addr (descs S d) = b"
    and ap: "\<forall>x \<in> set ps. region (netw S) x \<inter> {b ..< b + int (tlen (pbufs (netw S)) ps)} = {}"
  shows "\<exists>S'. low_level_output p S = Some (S', if status S d AND ETH_DMATxDesc_OWN = 0 then ERR_OK else ERR_MEM)
    \<and> netw S' = upd_bytes (put_bytes b (content (netw S) ps)) (netw S)
    \<and> (if status S d AND ETH_DMATxDesc_OWN = 0
       then descs S' = (descs S)(d := (descs S d)\<lparr>Status := status S d OR 0xB0000000, ControlBufferSize := of_nat (tlen (pbufs (netw S)) ps)\<rparr>)
         \<and> DMATxDescToSet S' = Buffer2NextDescAddr (descs S d)
       else descs S' = descs S \<and> DMATxDescToSet S' = d)"
  by (rule low_level_output_run [OF assms])

subsection \<open>Instances\<close>

text \<open>A fresh ring, two frames stored in it, and layers above that count octets and free every packet.\<close>

definition eth0 :: "nat eth" where
  "eth0 = ETH_DMARxDescChainInit 0x100 0x1000 5
     \<lparr>netw = net0, descs = (\<lambda>_. \<lparr>Status = 0, ControlBufferSize = 0, Buffer1Addr = 0, Buffer2NextDescAddr = 0\<rparr>),
      DMARxDescToGet = 0, DMATxDescToSet = 0, DMASR = 0, DMARPDR = 0, DMATPDR = 0, DMARDLAR = 0, DMATDLAR = 0, upper = 0\<rparr>"

abbreviation frame_status :: "nat \<Rightarrow> u32" where
  "frame_status n \<equiv> push_bit 16 (of_nat n + 4) OR 0x300"

definition eth2 :: "nat eth" where
  "eth2 = dma_stores (rx_slot 0x100 1) (frame_status 3) [4, 5, 6] (dma_stores (rx_slot 0x100 0) (frame_status 2) [8, 9] eth0)"

lemma eth0_sel [simp]: "netw eth0 = net0" "upper eth0 = 0"
proof -
  have "netw (rx_chain_loop k tab buf cnt S) = netw S \<and> upper (rx_chain_loop k tab buf cnt S) = upper S" for k tab buf cnt and S :: "nat eth"
    by (induction k arbitrary: S) (simp_all add: Let_def upd_desc_def)
  then show "netw eth0 = net0" "upper eth0 = 0" by (simp_all add: eth0_def ETH_DMARxDescChainInit_def)
qed

lemma eth2_ring: "rx_ring 0x100 0x1000 eth2 0 [[8, 9], [4, 5, 6]]" "netw eth2 = upd_bytes (put_bytes 0x15F4 [4, 5, 6]) (upd_bytes (put_bytes 0x1000 [8, 9]) net0)"
  "upper eth2 = 0"
proof -
  have r0: "rx_ring 0x100 0x1000 eth0 0 []" unfolding eth0_def by (rule rx_ring_init) simp
  have good: "rx_good (frame_status 2) (length [8, 9 :: u8])" "rx_good (frame_status 3) (length [4, 5, 6 :: u8])"
    by (simp_all add: rx_good_def rx_bits)
  let ?S = "dma_stores (rx_slot 0x100 0) (frame_status 2) [8, 9] eth0"
  have r1: "rx_ring 0x100 0x1000 ?S 0 [[8, 9]]" using rx_ring_store [OF r0 _ good(1)] by simp
  show "rx_ring 0x100 0x1000 eth2 0 [[8, 9], [4, 5, 6]]" using rx_ring_store [OF r1 _ good(2)] by (simp add: eth2_def)
  have "Buffer1Addr (descs eth0 (rx_slot 0x100 0)) = 0x1000" "Buffer1Addr (descs ?S (rx_slot 0x100 1)) = 0x15F4"
    using rx_ring_desc [OF r0, of 0] rx_ring_desc [OF r1, of 1] by simp_all
  then show "netw eth2 = upd_bytes (put_bytes 0x15F4 [4, 5, 6]) (upd_bytes (put_bytes 0x1000 [8, 9]) net0)"
    by (simp add: eth2_def dma_stores_def)
  show "upper eth2 = 0" by (simp add: eth2_def dma_stores_def)
qed

lemma eth2_pool: "Pbuf.pool_rep pool0 (netw eth2) Map.empty" "\<forall>x \<in> pool0. x mod 4 = 0 \<and> \<not> custom (netw eth2) x"
    "\<forall>x \<in> pool0. {x ..< x + 528} \<inter> {0x1000 ..< 0x1000 + 7620} = {}"
proof -
  show "Pbuf.pool_rep pool0 (netw eth2) Map.empty" "\<forall>x \<in> pool0. x mod 4 = 0 \<and> \<not> custom (netw eth2) x"
    using pool0 by (simp_all add: eth2_ring upd_bytes_def)
  show "\<forall>x \<in> pool0. {x ..< x + 528} \<inter> {0x1000 ..< 0x1000 + 7620} = {}"
    unfolding pool_of_def pool_elems_def
    by (auto simp: pool_element_size memp_types_def memp_sizes_def LWIP_MEM_ALIGN_SIZE_def
      SIZEOF_STRUCT_PBUF_def PBUF_POOL_BUFSIZE_ALIGNED_def memp_num_def)
qed

theorem ethernet_rx_in_order_witness:
  "\<exists>S' p ps. low_level_input eth2 = Some (S', p) \<and> rx_ring 0x100 0x1000 S' 1 [[4, 5, 6]]
    \<and> packet (pbufs (netw S')) p ps \<and> content (netw S') ps = [8, 9]"
  using ethernet_rx_in_order [OF eth2_ring(1) eth2_pool(1) pool0(2) eth2_pool(2,3)] pool0(3)
  by (auto simp: pool_need_def elems_for_def layer_offset_def LWIP_MEM_ALIGN_SIZE_def)


definition counter :: "nat input_fn" where
  "counter p S = do { (N, n) \<leftarrow> pbuf_free p (netw S); Some (S\<lparr>netw := N, upper := upper S + unat (ptot (netw S) p)\<rparr>, ERR_OK) }"

lemma counter_consumes: "consumes counter E M buf (\<lambda>f n. n + length f)"
  unfolding consumes_def
proof (intro allI impI)
  fix S :: "nat eth" and p ps
  assume a: "packet (pbufs (netw S)) p ps \<and> set ps \<inter> dom M = {} \<and> (\<forall>x \<in> set ps. pool_pbuf (netw S) x)
       \<and> Pbuf.pool_rep E (netw S) (hand M ps) \<and> (\<forall>x \<in> E. \<not> custom (netw S) x)"
  let ?N = "release ps (netw S)"
  have pk: "chain (pbufs (netw S)) p (ps @ [])" "distinct (ps @ [])" using a by (simp_all add: packet_def)
  have one: "\<forall>x \<in> set ps. pref (netw S) x = 1 \<and> \<not> custom (netw S) x" "\<forall>x \<in> set ps. p_type (pbufs (netw S) x) = PBUF_POOL"
    using a unfolding pool_pbuf_def by blast+
  have f: "pbuf_free p (netw S) = Some (?N, of_nat (length ps))" using pbuf_free_chain [OF pk one(1)] by simp
  have r: "Pbuf.pool_rep E ?N M" "mheap ?N = mheap (netw S)"
    using release_pool [of ps E "netw S" "hand M ps"] pk(2) a one(2) hand_restrict [of ps M] by auto
  have tot: "unat (ptot (netw S) p) = tlen (pbufs (netw S)) ps" using a by (cases ps) (auto simp: packet_def)
  have cu: "\<forall>x \<in> E. \<not> custom ?N x" using a pk(2) by (simp add: release_pbufs)
  show "\<exists>S'. counter p S = Some (S', ERR_OK) \<and> upper S' = upper S + length (content (netw S) ps)
        \<and> Pbuf.pool_rep E (netw S') M \<and> (\<forall>x \<in> E. \<not> custom (netw S') x)
        \<and> descs S' = descs S \<and> DMARxDescToGet S' = DMARxDescToGet S
        \<and> (\<forall>a. buf \<le> a \<and> a < buf + 7620 \<longrightarrow> mbytes (netw S') a = mbytes (netw S) a)"
    using f r tot cu by (simp add: counter_def)
qed


text \<open>The first segment of a long frame at the head of the ring.\<close>

theorem eth_irq_stalls_witness:
  "\<exists>S'. rx_events counter [Served, Stored (rx_slot 0x100 1) (frame_status 2) [8, 9], Served]
       (dma_stores (rx_slot 0x100 0) 0x200 [1, 2] eth0) = Some S' \<and> upper S' = 0"
proof -
  let ?S = "dma_stores (rx_slot 0x100 0) 0x200 [1, 2] eth0"
  have "DMARxDescToGet ?S = rx_slot 0x100 0" by (simp add: dma_stores_def eth0_def ETH_DMARxDescChainInit_def rx_slot_def Let_def)
  moreover have "status ?S (rx_slot 0x100 0) = 0x200" "upper ?S = 0" by (simp_all add: dma_stores_def)
  ultimately show ?thesis
    using eth_irq_stalls [where S = ?S and inp = counter and es = "[Served, Stored (rx_slot 0x100 1) (frame_status 2) [8, 9], Served]"] by (auto simp: rx_bits)
qed

theorem low_level_output_frame_witness:
  "\<exists>S'. low_level_output 16 (eth0\<lparr>netw := rom2, DMATxDescToSet := 0x200\<rparr>) = Some (S', ERR_OK)
    \<and> DMATxDescToSet S' = 0 \<and> netw S' = upd_bytes (put_bytes 0 [97, 97, 97, 97, 97, 97, 97, 97]) rom2"
proof -
  let ?S = "eth0\<lparr>netw := rom2, DMATxDescToSet := 0x200\<rparr>"
  have d: "descs ?S 0x200 = \<lparr>Status = 0, ControlBufferSize = 0, Buffer1Addr = 0, Buffer2NextDescAddr = 0\<rparr>"
    by (simp add: eth0_def ETH_DMARxDescChainInit_def five Let_def upd_desc_def)
  have pk: "packet (pbufs (netw ?S)) 16 [16, 32]" using rom2_packets(1) by simp
  have c: "content rom2 [16, 32] = [97, 97, 97, 97, 97, 97, 97, 97]" by (simp add: mem_range_def rom2_def pbuf0_def upt_conv_Cons)
  show ?thesis using low_level_output_frame [OF pk, where d = "0x200" and b = 0] c d by (auto simp: region_def rom2_def pbuf0_def)
qed

end
