(* ===== verification/Etharp.thy ===== *)
theory Etharp
  imports Eth_Driver Ip_Addr Inet_Chksum
begin

unbundle bit_operations_syntax

text \<open>
  Model of netif/etharp.c in this configuration (no queues, no static entries, no VLAN, no AutoIP),
  with \<open>ip4_addr_isbroadcast\<close> of core/ipv4/ip_addr.c and \<open>low_level_init\<close> of netif/ethernetif.c. The
  state is that of the Ethernet driver with the ARP table and the interfaces in its upper part;
  \<open>netif->linkoutput\<close> is \<open>low_level_output\<close>, which \<open>ethernetif_init\<close> installs. Headers are the octets of
  the packet in memory, addresses the 32-bit words the (little-endian) processor loads from them.
  \<open>ip_input\<close> and \<open>dhcp_arp_reply\<close> are parameters.
\<close>

subsection \<open>Data\<close>

type_synonym eth_addr = "u8 list"

datatype etharp_state = ETHARP_STATE_EMPTY | ETHARP_STATE_PENDING | ETHARP_STATE_STABLE | ETHARP_STATE_STABLE_REREQUESTING

fun state_code :: "etharp_state \<Rightarrow> nat" where
  "state_code ETHARP_STATE_EMPTY = 0"
| "state_code ETHARP_STATE_PENDING = 1"
| "state_code ETHARP_STATE_STABLE = 2"
| "state_code ETHARP_STATE_STABLE_REREQUESTING = 3"

instantiation etharp_state :: linorder
begin

definition less_eq_etharp_state :: "etharp_state \<Rightarrow> etharp_state \<Rightarrow> bool" where
  "less_eq_etharp_state a b \<longleftrightarrow> state_code a \<le> state_code b"

definition less_etharp_state :: "etharp_state \<Rightarrow> etharp_state \<Rightarrow> bool" where
  "less_etharp_state a b \<longleftrightarrow> state_code a < state_code b"

instance
proof
  fix a b c :: etharp_state
  show "a < b \<longleftrightarrow> a \<le> b \<and> \<not> b \<le> a" "a \<le> a" "a \<le> b \<Longrightarrow> b \<le> c \<Longrightarrow> a \<le> c" "a \<le> b \<or> b \<le> a"
    by (auto simp: less_eq_etharp_state_def less_etharp_state_def)
  show "a \<le> b \<Longrightarrow> b \<le> a \<Longrightarrow> a = b"
    by (cases a; cases b) (simp_all add: less_eq_etharp_state_def)
qed

end

record etharp_entry =
  e_q :: ptr
  e_ipaddr :: u32
  e_netif :: ptr
  e_ethaddr :: eth_addr
  e_state :: etharp_state
  e_ctime :: u8

record netif =
  n_ip_addr :: u32
  n_netmask :: u32
  n_gw :: u32
  n_hwaddr :: eth_addr
  n_mtu :: u16
  n_flags :: u8

record 'v stack =
  netifs :: "ptr \<Rightarrow> netif"
  arp_table :: "etharp_entry list"
  etharp_cached_entry :: nat
  above :: 'v

type_synonym 'v st = "'v stack eth"

record 'v arp_ops =
  ip_input :: "ptr \<Rightarrow> ptr \<Rightarrow> 'v st \<Rightarrow> 'v st option"
  dhcp_arp_reply :: "ptr \<Rightarrow> u32 \<Rightarrow> 'v st \<Rightarrow> 'v st option"

definition ethbroadcast :: eth_addr where "ethbroadcast = [0xff, 0xff, 0xff, 0xff, 0xff, 0xff]"
definition ethzero :: eth_addr where "ethzero = [0, 0, 0, 0, 0, 0]"
definition LL_MULTICAST_ADDR :: "u8 list" where "LL_MULTICAST_ADDR = [0x01, 0x00, 0x5e]"
definition ARP_TABLE_SIZE :: nat where "ARP_TABLE_SIZE = 10"
definition ARP_MAXAGE :: u8 where "ARP_MAXAGE = 240"
definition ARP_AGE_REREQUEST_USED :: u8 where "ARP_AGE_REREQUEST_USED = ARP_MAXAGE - 12"
definition ARP_MAXPENDING :: u8 where "ARP_MAXPENDING = 2"
definition HWTYPE_ETHERNET :: u16 where "HWTYPE_ETHERNET = 1"
definition ETHARP_FLAG_TRY_HARD :: u8 where "ETHARP_FLAG_TRY_HARD = 1"
definition ETHARP_FLAG_FIND_ONLY :: u8 where "ETHARP_FLAG_FIND_ONLY = 2"
definition ETHARP_HWADDR_LEN :: u8 where "ETHARP_HWADDR_LEN = 6"
definition SIZEOF_ETH_HDR :: int where "SIZEOF_ETH_HDR = 14"
definition SIZEOF_ETHARP_HDR :: int where "SIZEOF_ETHARP_HDR = 28"
definition SIZEOF_ETHARP_PACKET :: int where "SIZEOF_ETHARP_PACKET = SIZEOF_ETH_HDR + SIZEOF_ETHARP_HDR"
definition ETHTYPE_ARP :: u16 where "ETHTYPE_ARP = 0x0806"
definition ETHTYPE_IP :: u16 where "ETHTYPE_IP = 0x0800"
definition ARP_REQUEST :: u16 where "ARP_REQUEST = 1"
definition ARP_REPLY :: u16 where "ARP_REPLY = 2"
definition NETIF_FLAG_BROADCAST :: u8 where "NETIF_FLAG_BROADCAST = 0x02"
definition NETIF_FLAG_LINK_UP :: u8 where "NETIF_FLAG_LINK_UP = 0x10"
definition NETIF_FLAG_ETHARP :: u8 where "NETIF_FLAG_ETHARP = 0x20"
definition IPADDR_ANY :: u32 where "IPADDR_ANY = 0"
definition IPADDR_BROADCAST :: u32 where "IPADDR_BROADCAST = 0xffffffff"

lemmas arp_consts = ARP_TABLE_SIZE_def ARP_MAXAGE_def ARP_AGE_REREQUEST_USED_def ARP_MAXPENDING_def
  ETHARP_FLAG_TRY_HARD_def ETHARP_FLAG_FIND_ONLY_def
lemmas hdr_consts = HWTYPE_ETHERNET_def ETHARP_HWADDR_LEN_def SIZEOF_ETH_HDR_def SIZEOF_ETHARP_HDR_def
  SIZEOF_ETHARP_PACKET_def ETHTYPE_ARP_def ETHTYPE_IP_def ARP_REQUEST_def ARP_REPLY_def

abbreviation table :: "'v st \<Rightarrow> etharp_entry list" where "table S \<equiv> arp_table (upper S)"
abbreviation nif :: "'v st \<Rightarrow> ptr \<Rightarrow> netif" where "nif S n \<equiv> netifs (upper S) n"
abbreviation pay :: "'v st \<Rightarrow> ptr \<Rightarrow> ptr" where "pay S p \<equiv> ppay (netw S) p"

definition upd_entry :: "nat \<Rightarrow> (etharp_entry \<Rightarrow> etharp_entry) \<Rightarrow> 'v st \<Rightarrow> 'v st" where
  "upd_entry i f S = S\<lparr>upper := (upper S)\<lparr>arp_table := (table S)[i := f (table S ! i)]\<rparr>\<rparr>"

definition set_hint :: "nat \<Rightarrow> 'v st \<Rightarrow> 'v st" where
  "set_hint i S = S\<lparr>upper := (upper S)\<lparr>etharp_cached_entry := i\<rparr>\<rparr>"

definition free_packet :: "ptr \<Rightarrow> 'v st \<Rightarrow> 'v st option" where
  "free_packet p S = do { (N, n) \<leftarrow> pbuf_free p (netw S); Some (S\<lparr>netw := N\<rparr>) }"

text \<open>Loads and stores of header fields.\<close>

definition ld16 :: "'v st \<Rightarrow> ptr \<Rightarrow> u16" where
  "ld16 S a = load16 (mbytes (netw S) a) (mbytes (netw S) (a + 1))"

definition ld32 :: "'v st \<Rightarrow> ptr \<Rightarrow> u32" where
  "ld32 S a = load32 (mbytes (netw S) a) (mbytes (netw S) (a + 1)) (mbytes (netw S) (a + 2)) (mbytes (netw S) (a + 3))"

definition octets16 :: "u16 \<Rightarrow> u8 list" where
  "octets16 w = [ucast w, ucast (drop_bit 8 w)]"

definition octets32 :: "u32 \<Rightarrow> u8 list" where
  "octets32 w = [ucast w, ucast (drop_bit 8 w), ucast (drop_bit 16 w), ucast (drop_bit 24 w)]"

definition ldmac :: "'v st \<Rightarrow> ptr \<Rightarrow> eth_addr" where
  "ldmac S a = mem_range (mbytes (netw S)) a 6"

definition st_octets :: "ptr \<Rightarrow> u8 list \<Rightarrow> 'v st \<Rightarrow> 'v st" where
  "st_octets a vs S = S\<lparr>netw := upd_bytes (put_bytes a vs) (netw S)\<rparr>"

text \<open>The offsets of the fields of \<open>struct eth_hdr\<close> and, behind it, of \<open>struct etharp_hdr\<close>.\<close>

definition o_dest :: int where "o_dest = 0"
definition o_src :: int where "o_src = 6"
definition o_type :: int where "o_type = 12"
definition o_hwtype :: int where "o_hwtype = 14"
definition o_proto :: int where "o_proto = 16"
definition o_hwlen :: int where "o_hwlen = 18"
definition o_protolen :: int where "o_protolen = 19"
definition o_opcode :: int where "o_opcode = 20"
definition o_shwaddr :: int where "o_shwaddr = 22"
definition o_sipaddr :: int where "o_sipaddr = 28"
definition o_dhwaddr :: int where "o_dhwaddr = 32"
definition o_dipaddr :: int where "o_dipaddr = 38"

lemmas offsets = o_dest_def o_src_def o_type_def o_hwtype_def o_proto_def o_hwlen_def o_protolen_def o_opcode_def
  o_shwaddr_def o_sipaddr_def o_dhwaddr_def o_dipaddr_def

subsection \<open>Addresses\<close>

definition ip_addr_netcmp :: "u32 \<Rightarrow> u32 \<Rightarrow> u32 \<Rightarrow> bool" where
  "ip_addr_netcmp a b m \<longleftrightarrow> a AND m = b AND m"

definition ip_addr_ismulticast :: "u32 \<Rightarrow> bool" where
  "ip_addr_ismulticast a \<longleftrightarrow> a AND lwip_htonl 0xf0000000 = lwip_htonl 0xe0000000"

definition ip_addr_islinklocal :: "u32 \<Rightarrow> bool" where
  "ip_addr_islinklocal a \<longleftrightarrow> a AND lwip_htonl 0xffff0000 = lwip_htonl 0xa9fe0000"

definition ip4_addr_isbroadcast :: "u32 \<Rightarrow> netif \<Rightarrow> bool" where
  "ip4_addr_isbroadcast addr netif =
     (if NOT addr = IPADDR_ANY \<or> addr = IPADDR_ANY then True
      else if n_flags netif AND NETIF_FLAG_BROADCAST = 0 then False
      else if addr = n_ip_addr netif then False
      else if ip_addr_netcmp addr (n_ip_addr netif) (n_netmask netif)
           \<and> addr AND NOT (n_netmask netif) = IPADDR_BROADCAST AND NOT (n_netmask netif) then True
      else False)"

subsection \<open>The table\<close>

definition etharp_free_entry :: "nat \<Rightarrow> 'v st \<Rightarrow> 'v st option" where
  "etharp_free_entry i S = do {
     S \<leftarrow> (if e_q (table S ! i) \<noteq> NULL then do {
             S \<leftarrow> free_packet (e_q (table S ! i)) S;
             Some (upd_entry i (\<lambda>e. e\<lparr>e_q := NULL\<rparr>) S)
           } else Some S);
     Some (upd_entry i (\<lambda>e. e\<lparr>e_state := ETHARP_STATE_EMPTY\<rparr>) S) }"

fun etharp_tmr_loop :: "nat \<Rightarrow> 'v st \<Rightarrow> 'v st option" where
  "etharp_tmr_loop 0 S = Some S"
| "etharp_tmr_loop (Suc k) S = do {
     let i = ARP_TABLE_SIZE - Suc k;
     S \<leftarrow> (if e_state (table S ! i) \<noteq> ETHARP_STATE_EMPTY then do {
             let S = upd_entry i (\<lambda>e. e\<lparr>e_ctime := e_ctime e + 1\<rparr>) S;
             if e_ctime (table S ! i) \<ge> ARP_MAXAGE \<or>
                (e_state (table S ! i) = ETHARP_STATE_PENDING \<and> e_ctime (table S ! i) \<ge> ARP_MAXPENDING)
             then etharp_free_entry i S
             else if e_state (table S ! i) = ETHARP_STATE_STABLE_REREQUESTING
             then Some (upd_entry i (\<lambda>e. e\<lparr>e_state := ETHARP_STATE_STABLE\<rparr>) S)
             else Some S
           } else Some S);
     etharp_tmr_loop k S }"

definition etharp_tmr :: "'v st \<Rightarrow> 'v st option" where
  "etharp_tmr S = etharp_tmr_loop ARP_TABLE_SIZE S"

text \<open>
  The sweep of \<open>etharp_find_entry\<close>: the match, or the candidates. The loop variable is the length of
  the part already searched.
\<close>

record arp_scan =
  old_pending :: nat
  old_stable :: nat
  empty :: nat
  old_queue :: nat
  age_pending :: u8
  age_stable :: u8
  age_queue :: u8

definition scan0 :: arp_scan where
  "scan0 = \<lparr>old_pending = ARP_TABLE_SIZE, old_stable = ARP_TABLE_SIZE, empty = ARP_TABLE_SIZE, old_queue = ARP_TABLE_SIZE,
     age_pending = 0, age_stable = 0, age_queue = 0\<rparr>"

definition scan_entry :: "nat \<Rightarrow> etharp_entry \<Rightarrow> arp_scan \<Rightarrow> arp_scan" where
  "scan_entry i e c =
     (if empty c = ARP_TABLE_SIZE \<and> e_state e = ETHARP_STATE_EMPTY then c\<lparr>empty := i\<rparr>
      else if e_state e \<noteq> ETHARP_STATE_EMPTY then
        (if e_state e = ETHARP_STATE_PENDING then
           (if e_q e \<noteq> NULL then
              (if e_ctime e \<ge> age_queue c then c\<lparr>old_queue := i, age_queue := e_ctime e\<rparr> else c)
            else
              (if e_ctime e \<ge> age_pending c then c\<lparr>old_pending := i, age_pending := e_ctime e\<rparr> else c))
         else if e_state e \<ge> ETHARP_STATE_STABLE then
           (if e_ctime e \<ge> age_stable c then c\<lparr>old_stable := i, age_stable := e_ctime e\<rparr> else c)
         else c)
      else c)"

fun find_scan :: "u32 option \<Rightarrow> etharp_entry list \<Rightarrow> nat \<Rightarrow> arp_scan \<Rightarrow> nat + arp_scan" where
  "find_scan ipaddr [] i c = Inr c"
| "find_scan ipaddr (e # es) i c =
     (if e_state e \<noteq> ETHARP_STATE_EMPTY \<and> ipaddr = Some (e_ipaddr e)
      then Inl i else find_scan ipaddr es (i + 1) (scan_entry i e c))"

text \<open>The result is the index, or the error; \<open>ipaddr\<close> may be a null pointer.\<close>

definition etharp_find_entry :: "u32 option \<Rightarrow> u8 \<Rightarrow> 'v st \<Rightarrow> ('v st \<times> (err_t + nat)) option" where
  "etharp_find_entry ipaddr flags S =
     (case find_scan ipaddr (take ARP_TABLE_SIZE (table S)) 0 scan0 of
        Inl i \<Rightarrow> Some (S, Inr i)
      | Inr c \<Rightarrow>
          if flags AND ETHARP_FLAG_FIND_ONLY \<noteq> 0 \<or> empty c = ARP_TABLE_SIZE \<and> flags AND ETHARP_FLAG_TRY_HARD = 0
          then Some (S, Inl ERR_MEM)
          else
            let found = (\<lambda>i S.
              let S = (case ipaddr of None \<Rightarrow> S | Some a \<Rightarrow> upd_entry i (\<lambda>e. e\<lparr>e_ipaddr := a\<rparr>) S)
              in (upd_entry i (\<lambda>e. e\<lparr>e_ctime := 0\<rparr>) S, Inr i))
            in if empty c < ARP_TABLE_SIZE then Some (found (empty c) S)
               else if old_stable c < ARP_TABLE_SIZE then do { S \<leftarrow> etharp_free_entry (old_stable c) S; Some (found (old_stable c) S) }
               else if old_pending c < ARP_TABLE_SIZE then do { S \<leftarrow> etharp_free_entry (old_pending c) S; Some (found (old_pending c) S) }
               else if old_queue c < ARP_TABLE_SIZE then do { S \<leftarrow> etharp_free_entry (old_queue c) S; Some (found (old_queue c) S) }
               else Some (S, Inl ERR_MEM))"

definition etharp_send_ip :: "ptr \<Rightarrow> eth_addr \<Rightarrow> eth_addr \<Rightarrow> 'v st \<Rightarrow> ('v st \<times> err_t) option" where
  "etharp_send_ip p src dst S =
     (let ethhdr = pay S p;
          S = st_octets (ethhdr + o_dest) dst S;
          S = st_octets (ethhdr + o_src) src S;
          S = st_octets (ethhdr + o_type) (octets16 (lwip_htons ETHTYPE_IP)) S
      in low_level_output p S)"

definition etharp_update_arp_entry :: "ptr \<Rightarrow> u32 \<Rightarrow> eth_addr \<Rightarrow> u8 \<Rightarrow> 'v st \<Rightarrow> ('v st \<times> err_t) option" where
  "etharp_update_arp_entry netif ipaddr ethaddr flags S =
     (if ipaddr = IPADDR_ANY \<or> ip4_addr_isbroadcast ipaddr (nif S netif) \<or> ip_addr_ismulticast ipaddr then Some (S, ERR_ARG)
      else do {
        (S, r) \<leftarrow> etharp_find_entry (Some ipaddr) flags S;
        case r of Inl err \<Rightarrow> Some (S, err)
        | Inr i \<Rightarrow> do {
            let S = upd_entry i (\<lambda>e. e\<lparr>e_state := ETHARP_STATE_STABLE\<rparr>) S;
            let S = upd_entry i (\<lambda>e. e\<lparr>e_netif := netif\<rparr>) S;
            let S = upd_entry i (\<lambda>e. e\<lparr>e_ethaddr := ethaddr\<rparr>) S;
            let S = upd_entry i (\<lambda>e. e\<lparr>e_ctime := 0\<rparr>) S;
            if e_q (table S ! i) \<noteq> NULL then do {
              let p = e_q (table S ! i);
              let S = upd_entry i (\<lambda>e. e\<lparr>e_q := NULL\<rparr>) S;
              (S, err) \<leftarrow> etharp_send_ip p (n_hwaddr (nif S netif)) ethaddr S;
              S \<leftarrow> free_packet p S;
              Some (S, ERR_OK)
            } else Some (S, ERR_OK)
          } })"

fun etharp_cleanup_loop :: "ptr \<Rightarrow> nat \<Rightarrow> 'v st \<Rightarrow> 'v st option" where
  "etharp_cleanup_loop netif 0 S = Some S"
| "etharp_cleanup_loop netif (Suc k) S = do {
     let i = ARP_TABLE_SIZE - Suc k;
     S \<leftarrow> (if e_state (table S ! i) \<noteq> ETHARP_STATE_EMPTY \<and> e_netif (table S ! i) = netif then etharp_free_entry i S else Some S);
     etharp_cleanup_loop netif k S }"

definition etharp_cleanup_netif :: "ptr \<Rightarrow> 'v st \<Rightarrow> 'v st option" where
  "etharp_cleanup_netif netif S = etharp_cleanup_loop netif ARP_TABLE_SIZE S"

text \<open>The index with the addresses the return pointers are set to, or \<open>None\<close> for -1.\<close>

definition etharp_find_addr :: "ptr \<Rightarrow> u32 option \<Rightarrow> 'v st \<Rightarrow> ('v st \<times> (nat \<times> eth_addr \<times> u32) option) option" where
  "etharp_find_addr netif ipaddr S = do {
     (S, r) \<leftarrow> etharp_find_entry ipaddr ETHARP_FLAG_FIND_ONLY S;
     Some (S, case r of
       Inr i \<Rightarrow> if e_state (table S ! i) \<ge> ETHARP_STATE_STABLE
         then Some (i, e_ethaddr (table S ! i), e_ipaddr (table S ! i)) else None
     | Inl err \<Rightarrow> None) }"

subsection \<open>Messages\<close>

definition etharp_raw :: "ptr \<Rightarrow> eth_addr \<Rightarrow> eth_addr \<Rightarrow> eth_addr \<Rightarrow> u32 \<Rightarrow> eth_addr \<Rightarrow> u32 \<Rightarrow> u16 \<Rightarrow> 'v st \<Rightarrow> ('v st \<times> err_t) option" where
  "etharp_raw netif ethsrc_addr ethdst_addr hwsrc_addr ipsrc_addr hwdst_addr ipdst_addr opcode S = do {
     (N, p) \<leftarrow> pbuf_alloc PBUF_RAW (word_of_int SIZEOF_ETHARP_PACKET) PBUF_RAM (netw S);
     let S = S\<lparr>netw := N\<rparr>;
     if p = NULL then Some (S, ERR_MEM)
     else do {
       let h = pay S p;
       let S = st_octets (h + o_opcode) (octets16 (lwip_htons opcode)) S;
       let S = st_octets (h + o_shwaddr) hwsrc_addr S;
       let S = st_octets (h + o_dhwaddr) hwdst_addr S;
       let S = st_octets (h + o_dest) ethdst_addr S;
       let S = st_octets (h + o_src) ethsrc_addr S;
       let S = st_octets (h + o_sipaddr) (octets32 ipsrc_addr) S;
       let S = st_octets (h + o_dipaddr) (octets32 ipdst_addr) S;
       let S = st_octets (h + o_hwtype) (octets16 (lwip_htons HWTYPE_ETHERNET)) S;
       let S = st_octets (h + o_proto) (octets16 (lwip_htons ETHTYPE_IP)) S;
       let S = st_octets (h + o_hwlen) [ETHARP_HWADDR_LEN] S;
       let S = st_octets (h + o_protolen) [4] S;
       let S = st_octets (h + o_type) (octets16 (lwip_htons ETHTYPE_ARP)) S;
       (S, result) \<leftarrow> low_level_output p S;
       S \<leftarrow> free_packet p S;
       Some (S, result)
     } }"

definition etharp_request :: "ptr \<Rightarrow> u32 \<Rightarrow> 'v st \<Rightarrow> ('v st \<times> err_t) option" where
  "etharp_request netif ipaddr S =
     etharp_raw netif (n_hwaddr (nif S netif)) ethbroadcast (n_hwaddr (nif S netif)) (n_ip_addr (nif S netif)) ethzero
       ipaddr ARP_REQUEST S"

text \<open>The request in the packet is turned into the reply.\<close>

definition arp_reply_octets :: "ptr \<Rightarrow> eth_addr \<Rightarrow> ptr \<Rightarrow> 'v st \<Rightarrow> 'v st" where
  "arp_reply_octets netif ethaddr h S =
     (let S = st_octets (h + o_opcode) (octets16 (lwip_htons ARP_REPLY)) S;
          S = st_octets (h + o_dipaddr) (octets32 (ld32 S (h + o_sipaddr))) S;
          S = st_octets (h + o_sipaddr) (octets32 (n_ip_addr (nif S netif))) S;
          S = st_octets (h + o_dhwaddr) (ldmac S (h + o_shwaddr)) S;
          S = st_octets (h + o_dest) (ldmac S (h + o_shwaddr)) S;
          S = st_octets (h + o_shwaddr) ethaddr S
      in st_octets (h + o_src) ethaddr S)"

definition etharp_arp_input :: "'v arp_ops \<Rightarrow> ptr \<Rightarrow> eth_addr \<Rightarrow> ptr \<Rightarrow> 'v st \<Rightarrow> 'v st option" where
  "etharp_arp_input ops netif ethaddr p S =
     (if netif = NULL then Some S
      else if uint (plen (netw S) p) < SIZEOF_ETHARP_PACKET then free_packet p S
      else
        let h = pay S p in
        if ld16 S (h + o_hwtype) \<noteq> lwip_htons HWTYPE_ETHERNET \<or> mbytes (netw S) (h + o_hwlen) \<noteq> ETHARP_HWADDR_LEN
          \<or> mbytes (netw S) (h + o_protolen) \<noteq> 4 \<or> ld16 S (h + o_proto) \<noteq> lwip_htons ETHTYPE_IP
        then free_packet p S
        else do {
          let sipaddr = ld32 S (h + o_sipaddr);
          let dipaddr = ld32 S (h + o_dipaddr);
          let for_us = (n_ip_addr (nif S netif) \<noteq> IPADDR_ANY \<and> dipaddr = n_ip_addr (nif S netif));
          (S, err) \<leftarrow> etharp_update_arp_entry netif sipaddr (ldmac S (h + o_shwaddr))
             (if for_us then ETHARP_FLAG_TRY_HARD else ETHARP_FLAG_FIND_ONLY) S;
          S \<leftarrow> (if ld16 S (h + o_opcode) = lwip_htons ARP_REQUEST then
                  (if for_us then map_option fst (low_level_output p (arp_reply_octets netif ethaddr h S)) else Some S)
                else if ld16 S (h + o_opcode) = lwip_htons ARP_REPLY then dhcp_arp_reply ops netif sipaddr S
                else Some S);
          free_packet p S
        })"

subsection \<open>Output\<close>

definition etharp_output_to_arp_index :: "ptr \<Rightarrow> ptr \<Rightarrow> nat \<Rightarrow> 'v st \<Rightarrow> ('v st \<times> err_t) option" where
  "etharp_output_to_arp_index netif q arp_idx S = do {
     S \<leftarrow> (if e_state (table S ! arp_idx) = ETHARP_STATE_STABLE \<and> e_ctime (table S ! arp_idx) \<ge> ARP_AGE_REREQUEST_USED then do {
             (S, err) \<leftarrow> etharp_request netif (e_ipaddr (table S ! arp_idx)) S;
             Some (if err = ERR_OK then upd_entry arp_idx (\<lambda>e. e\<lparr>e_state := ETHARP_STATE_STABLE_REREQUESTING\<rparr>) S else S)
           } else Some S);
     etharp_send_ip q (n_hwaddr (nif S netif)) (e_ethaddr (table S ! arp_idx)) S }"

text \<open>The first pbuf of the packet that is not \<open>PBUF_ROM\<close>, or the null pointer.\<close>

partial_function (option) first_copied :: "ptr \<Rightarrow> net \<Rightarrow> ptr option" where
  "first_copied p N =
     (if p \<noteq> NULL then (if p_type (pbufs N p) \<noteq> PBUF_ROM then Some p else first_copied (pnx N p) N)
      else Some NULL)"

text \<open>The packet that is queued: a copy in the heap, or a reference, or the null pointer.\<close>

definition take_over :: "ptr \<Rightarrow> net \<Rightarrow> (net \<times> ptr) option" where
  "take_over q N = do {
     p \<leftarrow> first_copied q N;
     if p \<noteq> NULL then do {
       (N, p) \<leftarrow> pbuf_alloc PBUF_RAW (ptot N p) PBUF_RAM N;
       if p \<noteq> NULL then do {
         (N, err) \<leftarrow> pbuf_copy p q N;
         if err \<noteq> ERR_OK then do { (N, n) \<leftarrow> pbuf_free p N; Some (N, NULL) }
         else Some (N, p)
       } else Some (N, NULL)
     } else Some (pbuf_ref q N, q) }"

definition etharp_query :: "ptr \<Rightarrow> u32 \<Rightarrow> ptr \<Rightarrow> 'v st \<Rightarrow> ('v st \<times> err_t) option" where
  "etharp_query netif ipaddr q S =
     (if ip4_addr_isbroadcast ipaddr (nif S netif) \<or> ip_addr_ismulticast ipaddr \<or> ipaddr = IPADDR_ANY then Some (S, ERR_ARG)
      else do {
        (S, r) \<leftarrow> etharp_find_entry (Some ipaddr) ETHARP_FLAG_TRY_HARD S;
        case r of Inl err \<Rightarrow> Some (S, err)
        | Inr i \<Rightarrow> do {
            let S = (if e_state (table S ! i) = ETHARP_STATE_EMPTY then upd_entry i (\<lambda>e. e\<lparr>e_state := ETHARP_STATE_PENDING\<rparr>) S else S);
            (S, result) \<leftarrow> (if e_state (table S ! i) = ETHARP_STATE_PENDING \<or> q = NULL then etharp_request netif ipaddr S
                             else Some (S, ERR_MEM));
            if q = NULL then Some (S, result)
            else if e_state (table S ! i) \<ge> ETHARP_STATE_STABLE then
              let S = set_hint i S in etharp_send_ip q (n_hwaddr (nif S netif)) (e_ethaddr (table S ! i)) S
            else if e_state (table S ! i) = ETHARP_STATE_PENDING then do {
              (N, p) \<leftarrow> take_over q (netw S);
              let S = S\<lparr>netw := N\<rparr>;
              if p \<noteq> NULL then do {
                S \<leftarrow> (if e_q (table S ! i) \<noteq> NULL then free_packet (e_q (table S ! i)) S else Some S);
                Some (upd_entry i (\<lambda>e. e\<lparr>e_q := p\<rparr>) S, ERR_OK)
              } else Some (S, ERR_MEM)
            } else Some (S, result)
          } })"

fun find_stable :: "u32 \<Rightarrow> etharp_entry list \<Rightarrow> nat \<Rightarrow> nat option" where
  "find_stable dst [] i = None"
| "find_stable dst (e # es) i =
     (if e_state e \<ge> ETHARP_STATE_STABLE \<and> dst = e_ipaddr e then Some i else find_stable dst es (i + 1))"

definition mcast_addr :: "u32 \<Rightarrow> eth_addr" where
  "mcast_addr ipaddr = LL_MULTICAST_ADDR @ [ucast (drop_bit 8 ipaddr) AND 0x7f, ucast (drop_bit 16 ipaddr), ucast (drop_bit 24 ipaddr)]"

definition etharp_output :: "ptr \<Rightarrow> ptr \<Rightarrow> u32 \<Rightarrow> 'v st \<Rightarrow> ('v st \<times> err_t) option" where
  "etharp_output netif q ipaddr S =
     (let (N, bad) = pbuf_header q SIZEOF_ETH_HDR (netw S); S = S\<lparr>netw := N\<rparr>; nf = nif S netif in
      if bad \<noteq> 0 then Some (S, ERR_BUF)
      else if ip4_addr_isbroadcast ipaddr nf then etharp_send_ip q (n_hwaddr nf) ethbroadcast S
      else if ip_addr_ismulticast ipaddr then etharp_send_ip q (n_hwaddr nf) (mcast_addr ipaddr) S
      else
        let outside = (\<not> ip_addr_netcmp ipaddr (n_ip_addr nf) (n_netmask nf) \<and> \<not> ip_addr_islinklocal ipaddr) in
        if outside \<and> n_gw nf = IPADDR_ANY then Some (S, ERR_RTE)
        else
          let dst_addr = (if outside then n_gw nf else ipaddr); c = etharp_cached_entry (upper S) in
          if e_state (table S ! c) \<ge> ETHARP_STATE_STABLE \<and> dst_addr = e_ipaddr (table S ! c)
          then etharp_output_to_arp_index netif q c S
          else (case find_stable dst_addr (take ARP_TABLE_SIZE (table S)) 0 of
             Some i \<Rightarrow> etharp_output_to_arp_index netif q i (set_hint i S)
           | None \<Rightarrow> etharp_query netif dst_addr q S))"

subsection \<open>Input\<close>

definition link_flags :: "eth_addr \<Rightarrow> u8 \<Rightarrow> u8" where
  "link_flags dest flags =
     (if dest ! 0 AND 1 \<noteq> 0 then
        (if dest ! 0 = LL_MULTICAST_ADDR ! 0 then
           (if dest ! 1 = LL_MULTICAST_ADDR ! 1 \<and> dest ! 2 = LL_MULTICAST_ADDR ! 2 then flags OR PBUF_FLAG_LLMCAST else flags)
         else if dest = ethbroadcast then flags OR PBUF_FLAG_LLBCAST else flags)
      else flags)"

definition ethernet_input :: "'v arp_ops \<Rightarrow> ptr \<Rightarrow> ptr \<Rightarrow> 'v st \<Rightarrow> ('v st \<times> err_t) option" where
  "ethernet_input ops p netif S = do {
     let drop_it = (\<lambda>S. do { S \<leftarrow> free_packet p S; Some (S, ERR_OK) });
     if uint (plen (netw S) p) \<le> SIZEOF_ETH_HDR then drop_it S
     else do {
       let type = ld16 S (pay S p + o_type);
       let dest = ldmac S (pay S p + o_dest);
       let S = S\<lparr>netw := upd_pbuf p (\<lambda>b. b\<lparr>p_flags := link_flags dest (p_flags b)\<rparr>) (netw S)\<rparr>;
       if type = lwip_htons ETHTYPE_IP then
         (if n_flags (nif S netif) AND NETIF_FLAG_ETHARP = 0 then drop_it S
          else do {
            let (N, bad) = pbuf_header p (- SIZEOF_ETH_HDR) (netw S);
            let S = S\<lparr>netw := N\<rparr>;
            if bad \<noteq> 0 then drop_it S
            else do { S \<leftarrow> ip_input ops p netif S; Some (S, ERR_OK) }
          })
       else if type = lwip_htons ETHTYPE_ARP then
         (if n_flags (nif S netif) AND NETIF_FLAG_ETHARP = 0 then drop_it S
          else do { S \<leftarrow> etharp_arp_input ops netif (n_hwaddr (nif S netif)) p S; Some (S, ERR_OK) })
       else drop_it S
     } }"

subsection \<open>Initialisation of the interface\<close>

text \<open>
  The address is that of \<open>lwipdev\<close>; the descriptor tables and the buffers are those of the board. The
  address registers and the start of the MAC are not part of the state.
\<close>

definition ETH_DMATxDesc_ChecksumTCPUDPICMPFull :: u32 where "ETH_DMATxDesc_ChecksumTCPUDPICMPFull = 0x00C00000"

definition ETH_DMATxDescChecksumInsertionConfig :: "ptr \<Rightarrow> u32 \<Rightarrow> 'u eth \<Rightarrow> 'u eth" where
  "ETH_DMATxDescChecksumInsertionConfig DMATxDesc DMATxDesc_Checksum S = upd_desc DMATxDesc (\<lambda>d. d\<lparr>Status := Status d OR DMATxDesc_Checksum\<rparr>) S"

fun checksum_loop :: "nat \<Rightarrow> ptr \<Rightarrow> 'u eth \<Rightarrow> 'u eth" where
  "checksum_loop 0 tab S = S"
| "checksum_loop (Suc k) tab S =
     checksum_loop k tab (ETH_DMATxDescChecksumInsertionConfig (tab + 32 * int (5 - Suc k)) ETH_DMATxDesc_ChecksumTCPUDPICMPFull S)"

definition upd_nif :: "ptr \<Rightarrow> (netif \<Rightarrow> netif) \<Rightarrow> 'v st \<Rightarrow> 'v st" where
  "upd_nif n f S = S\<lparr>upper := (upper S)\<lparr>netifs := (netifs (upper S))(n := f (nif S n))\<rparr>\<rparr>"

definition low_level_init :: "eth_addr \<Rightarrow> ptr \<Rightarrow> ptr \<Rightarrow> ptr \<Rightarrow> ptr \<Rightarrow> ptr \<Rightarrow> 'v st \<Rightarrow> 'v st \<times> err_t" where
  "low_level_init mac DMATxDscrTab Tx_Buff DMARxDscrTab Rx_Buff netif S =
     (let S = upd_nif netif (\<lambda>f. f\<lparr>n_hwaddr := take 6 mac\<rparr>) S;
          S = upd_nif netif (\<lambda>f. f\<lparr>n_mtu := 1500\<rparr>) S;
          S = upd_nif netif (\<lambda>f. f\<lparr>n_flags := NETIF_FLAG_BROADCAST OR NETIF_FLAG_ETHARP OR NETIF_FLAG_LINK_UP\<rparr>) S;
          S = ETH_DMATxDescChainInit DMATxDscrTab Tx_Buff 5 S;
          S = ETH_DMARxDescChainInit DMARxDscrTab Rx_Buff 5 S
      in (checksum_loop 5 DMATxDscrTab S, ERR_OK))"

subsection \<open>Effects on the table\<close>

lemma stable_iff [simp]: "ETHARP_STATE_STABLE \<le> s \<longleftrightarrow> s = ETHARP_STATE_STABLE \<or> s = ETHARP_STATE_STABLE_REREQUESTING"
  by (cases s) (simp_all add: less_eq_etharp_state_def)

lemma upd_entry_sel [simp]:
  "upper (upd_entry i f S) = (upper S)\<lparr>arp_table := (table S)[i := f (table S ! i)]\<rparr>" "netw (upd_entry i f S) = netw S"
  by (simp_all add: upd_entry_def)

lemma st_octets_sel [simp]: "upper (st_octets a vs S) = upper S" "netw (st_octets a vs S) = upd_bytes (put_bytes a vs) (netw S)"
  by (simp_all add: st_octets_def)

lemma set_hint_sel [simp]: "upper (set_hint i S) = (upper S)\<lparr>etharp_cached_entry := i\<rparr>" "netw (set_hint i S) = netw S"
  by (simp_all add: set_hint_def)

lemma free_packet_upper: "free_packet p S = Some S' \<Longrightarrow> upper S' = upper S"
  by (auto simp: free_packet_def bind_eq_Some_conv)

lemma ETH_Tx_Packet_upper: "upper (fst (ETH_Tx_Packet n S)) = upper S"
  by (simp add: ETH_Tx_Packet_def upd_desc_def write_DMASR_def Let_def)

lemma low_level_output_upper: "low_level_output p S = Some (S', err) \<Longrightarrow> upper S' = upper S"
proof -
  assume "low_level_output p S = Some (S', err)"
  then obtain N l where "S' = fst (ETH_Tx_Packet (word_of_int l) (S\<lparr>netw := N\<rparr>))"
    by (auto simp: low_level_output_def bind_eq_Some_conv case_prod_unfold Let_def)
  then show ?thesis using ETH_Tx_Packet_upper [of "word_of_int l" "S\<lparr>netw := N\<rparr>"] by simp
qed

lemma etharp_send_ip_upper: "etharp_send_ip p src dst S = Some (S', err) \<Longrightarrow> upper S' = upper S"
  by (auto simp: etharp_send_ip_def Let_def dest: low_level_output_upper)

lemma etharp_raw_upper: "etharp_raw n a b c d e f g S = Some (S', err) \<Longrightarrow> upper S' = upper S"
  by (auto simp: etharp_raw_def Let_def bind_eq_Some_conv split: if_splits dest!: low_level_output_upper free_packet_upper)

lemma etharp_request_upper: "etharp_request n a S = Some (S', err) \<Longrightarrow> upper S' = upper S"
  unfolding etharp_request_def by (rule etharp_raw_upper)

lemma etharp_free_entry_upper:
  "etharp_free_entry i S = Some S' \<Longrightarrow> i < length (table S) \<Longrightarrow>
   upper S' = (upper S)\<lparr>arp_table := (table S)[i := (table S ! i)\<lparr>e_q := NULL, e_state := ETHARP_STATE_EMPTY\<rparr>]\<rparr>"
proof -
  assume a: "etharp_free_entry i S = Some S'" "i < length (table S)"
  then show ?thesis
    by (cases "table S ! i") (auto simp: etharp_free_entry_def bind_eq_Some_conv split: if_splits dest!: free_packet_upper)
qed

subsection \<open>The invariant\<close>

text \<open>
  Only pending entries hold a packet, no two entries in use have the same address, and the age of
  an entry in use is below its limit.
\<close>

definition entry_ok :: "etharp_entry \<Rightarrow> bool" where
  "entry_ok e \<longleftrightarrow> (e_q e \<noteq> NULL \<longrightarrow> e_state e = ETHARP_STATE_PENDING)
     \<and> (e_state e \<noteq> ETHARP_STATE_EMPTY \<longrightarrow> e_ctime e < ARP_MAXAGE)
     \<and> (e_state e = ETHARP_STATE_PENDING \<longrightarrow> e_ctime e < ARP_MAXPENDING)"

definition used :: "etharp_entry \<Rightarrow> bool" where "used e \<longleftrightarrow> e_state e \<noteq> ETHARP_STATE_EMPTY"

definition tab_ok :: "etharp_entry list \<Rightarrow> bool" where
  "tab_ok t \<longleftrightarrow> length t = ARP_TABLE_SIZE \<and> (\<forall>i < ARP_TABLE_SIZE. entry_ok (t ! i))
     \<and> (\<forall>i < ARP_TABLE_SIZE. \<forall>j < ARP_TABLE_SIZE. used (t ! i) \<and> used (t ! j) \<and> e_ipaddr (t ! i) = e_ipaddr (t ! j) \<longrightarrow> i = j)"

definition arp_ok :: "'v st \<Rightarrow> bool" where
  "arp_ok S \<longleftrightarrow> tab_ok (table S) \<and> etharp_cached_entry (upper S) < ARP_TABLE_SIZE"

definition free_for :: "u32 \<Rightarrow> nat \<Rightarrow> etharp_entry list \<Rightarrow> bool" where
  "free_for a i t \<longleftrightarrow> (\<forall>j < ARP_TABLE_SIZE. j \<noteq> i \<and> used (t ! j) \<longrightarrow> e_ipaddr (t ! j) \<noteq> a)"

lemma tab_okD: "tab_ok t \<Longrightarrow> length t = ARP_TABLE_SIZE" "tab_ok t \<Longrightarrow> i < ARP_TABLE_SIZE \<Longrightarrow> entry_ok (t ! i)"
  by (simp_all add: tab_ok_def)

lemma tab_ok_upd:
  assumes "tab_ok t" and "i < ARP_TABLE_SIZE" and "entry_ok e" and "used e \<Longrightarrow> free_for (e_ipaddr e) i t"
  shows "tab_ok (t[i := e])"
  using assms unfolding tab_ok_def free_for_def by (auto simp: nth_list_update)

lemma free_for_self: "tab_ok t \<Longrightarrow> i < ARP_TABLE_SIZE \<Longrightarrow> used (t ! i) \<Longrightarrow> free_for (e_ipaddr (t ! i)) i t"
  unfolding tab_ok_def free_for_def by metis

lemma free_for_upd [simp]: "i < length t \<Longrightarrow> free_for a i (t[i := e]) = free_for a i t"
  by (auto simp: free_for_def)

lemma tab_ok_empty:
  "tab_ok t \<Longrightarrow> i < ARP_TABLE_SIZE \<Longrightarrow> e_q e = NULL \<Longrightarrow> e_state e = ETHARP_STATE_EMPTY \<Longrightarrow> tab_ok (t[i := e])"
  by (rule tab_ok_upd) (simp_all add: entry_ok_def used_def)

text \<open>An update of an entry that keeps its address and leaves it in order.\<close>

lemma tab_ok_same:
  "tab_ok t \<Longrightarrow> i < ARP_TABLE_SIZE \<Longrightarrow> entry_ok e \<Longrightarrow> e_ipaddr e = e_ipaddr (t ! i) \<Longrightarrow> (used e \<Longrightarrow> used (t ! i)) \<Longrightarrow>
   tab_ok (t[i := e])"
  by (rule tab_ok_upd) (auto intro: free_for_self)

subsection \<open>The sweep\<close>

definition cand :: "etharp_entry list \<Rightarrow> nat \<Rightarrow> (etharp_entry \<Rightarrow> bool) \<Rightarrow> nat \<Rightarrow> u8 \<Rightarrow> bool" where
  "cand t n P k a \<longleftrightarrow> (k = ARP_TABLE_SIZE \<and> a = 0 \<and> (\<forall>j < n. \<not> P (t ! j)))
     \<or> (k < n \<and> P (t ! k) \<and> a = e_ctime (t ! k) \<and> (\<forall>j < n. P (t ! j) \<longrightarrow> e_ctime (t ! j) \<le> a))"

lemma cand_step:
  assumes "cand t n P k a"
  shows "\<not> P (t ! n) \<Longrightarrow> cand t (Suc n) P k a"
    and "P (t ! n) \<Longrightarrow> \<not> a \<le> e_ctime (t ! n) \<Longrightarrow> cand t (Suc n) P k a"
    and "P (t ! n) \<Longrightarrow> a \<le> e_ctime (t ! n) \<Longrightarrow> cand t (Suc n) P n (e_ctime (t ! n))"
  using assms unfolding cand_def by (auto simp: less_Suc_eq)

abbreviation stable :: "etharp_entry \<Rightarrow> bool" where "stable e \<equiv> ETHARP_STATE_STABLE \<le> e_state e"
abbreviation waiting :: "etharp_entry \<Rightarrow> bool" where "waiting e \<equiv> e_state e = ETHARP_STATE_PENDING \<and> e_q e \<noteq> NULL"
abbreviation asking :: "etharp_entry \<Rightarrow> bool" where "asking e \<equiv> e_state e = ETHARP_STATE_PENDING \<and> e_q e = NULL"

definition scan_inv :: "etharp_entry list \<Rightarrow> nat \<Rightarrow> arp_scan \<Rightarrow> bool" where
  "scan_inv t n c \<longleftrightarrow>
     (empty c = ARP_TABLE_SIZE \<and> (\<forall>j < n. used (t ! j)) \<or> empty c < n \<and> \<not> used (t ! empty c) \<and> (\<forall>j < empty c. used (t ! j)))
     \<and> cand t n stable (old_stable c) (age_stable c) \<and> cand t n asking (old_pending c) (age_pending c)
     \<and> cand t n waiting (old_queue c) (age_queue c)"

lemma scan_step:
  assumes i: "scan_inv t n c" and n: "n < ARP_TABLE_SIZE"
  shows "scan_inv t (Suc n) (scan_entry n (t ! n) c)"
proof -
  note I = i [unfolded scan_inv_def]
  note st = cand_step [OF I [THEN conjunct2, THEN conjunct1]]
  note as = cand_step [OF I [THEN conjunct2, THEN conjunct2, THEN conjunct1]]
  note wa = cand_step [OF I [THEN conjunct2, THEN conjunct2, THEN conjunct2]]
  show ?thesis
  proof (cases "used (t ! n)")
    case False
    then have e: "e_state (t ! n) = ETHARP_STATE_EMPTY" by (simp add: used_def)
    show ?thesis unfolding scan_inv_def
      using I n e st(1) as(1) wa(1) by (auto simp: scan_entry_def used_def less_Suc_eq)
  next
    case True
    have em: "empty (scan_entry n (t ! n) c) = empty c" using True by (simp add: scan_entry_def used_def)
    have "cand t (Suc n) stable (old_stable (scan_entry n (t ! n) c)) (age_stable (scan_entry n (t ! n) c))"
      using True st by (cases "e_state (t ! n)") (auto simp: scan_entry_def used_def)
    moreover have "cand t (Suc n) asking (old_pending (scan_entry n (t ! n) c)) (age_pending (scan_entry n (t ! n) c))"
      using True as by (cases "e_state (t ! n)") (auto simp: scan_entry_def used_def)
    moreover have "cand t (Suc n) waiting (old_queue (scan_entry n (t ! n) c)) (age_queue (scan_entry n (t ! n) c))"
      using True wa by (cases "e_state (t ! n)") (auto simp: scan_entry_def used_def)
    ultimately show ?thesis using I True unfolding scan_inv_def em by (auto simp: less_Suc_eq)
  qed
qed

lemma find_scan_run:
  assumes "scan_inv t n c" and "n + length es = ARP_TABLE_SIZE" and "es = drop n t" and "length t = ARP_TABLE_SIZE"
  shows "case find_scan (Some a) es n c of
      Inl i \<Rightarrow> n \<le> i \<and> i < ARP_TABLE_SIZE \<and> used (t ! i) \<and> e_ipaddr (t ! i) = a
    | Inr c' \<Rightarrow> scan_inv t ARP_TABLE_SIZE c' \<and> (\<forall>i < ARP_TABLE_SIZE. n \<le> i \<and> used (t ! i) \<longrightarrow> e_ipaddr (t ! i) \<noteq> a)"
  using assms
proof (induction es arbitrary: n c)
  case Nil
  then show ?case by simp
next
  case (Cons e es)
  have n: "n < ARP_TABLE_SIZE" "n < length t" using Cons.prems(2,4) by simp_all
  have e: "e = t ! n" "es = drop (Suc n) t" using Cons.prems(3) n(2) by (metis Cons_nth_drop_Suc list.inject)+
  have IH: "case find_scan (Some a) es (Suc n) (scan_entry n e c) of
      Inl i \<Rightarrow> Suc n \<le> i \<and> i < ARP_TABLE_SIZE \<and> used (t ! i) \<and> e_ipaddr (t ! i) = a
    | Inr c' \<Rightarrow> scan_inv t ARP_TABLE_SIZE c' \<and> (\<forall>i < ARP_TABLE_SIZE. Suc n \<le> i \<and> used (t ! i) \<longrightarrow> e_ipaddr (t ! i) \<noteq> a)"
    unfolding e(1) by (rule Cons.IH) (use scan_step [OF Cons.prems(1) n(1)] Cons.prems(2,4) e in auto)
  show ?case
  proof (cases "used e \<and> e_ipaddr e = a")
    case True
    then show ?thesis using e n(1) by (simp add: used_def)
  next
    case False
    then have "find_scan (Some a) (e # es) n c = find_scan (Some a) es (Suc n) (scan_entry n e c)" by (auto simp: used_def)
    then show ?thesis using IH False e(1) by (auto split: sum.splits simp: le_eq_less_or_eq Suc_le_eq)
  qed
qed

lemma find_scan_table:
  assumes "tab_ok t"
  shows "case find_scan (Some a) (take ARP_TABLE_SIZE t) 0 scan0 of
      Inl i \<Rightarrow> i < ARP_TABLE_SIZE \<and> used (t ! i) \<and> e_ipaddr (t ! i) = a
    | Inr c \<Rightarrow> scan_inv t ARP_TABLE_SIZE c \<and> (\<forall>i < ARP_TABLE_SIZE. used (t ! i) \<longrightarrow> e_ipaddr (t ! i) \<noteq> a)"
proof -
  have "scan_inv t 0 scan0" by (simp add: scan_inv_def scan0_def cand_def)
  from find_scan_run [OF this, of t a] show ?thesis using tab_okD(1) [OF assms] by (simp split: sum.splits)
qed

subsection \<open>Finding an entry\<close>

lemma upd_entry_twice: "i < length (table S) \<Longrightarrow> upd_entry i f (upd_entry i g S) = upd_entry i (\<lambda>e. f (g e)) S"
  by (simp add: upd_entry_def)

lemma free_entry_idle:
  "e_q (table S ! i) = NULL \<Longrightarrow> etharp_free_entry i S = Some (upd_entry i (\<lambda>e. e\<lparr>e_state := ETHARP_STATE_EMPTY\<rparr>) S)"
  by (simp add: etharp_free_entry_def)

lemma stable_idle: "arp_ok S \<Longrightarrow> i < ARP_TABLE_SIZE \<Longrightarrow> stable (table S ! i) \<Longrightarrow> e_q (table S ! i) = NULL"
  using tab_okD(2) [of "table S" i] by (auto simp: arp_ok_def entry_ok_def)

lemma cand_full: "cand t ARP_TABLE_SIZE P k a \<Longrightarrow> k < ARP_TABLE_SIZE \<longleftrightarrow> (\<exists>i < ARP_TABLE_SIZE. P (t ! i))"
  unfolding cand_def by auto

lemma cand_pick:
  "cand t ARP_TABLE_SIZE P k a \<Longrightarrow> k < ARP_TABLE_SIZE \<Longrightarrow> P (t ! k) \<and> (\<forall>j < ARP_TABLE_SIZE. P (t ! j) \<longrightarrow> e_ctime (t ! j) \<le> e_ctime (t ! k))"
  unfolding cand_def by auto

lemma scan_empty:
  assumes "scan_inv t ARP_TABLE_SIZE c"
  shows "\<forall>j < ARP_TABLE_SIZE. used (t ! j) \<Longrightarrow> empty c = ARP_TABLE_SIZE"
    and "i < ARP_TABLE_SIZE \<Longrightarrow> \<not> used (t ! i) \<Longrightarrow> \<forall>j < i. used (t ! j) \<Longrightarrow> empty c = i"
    and "empty c = ARP_TABLE_SIZE \<or> empty c < ARP_TABLE_SIZE \<and> \<not> used (t ! empty c)"
  using assms unfolding scan_inv_def by (auto simp: less_Suc_eq) (metis linorder_neqE_nat)+

text \<open>What a search with a new address does with the entry it chooses.\<close>

lemma found_ok:
  assumes t: "tab_ok (table S)" and i: "i < ARP_TABLE_SIZE" and u: "\<not> used (table S ! i)" and f: "free_for a i (table S)"
    and T: "T = upd_entry i (\<lambda>e. e\<lparr>e_ctime := 0\<rparr>) (upd_entry i (\<lambda>e. e\<lparr>e_ipaddr := a\<rparr>) S)"
  shows "tab_ok (table T) \<and> e_ipaddr (table T ! i) = a \<and> free_for a i (table T) \<and> \<not> used (table T ! i) \<and> e_ctime (table T ! i) = 0"
proof -
  have l: "length (table S) = ARP_TABLE_SIZE" by (rule tab_okD(1) [OF t])
  have tT: "table T = (table S)[i := (table S ! i)\<lparr>e_ipaddr := a, e_ctime := 0\<rparr>]" using i l by (simp add: T)
  have "e_q (table S ! i) = NULL" "e_state (table S ! i) = ETHARP_STATE_EMPTY"
    using tab_okD(2) [OF t i] u by (auto simp: entry_ok_def used_def)
  then have "tab_ok (table T)" unfolding tT by (intro tab_ok_empty [OF t i]) simp_all
  then show ?thesis using i l u f unfolding tT by (simp add: used_def)
qed

lemma etharp_find_entry_ok:
  assumes ok: "arp_ok S" and run: "etharp_find_entry (Some a) flags S = Some (S', r)"
  shows "arp_ok S' \<and> netifs (upper S') = netifs (upper S) \<and> (case r of Inl err \<Rightarrow> S' = S \<and> err = ERR_MEM
    | Inr i \<Rightarrow> i < ARP_TABLE_SIZE \<and> e_ipaddr (table S' ! i) = a \<and> free_for a i (table S')
       \<and> (\<not> used (table S' ! i) \<longrightarrow> e_ctime (table S' ! i) = 0))"
proof (cases "find_scan (Some a) (take ARP_TABLE_SIZE (table S)) 0 scan0")
  case (Inl i)
  have t: "tab_ok (table S)" using ok by (simp add: arp_ok_def)
  then show ?thesis using run ok find_scan_table [OF t, of a] free_for_self [OF t, of i] Inl by (auto simp: etharp_find_entry_def)
next
  case (Inr c)
  have t: "tab_ok (table S)" using ok by (simp add: arp_ok_def)
  have c: "scan_inv (table S) ARP_TABLE_SIZE c" "\<forall>i < ARP_TABLE_SIZE. used (table S ! i) \<longrightarrow> e_ipaddr (table S ! i) \<noteq> a"
    using find_scan_table [OF t, of a] Inr by simp_all
  have ff: "free_for a i (table S)" for i using c(2) by (simp add: free_for_def)
  let ?new = "\<lambda>i S. upd_entry i (\<lambda>e. e\<lparr>e_ctime := 0\<rparr>) (upd_entry i (\<lambda>e. e\<lparr>e_ipaddr := a\<rparr>) S)"
  consider (no) "S' = S" "r = Inl ERR_MEM" | (empty) "empty c < ARP_TABLE_SIZE" "S' = ?new (empty c) S" "r = Inr (empty c)"
    | (old) i T where "i < ARP_TABLE_SIZE" "etharp_free_entry i S = Some T" "S' = ?new i T" "r = Inr i"
    using run Inr by (auto simp: etharp_find_entry_def bind_eq_Some_conv Let_def split: if_splits)
  then show ?thesis
  proof cases
    case no
    then show ?thesis using ok by simp
  next
    case empty
    then have "\<not> used (table S ! empty c)" using scan_empty(3) [OF c(1)] by simp
    from found_ok [OF t empty(1) this ff empty(2)] show ?thesis using ok empty by (simp add: arp_ok_def)
  next
    case old
    have l: "length (table S) = ARP_TABLE_SIZE" by (rule tab_okD(1) [OF t])
    have T: "upper T = (upper S)\<lparr>arp_table := (table S)[i := (table S ! i)\<lparr>e_q := NULL, e_state := ETHARP_STATE_EMPTY\<rparr>]\<rparr>"
      using etharp_free_entry_upper [OF old(2)] old(1) l by simp
    have "tab_ok (table T)" unfolding T by simp (rule tab_ok_empty [OF t old(1)], simp_all)
    moreover have "\<not> used (table T ! i)" "free_for a i (table T)" using old(1) l ff by (simp_all add: T used_def)
    ultimately have F: "tab_ok (table S')" "e_ipaddr (table S' ! i) = a" "free_for a i (table S')" "\<not> used (table S' ! i)" "e_ctime (table S' ! i) = 0"
      using found_ok [OF _ old(1) _ _ old(3)] by blast+
    have "netifs (upper S') = netifs (upper S)" "etharp_cached_entry (upper S') = etharp_cached_entry (upper S)" by (simp_all add: old(3) T)
    then show ?thesis using F ok old(1,4) by (simp add: arp_ok_def)
  qed
qed

text \<open>
  C12: the choice \<open>etharp_find_entry\<close> makes. The entry in use for the address is returned; otherwise
  a search gives up, and a new entry is the first empty one, or, when the table is full and may be
  recycled, the oldest stable one, then the oldest pending one without a packet, then the oldest
  pending one with a packet, which is freed.
\<close>

theorem etharp_find_entry_policy:
  fixes S :: "'v st" and a :: u32 and flags :: u8
  assumes ok: "arp_ok S"
  defines "t \<equiv> table S" and "res \<equiv> etharp_find_entry (Some a) flags S" and "n \<equiv> ARP_TABLE_SIZE"
  defines "new \<equiv> (\<lambda>i S. upd_entry i (\<lambda>e. e\<lparr>e_ctime := 0\<rparr>) (upd_entry i (\<lambda>e. e\<lparr>e_ipaddr := a\<rparr>) S))"
    and "oldest \<equiv> (\<lambda>P i. i < n \<and> P (t ! i) \<and> (\<forall>j < n. P (t ! j) \<longrightarrow> e_ctime (t ! j) \<le> e_ctime (t ! i)))"
  shows "(\<forall>i < n. used (t ! i) \<and> e_ipaddr (t ! i) = a \<longrightarrow> res = Some (S, Inr i))
    \<and> ((\<forall>i < n. used (t ! i) \<longrightarrow> e_ipaddr (t ! i) \<noteq> a) \<longrightarrow>
         (if flags AND ETHARP_FLAG_FIND_ONLY \<noteq> 0 then res = Some (S, Inl ERR_MEM)
          else if \<exists>i < n. \<not> used (t ! i) then (\<exists>i < n. \<not> used (t ! i) \<and> (\<forall>j < i. used (t ! j)) \<and> res = Some (new i S, Inr i))
          else if flags AND ETHARP_FLAG_TRY_HARD = 0 then res = Some (S, Inl ERR_MEM)
          else if \<exists>i < n. stable (t ! i)
               then (\<exists>i. oldest stable i \<and> res = Some (new i (upd_entry i (\<lambda>e. e\<lparr>e_state := ETHARP_STATE_EMPTY\<rparr>) S), Inr i))
          else if \<exists>i < n. asking (t ! i)
               then (\<exists>i. oldest asking i \<and> res = Some (new i (upd_entry i (\<lambda>e. e\<lparr>e_state := ETHARP_STATE_EMPTY\<rparr>) S), Inr i))
          else (\<exists>i. oldest waiting i \<and> res = do { S \<leftarrow> etharp_free_entry i S; Some (new i S, Inr i) })))"
proof (cases "find_scan (Some a) (take ARP_TABLE_SIZE (table S)) 0 scan0")
  case (Inl i)
  have ok': "tab_ok (table S)" using ok by (simp add: arp_ok_def)
  have i: "i < n" "used (t ! i)" "e_ipaddr (t ! i) = a" using find_scan_table [OF ok', of a] Inl by (simp_all add: t_def n_def)
  moreover have "res = Some (S, Inr i)" using Inl by (simp add: res_def etharp_find_entry_def)
  moreover have "j = i" if "j < n" "used (t ! j)" "e_ipaddr (t ! j) = a" for j
    using ok' that i unfolding tab_ok_def t_def n_def by metis
  ultimately show ?thesis by blast
next
  case (Inr c)
  have ok': "tab_ok (table S)" using ok by (simp add: arp_ok_def)
  have c: "scan_inv t n c" "\<forall>i < n. used (t ! i) \<longrightarrow> e_ipaddr (t ! i) \<noteq> a"
    using find_scan_table [OF ok', of a] Inr by (simp_all add: t_def n_def)
  have cs: "cand t n stable (old_stable c) (age_stable c)" "cand t n asking (old_pending c) (age_pending c)"
      "cand t n waiting (old_queue c) (age_queue c)"
    using c(1) by (simp_all add: scan_inv_def)
  note full = cs [unfolded n_def, THEN cand_full, folded n_def] and pick = cs [unfolded n_def, THEN cand_pick, folded n_def]
  note em = scan_empty [OF c(1) [unfolded n_def], folded n_def]
  have res: "res = (if flags AND ETHARP_FLAG_FIND_ONLY \<noteq> 0 \<or> empty c = n \<and> flags AND ETHARP_FLAG_TRY_HARD = 0 then Some (S, Inl ERR_MEM)
      else if empty c < n then Some (new (empty c) S, Inr (empty c))
      else if old_stable c < n then do { S \<leftarrow> etharp_free_entry (old_stable c) S; Some (new (old_stable c) S, Inr (old_stable c)) }
      else if old_pending c < n then do { S \<leftarrow> etharp_free_entry (old_pending c) S; Some (new (old_pending c) S, Inr (old_pending c)) }
      else if old_queue c < n then do { S \<leftarrow> etharp_free_entry (old_queue c) S; Some (new (old_queue c) S, Inr (old_queue c)) }
      else Some (S, Inl ERR_MEM))"
    using Inr by (simp add: res_def etharp_find_entry_def new_def n_def)
  have first: "empty c < n \<and> \<not> used (t ! empty c) \<and> (\<forall>j < empty c. used (t ! j))" if "\<exists>i < n. \<not> used (t ! i)"
    using c(1) that by (auto simp: scan_inv_def n_def)
  have idle: "e_q (table S ! i) = NULL" if "i < n" "stable (t ! i) \<or> asking (t ! i)" for i
    using stable_idle [OF ok, of i] that by (auto simp: t_def n_def)
  have some: "\<exists>i < n. waiting (t ! i)" if "\<forall>i < n. used (t ! i)" "\<not> (\<exists>i < n. stable (t ! i))" "\<not> (\<exists>i < n. asking (t ! i))"
  proof -
    have "used (t ! 0) \<and> \<not> stable (t ! 0) \<and> \<not> asking (t ! 0)" using that by (simp add: n_def ARP_TABLE_SIZE_def)
    then have "waiting (t ! 0)" by (cases "e_state (t ! 0)") (auto simp: used_def)
    then show ?thesis by (intro exI [of _ 0]) (simp add: n_def ARP_TABLE_SIZE_def)
  qed
  show ?thesis
  proof (cases "flags AND ETHARP_FLAG_FIND_ONLY \<noteq> 0 \<or> (\<exists>i < n. \<not> used (t ! i)) \<or> flags AND ETHARP_FLAG_TRY_HARD = 0")
    case True
    show ?thesis
    proof (cases "flags AND ETHARP_FLAG_FIND_ONLY \<noteq> 0")
      case True
      then have "res = Some (S, Inl ERR_MEM)" by (simp only: res simp_thms if_True)
      then show ?thesis using True c(2) by (simp only: if_True simp_thms) blast
    next
      case fo: False
      show ?thesis
      proof (cases "\<exists>i < n. \<not> used (t ! i)")
        case True
        then have "empty c < n" "empty c \<noteq> n" using first by auto
        then have "res = Some (new (empty c) S, Inr (empty c))" using fo by (simp only: res simp_thms if_True if_False)
        then show ?thesis using fo True c(2) first [OF True] by (simp only: if_True if_False simp_thms) blast
      next
        case False
        then have "empty c = n" using em(1) by blast
        moreover have th: "flags AND ETHARP_FLAG_TRY_HARD = 0" using True fo False by blast
        ultimately have "res = Some (S, Inl ERR_MEM)" by (simp only: res simp_thms if_True)
        then show ?thesis using fo False th c(2) by (simp only: if_True if_False simp_thms) blast
      qed
    qed
  next
    case False
    then have e: "empty c = n" "\<forall>i < n. used (t ! i)" using em(1) by blast+
    have f: "res = (if old_stable c < n then do { S \<leftarrow> etharp_free_entry (old_stable c) S; Some (new (old_stable c) S, Inr (old_stable c)) }
      else if old_pending c < n then do { S \<leftarrow> etharp_free_entry (old_pending c) S; Some (new (old_pending c) S, Inr (old_pending c)) }
      else if old_queue c < n then do { S \<leftarrow> etharp_free_entry (old_queue c) S; Some (new (old_queue c) S, Inr (old_queue c)) }
      else Some (S, Inl ERR_MEM))"
      using False e(1) by (simp add: res)
    consider (stable) "\<exists>i < n. stable (t ! i)" | (asking) "\<not> (\<exists>i < n. stable (t ! i))" "\<exists>i < n. asking (t ! i)"
      | (waiting) "\<not> (\<exists>i < n. stable (t ! i))" "\<not> (\<exists>i < n. asking (t ! i))" by blast
    then show ?thesis
    proof cases
      case stable
      then have k: "old_stable c < n" using full(1) by blast
      have "oldest stable (old_stable c)" using k pick(1) [OF k] by (simp add: oldest_def)
      moreover have "res = Some (new (old_stable c) (upd_entry (old_stable c) (\<lambda>e. e\<lparr>e_state := ETHARP_STATE_EMPTY\<rparr>) S), Inr (old_stable c))"
        using f k free_entry_idle [OF idle [OF k disjI1 [OF conjunct1 [OF pick(1) [OF k]]]]] by simp
      ultimately show ?thesis using False e(2) c(2) stable by (simp only: if_True if_False simp_thms de_Morgan_disj not_not) blast
    next
      case asking
      then have k: "\<not> old_stable c < n" "old_pending c < n" using full(1,2) by blast+
      have "oldest asking (old_pending c)" using k pick(2) [OF k(2)] by (simp add: oldest_def)
      moreover have "res = Some (new (old_pending c) (upd_entry (old_pending c) (\<lambda>e. e\<lparr>e_state := ETHARP_STATE_EMPTY\<rparr>) S), Inr (old_pending c))"
        using f k free_entry_idle [OF idle [OF k(2) disjI2 [OF conjunct1 [OF pick(2) [OF k(2)]]]]] by simp
      ultimately show ?thesis using False e(2) c(2) asking by (simp only: if_True if_False simp_thms de_Morgan_disj not_not) blast
    next
      case waiting
      then have k: "\<not> old_stable c < n" "\<not> old_pending c < n" "old_queue c < n" using full some e(2) by blast+
      have "oldest waiting (old_queue c)" using k pick(3) [OF k(3)] by (simp add: oldest_def)
      moreover have "res = do { S \<leftarrow> etharp_free_entry (old_queue c) S; Some (new (old_queue c) S, Inr (old_queue c)) }" using f k by simp
      ultimately show ?thesis using False e(2) c(2) waiting by (simp only: if_True if_False simp_thms de_Morgan_disj not_not) blast
    qed
  qed
qed

subsection \<open>Every operation keeps the invariant\<close>

lemma table_length: "arp_ok S \<Longrightarrow> length (table S) = ARP_TABLE_SIZE"
  by (simp add: arp_ok_def tab_okD)

lemma arp_ok_upper: "upper S' = upper S \<Longrightarrow> arp_ok S' = arp_ok S"
  by (simp add: arp_ok_def)

lemma arp_ok_netw [simp]: "arp_ok (S\<lparr>netw := N\<rparr>) = arp_ok S"
  by (rule arp_ok_upper) simp

lemma arp_ok_free_entry: "arp_ok S \<Longrightarrow> i < ARP_TABLE_SIZE \<Longrightarrow> etharp_free_entry i S = Some S' \<Longrightarrow> arp_ok S'"
  using etharp_free_entry_upper [of i S S'] table_length [of S] by (simp add: arp_ok_def tab_ok_empty)

lemma arp_ok_upd:
  assumes "arp_ok S" and "i < ARP_TABLE_SIZE" and "entry_ok (f (table S ! i))" and "e_ipaddr (f (table S ! i)) = e_ipaddr (table S ! i)"
    and "used (f (table S ! i)) \<Longrightarrow> used (table S ! i)"
  shows "arp_ok (upd_entry i f S)"
  using assms tab_ok_same [of "table S" i "f (table S ! i)"] by (simp add: arp_ok_def)

lemma entry_ok_at: "arp_ok S \<Longrightarrow> i < ARP_TABLE_SIZE \<Longrightarrow> entry_ok (table S ! i)"
  by (simp add: arp_ok_def tab_okD)

text \<open>One tick: the age stays below its limit, or the entry is freed.\<close>

lemma arp_ok_tick_entry:
  assumes ok: "arp_ok S" and i: "i < ARP_TABLE_SIZE" and u: "used (table S ! i)"
  defines "T \<equiv> upd_entry i (\<lambda>e. e\<lparr>e_ctime := e_ctime e + 1\<rparr>) S"
  shows "\<not> (e_ctime (table T ! i) \<ge> ARP_MAXAGE \<or> e_state (table T ! i) = ETHARP_STATE_PENDING \<and> e_ctime (table T ! i) \<ge> ARP_MAXPENDING)
      \<Longrightarrow> arp_ok T"
    and "etharp_free_entry i T = Some S' \<Longrightarrow> arp_ok S'"
proof -
  have l: "length (table S) = ARP_TABLE_SIZE" by (rule table_length [OF ok])
  have e: "table T ! i = (table S ! i)\<lparr>e_ctime := e_ctime (table S ! i) + 1\<rparr>" using i l by (simp add: T_def)
  show "\<not> (e_ctime (table T ! i) \<ge> ARP_MAXAGE \<or> e_state (table T ! i) = ETHARP_STATE_PENDING \<and> e_ctime (table T ! i) \<ge> ARP_MAXPENDING)
      \<Longrightarrow> arp_ok T"
    using entry_ok_at [OF ok i] u unfolding e unfolding T_def
    by (intro arp_ok_upd [OF ok i]) (auto simp: entry_ok_def used_def not_le)
  assume "etharp_free_entry i T = Some S'"
  then have "upper S' = (upper S)\<lparr>arp_table := (table S)[i := (table T ! i)\<lparr>e_q := NULL, e_state := ETHARP_STATE_EMPTY\<rparr>]\<rparr>"
    using etharp_free_entry_upper [of i T S'] i l by (simp add: T_def)
  then show "arp_ok S'" using ok i by (simp add: arp_ok_def tab_ok_empty)
qed

lemma etharp_tmr_loop_ok: "k \<le> ARP_TABLE_SIZE \<Longrightarrow> arp_ok S \<Longrightarrow> etharp_tmr_loop k S = Some S' \<Longrightarrow> arp_ok S'"
proof (induction k arbitrary: S)
  case (Suc k)
  let ?i = "ARP_TABLE_SIZE - Suc k" and ?T = "upd_entry (ARP_TABLE_SIZE - Suc k) (\<lambda>e. e\<lparr>e_ctime := e_ctime e + 1\<rparr>) S"
  have i: "?i < ARP_TABLE_SIZE" using Suc.prems(1) by simp
  note tick = arp_ok_tick_entry [OF Suc.prems(2) i]
  obtain S1 where S1: "etharp_tmr_loop k S1 = Some S'" and
    step: "(if e_state (table S ! ?i) \<noteq> ETHARP_STATE_EMPTY then
        if e_ctime (table ?T ! ?i) \<ge> ARP_MAXAGE \<or> e_state (table ?T ! ?i) = ETHARP_STATE_PENDING \<and> e_ctime (table ?T ! ?i) \<ge> ARP_MAXPENDING
        then etharp_free_entry ?i ?T
        else if e_state (table ?T ! ?i) = ETHARP_STATE_STABLE_REREQUESTING then Some (upd_entry ?i (\<lambda>e. e\<lparr>e_state := ETHARP_STATE_STABLE\<rparr>) ?T)
        else Some ?T
      else Some S) = Some S1"
    using Suc.prems(3) unfolding etharp_tmr_loop.simps Let_def bind_eq_Some_conv by blast
  have "arp_ok S1"
  proof (cases "used (table S ! ?i)")
    case False
    then show ?thesis using step Suc.prems(2) by (simp add: used_def)
  next
    case True
    note st = step [unfolded if_P [OF True [unfolded used_def]]]
    show ?thesis
    proof (cases "e_ctime (table ?T ! ?i) \<ge> ARP_MAXAGE \<or> e_state (table ?T ! ?i) = ETHARP_STATE_PENDING \<and> e_ctime (table ?T ! ?i) \<ge> ARP_MAXPENDING")
      case old: True
      show ?thesis using tick(2) [OF True] st unfolding if_P [OF old] by blast
    next
      case young: False
      note T = tick(1) [OF True young]
      have "arp_ok (upd_entry ?i (\<lambda>e. e\<lparr>e_state := ETHARP_STATE_STABLE\<rparr>) ?T)" if "e_state (table ?T ! ?i) = ETHARP_STATE_STABLE_REREQUESTING"
        using entry_ok_at [OF T i] that by (intro arp_ok_upd [OF T i]) (auto simp: entry_ok_def used_def)
      then show ?thesis using st T unfolding if_not_P [OF young] by (simp split: if_splits)
    qed
  qed
  then show ?case using Suc.IH [OF _ _ S1] Suc.prems(1) by simp
qed simp

lemma etharp_cleanup_loop_ok: "k \<le> ARP_TABLE_SIZE \<Longrightarrow> arp_ok S \<Longrightarrow> etharp_cleanup_loop n k S = Some S' \<Longrightarrow> arp_ok S'"
proof (induction k arbitrary: S)
  case (Suc k)
  then show ?case using arp_ok_free_entry [OF Suc.prems(2), of "ARP_TABLE_SIZE - Suc k"]
    by (auto simp: bind_eq_Some_conv Let_def split: if_splits)
qed simp

lemma etharp_update_ok: "arp_ok S \<Longrightarrow> etharp_update_arp_entry n a mac fl S = Some (S', err) \<Longrightarrow> arp_ok S' \<and> netifs (upper S') = netifs (upper S)"
proof -
  assume ok: "arp_ok S" and run: "etharp_update_arp_entry n a mac fl S = Some (S', err)"
  show ?thesis
  proof (cases "a = IPADDR_ANY \<or> ip4_addr_isbroadcast a (nif S n) \<or> ip_addr_ismulticast a")
    case True
    then show ?thesis using run ok by (auto simp: etharp_update_arp_entry_def)
  next
    case False
    then obtain T r where f: "etharp_find_entry (Some a) fl S = Some (T, r)"
      using run by (auto simp: etharp_update_arp_entry_def bind_eq_Some_conv split: if_splits)
    note F = etharp_find_entry_ok [OF ok f]
    show ?thesis
    proof (cases r)
      case (Inl e)
      then show ?thesis using run False f F by (auto simp: etharp_update_arp_entry_def)
    next
      case (Inr i)
      have i: "i < ARP_TABLE_SIZE" "arp_ok T" "e_ipaddr (table T ! i) = a" "free_for a i (table T)" using F Inr by simp_all
      have l: "length (table T) = ARP_TABLE_SIZE" by (rule table_length [OF i(2)])
      let ?e = "(table T ! i)\<lparr>e_q := NULL, e_netif := n, e_ethaddr := mac, e_state := ETHARP_STATE_STABLE, e_ctime := 0\<rparr>"
      have "upper S' = (upper T)\<lparr>arp_table := (table T)[i := ?e]\<rparr>"
        using run False f Inr i(1) l
        by (cases "table T ! i") (auto simp: etharp_update_arp_entry_def bind_eq_Some_conv Let_def split: if_splits
            dest!: etharp_send_ip_upper free_packet_upper)
      moreover have "tab_ok ((table T)[i := ?e])"
        using i by (intro tab_ok_upd) (simp_all add: arp_ok_def entry_ok_def ARP_MAXAGE_def)
      ultimately show ?thesis using i(2) F by (simp add: arp_ok_def)
    qed
  qed
qed

lemma etharp_to_index_ok: "arp_ok S \<Longrightarrow> i < ARP_TABLE_SIZE \<Longrightarrow> etharp_output_to_arp_index n q i S = Some (S', err) \<Longrightarrow> arp_ok S'"
proof -
  assume ok: "arp_ok S" and i: "i < ARP_TABLE_SIZE" and run: "etharp_output_to_arp_index n q i S = Some (S', err)"
  have re: "arp_ok (upd_entry i (\<lambda>e. e\<lparr>e_state := ETHARP_STATE_STABLE_REREQUESTING\<rparr>) T)"
    if "upper T = upper S" "e_state (table S ! i) = ETHARP_STATE_STABLE" for T
    using entry_ok_at [OF ok i] that ok by (intro arp_ok_upd [OF _ i]) (auto simp: entry_ok_def used_def arp_ok_upper [OF that(1)])
  obtain T where T: "etharp_send_ip q (n_hwaddr (nif T n)) (e_ethaddr (table T ! i)) T = Some (S', err)" and
    step: "(if e_state (table S ! i) = ETHARP_STATE_STABLE \<and> e_ctime (table S ! i) \<ge> ARP_AGE_REREQUEST_USED then do {
             (S, err) \<leftarrow> etharp_request n (e_ipaddr (table S ! i)) S;
             Some (if err = ERR_OK then upd_entry i (\<lambda>e. e\<lparr>e_state := ETHARP_STATE_STABLE_REREQUESTING\<rparr>) S else S)
           } else Some S) = Some T"
    using run unfolding etharp_output_to_arp_index_def bind_eq_Some_conv by blast
  have "arp_ok T"
  proof (cases "e_state (table S ! i) = ETHARP_STATE_STABLE \<and> e_ctime (table S ! i) \<ge> ARP_AGE_REREQUEST_USED")
    case True
    then obtain U e where U: "etharp_request n (e_ipaddr (table S ! i)) S = Some (U, e)"
      "T = (if e = ERR_OK then upd_entry i (\<lambda>e. e\<lparr>e_state := ETHARP_STATE_STABLE_REREQUESTING\<rparr>) U else U)"
      using step by (auto simp: bind_eq_Some_conv)
    have "upper U = upper S" by (rule etharp_request_upper [OF U(1)])
    then show ?thesis using re [of U] ok True arp_ok_upper [of U S] by (simp add: U(2))
  next
    case False
    then show ?thesis using step ok by (simp only: if_False option.inject)
  qed
  then show ?thesis using etharp_send_ip_upper [OF T] arp_ok_upper by blast
qed

lemma etharp_query_ok: "arp_ok S \<Longrightarrow> etharp_query n a q S = Some (S', err) \<Longrightarrow> arp_ok S'"
proof -
  assume ok: "arp_ok S" and run: "etharp_query n a q S = Some (S', err)"
  show ?thesis
  proof (cases "ip4_addr_isbroadcast a (nif S n) \<or> ip_addr_ismulticast a \<or> a = IPADDR_ANY")
    case True
    then show ?thesis using run ok by (auto simp: etharp_query_def)
  next
    case False
    then obtain T r where f: "etharp_find_entry (Some a) ETHARP_FLAG_TRY_HARD S = Some (T, r)"
      using run by (auto simp: etharp_query_def bind_eq_Some_conv split: if_splits)
    note F = etharp_find_entry_ok [OF ok f]
    show ?thesis
    proof (cases r)
      case (Inl e)
      then show ?thesis using run False f F by (auto simp: etharp_query_def)
    next
      case (Inr i)
      have i: "i < ARP_TABLE_SIZE" "arp_ok T" "e_ipaddr (table T ! i) = a" "free_for a i (table T)"
          "\<not> used (table T ! i) \<Longrightarrow> e_ctime (table T ! i) = 0"
        using F Inr by simp_all
      have l: "length (table T) = ARP_TABLE_SIZE" by (rule table_length [OF i(2)])
      define U where "U = (if e_state (table T ! i) = ETHARP_STATE_EMPTY then upd_entry i (\<lambda>e. e\<lparr>e_state := ETHARP_STATE_PENDING\<rparr>) T else T)"
      have U: "arp_ok U"
      proof (cases "e_state (table T ! i) = ETHARP_STATE_EMPTY")
        case True
        have "tab_ok ((table T)[i := (table T ! i)\<lparr>e_state := ETHARP_STATE_PENDING\<rparr>])"
          using i entry_ok_at [OF i(2,1)] True
          by (intro tab_ok_upd) (simp_all add: arp_ok_def entry_ok_def used_def ARP_MAXAGE_def ARP_MAXPENDING_def)
        then show ?thesis using i(2) True by (simp add: U_def arp_ok_def)
      qed (simp add: U_def i(2))
      obtain V res where V: "(if e_state (table U ! i) = ETHARP_STATE_PENDING \<or> q = NULL then etharp_request n a U else Some (U, ERR_MEM)) = Some (V, res)"
        and rest: "(if q = NULL then Some (V, res)
            else if e_state (table V ! i) \<ge> ETHARP_STATE_STABLE then
              let S = set_hint i V in etharp_send_ip q (n_hwaddr (nif S n)) (e_ethaddr (table S ! i)) S
            else if e_state (table V ! i) = ETHARP_STATE_PENDING then do {
              (N, p) \<leftarrow> take_over q (netw V);
              let S = V\<lparr>netw := N\<rparr>;
              if p \<noteq> NULL then do {
                S \<leftarrow> (if e_q (table S ! i) \<noteq> NULL then free_packet (e_q (table S ! i)) S else Some S);
                Some (upd_entry i (\<lambda>e. e\<lparr>e_q := p\<rparr>) S, ERR_OK)
              } else Some (S, ERR_MEM)
            } else Some (V, res)) = Some (S', err)"
        using run False f Inr unfolding etharp_query_def U_def
        by (auto simp only: if_False simp_thms sum.case bind.bind_lunit Let_def bind_eq_Some_conv prod.case de_Morgan_disj split: prod.splits)
      have "upper V = upper U" using V etharp_request_upper by (auto split: if_splits)
      then have okV: "arp_ok V" using U arp_ok_upper by blast
      have queued: "arp_ok (upd_entry i (\<lambda>e. e\<lparr>e_q := p\<rparr>) W)" if "upper W = upper V" "e_state (table V ! i) = ETHARP_STATE_PENDING" for p W
        using entry_ok_at [OF okV i(1)] that okV
        by (intro arp_ok_upd [OF _ i(1)]) (auto simp: entry_ok_def used_def arp_ok_upper [OF that(1)])
      have hint: "arp_ok (set_hint i V)" using okV i(1) by (simp add: arp_ok_def)
      consider "S' = V" | "etharp_send_ip q (n_hwaddr (nif (set_hint i V) n)) (e_ethaddr (table (set_hint i V) ! i)) (set_hint i V) = Some (S', err)"
        | "upper S' = upper V" | W p where "S' = upd_entry i (\<lambda>e. e\<lparr>e_q := p\<rparr>) W" "upper W = upper V" "e_state (table V ! i) = ETHARP_STATE_PENDING"
        using rest by (auto simp: bind_eq_Some_conv Let_def split: if_splits dest!: free_packet_upper)
      then show ?thesis
      proof cases
        case 2
        then show ?thesis using etharp_send_ip_upper [OF 2] arp_ok_upper [of S' "set_hint i V"] hint by simp
      next
        case 3
        then show ?thesis using okV arp_ok_upper by blast
      next
        case 4
        then show ?thesis using queued by simp
      qed (use okV in simp)
    qed
  qed
qed

lemma find_stable_bound: "find_stable a es k = Some i \<Longrightarrow> i < k + length es"
proof (induction es arbitrary: k)
  case (Cons e es)
  then show ?case using Cons.IH [of "k + 1"] by (auto split: if_splits)
qed simp

lemma etharp_output_ok: "arp_ok S \<Longrightarrow> etharp_output n q a S = Some (S', err) \<Longrightarrow> arp_ok S'"
proof -
  assume ok: "arp_ok S" and run: "etharp_output n q a S = Some (S', err)"
  obtain N bad where h: "pbuf_header q SIZEOF_ETH_HDR (netw S) = (N, bad)" by fastforce
  let ?S = "S\<lparr>netw := N\<rparr>"
  have S: "arp_ok ?S" "upper ?S = upper S" using ok by simp_all
  have c: "etharp_cached_entry (upper S) < ARP_TABLE_SIZE" using ok by (simp add: arp_ok_def)
  have hint: "arp_ok (set_hint i ?S)" if "i < ARP_TABLE_SIZE" for i using that ok by (simp add: arp_ok_def)
  have fs: "i < ARP_TABLE_SIZE" if "find_stable d (take ARP_TABLE_SIZE (table S)) 0 = Some i" for d i
    using find_stable_bound [OF that] table_length [OF ok] by simp
  consider "S' = ?S" | src dst where "etharp_send_ip q src dst ?S = Some (S', err)"
    | i T where "etharp_output_to_arp_index n q i T = Some (S', err)" "i < ARP_TABLE_SIZE" "arp_ok T"
    | d where "etharp_query n d q ?S = Some (S', err)"
    using run h c S hint fs
    by (simp add: etharp_output_def Let_def split: if_splits option.splits)
  then show ?thesis
  proof cases
    case 2
    then show ?thesis using etharp_send_ip_upper [OF 2] S arp_ok_upper by metis
  next
    case 3
    then show ?thesis using etharp_to_index_ok by blast
  next
    case 4
    then show ?thesis using etharp_query_ok [OF S(1)] by blast
  qed (use S in simp)
qed

text \<open>What ARP asks of the layers above: they use the table only through its operations.\<close>

definition ops_keep :: "'v arp_ops \<Rightarrow> bool" where
  "ops_keep ops \<longleftrightarrow> (\<forall>p n S S'. arp_ok S \<and> ip_input ops p n S = Some S' \<longrightarrow> arp_ok S')
     \<and> (\<forall>n a S S'. arp_ok S \<and> dhcp_arp_reply ops n a S = Some S' \<longrightarrow> arp_ok S')"

lemma arp_ok_octets [simp]: "arp_ok (st_octets a vs S) = arp_ok S"
  by (rule arp_ok_upper) simp

lemma early: "(if a then x else if b then y else if c then y else z) = r \<Longrightarrow> a \<or> b \<or> c \<Longrightarrow> x = r \<or> y = r"
  by (auto split: if_splits)

lemma late: "(if a then x else if b then y else if c then y else z) = r \<Longrightarrow> \<not> (a \<or> b \<or> c) \<Longrightarrow> z = r"
  by (auto split: if_splits)

lemma arp_reply_octets_upper [simp]: "upper (arp_reply_octets n mac h S) = upper S"
  by (simp add: arp_reply_octets_def Let_def)

lemma etharp_arp_input_ok:
  assumes ok: "arp_ok S" and keep: "ops_keep ops" and run: "etharp_arp_input ops n mac p S = Some S'"
  shows "arp_ok S'"
proof -
  have free: "arp_ok U" if "free_packet p T = Some U" "arp_ok T" for T U using free_packet_upper [OF that(1)] that(2) arp_ok_upper by blast
  have out: "arp_ok U" if "low_level_output p T = Some (U, e)" "arp_ok T" for T U e
    using low_level_output_upper [OF that(1)] that(2) arp_ok_upper by blast
  consider "S' = S" | "free_packet p S = Some S'"
    | a m fl T e U where "etharp_update_arp_entry n a m fl S = Some (T, e)" "free_packet p U = Some S'"
        "U = T \<or> dhcp_arp_reply ops n a T = Some U \<or> (\<exists>V e. upper V = upper T \<and> low_level_output p V = Some (U, e))"
  proof -
    let ?bad = "ld16 S (pay S p + o_hwtype) \<noteq> lwip_htons HWTYPE_ETHERNET \<or> mbytes (netw S) (pay S p + o_hwlen) \<noteq> ETHARP_HWADDR_LEN
          \<or> mbytes (netw S) (pay S p + o_protolen) \<noteq> 4 \<or> ld16 S (pay S p + o_proto) \<noteq> lwip_htons ETHTYPE_IP"
    let ?a = "ld32 S (pay S p + o_sipaddr)"
    show ?thesis
    proof (cases "n = NULL \<or> uint (plen (netw S) p) < SIZEOF_ETHARP_PACKET \<or> ?bad")
      case True
      from early [OF run [unfolded etharp_arp_input_def Let_def] this] show ?thesis using that(1,2) by auto
    next
      case False
      note z = late [OF run [unfolded etharp_arp_input_def Let_def] this]
      obtain T e U us where u: "etharp_update_arp_entry n ?a (ldmac S (pay S p + o_shwaddr))
            (if us then ETHARP_FLAG_TRY_HARD else ETHARP_FLAG_FIND_ONLY) S = Some (T, e)" "free_packet p U = Some S'" and
        step: "(if ld16 T (pay S p + o_opcode) = lwip_htons ARP_REQUEST then
            (if us then map_option fst (low_level_output p (arp_reply_octets n mac (pay S p) T)) else Some T)
          else if ld16 T (pay S p + o_opcode) = lwip_htons ARP_REPLY then dhcp_arp_reply ops n ?a T
          else Some T) = Some U"
        using z unfolding bind_eq_Some_conv split_paired_Ex prod.case by blast
      have "U = T \<or> dhcp_arp_reply ops n ?a T = Some U \<or> (\<exists>V e. upper V = upper T \<and> low_level_output p V = Some (U, e))"
        using step arp_reply_octets_upper [of n mac "pay S p" T] by (auto split: if_splits)
      with u show ?thesis by (rule that(3))
    qed
  qed
  then show ?thesis
  proof cases
    case 3
    have T: "arp_ok T" using etharp_update_ok [OF ok 3(1)] by blast
    have "arp_ok U"
      using 3(3)
    proof (elim disjE exE conjE)
      assume "dhcp_arp_reply ops n a T = Some U"
      then show ?thesis using keep T unfolding ops_keep_def by blast
    next
      fix V e assume "upper V = upper T" "low_level_output p V = Some (U, e)"
      then show ?thesis using out T arp_ok_upper by blast
    qed (use T in simp)
    then show ?thesis using free 3(2) by blast
  qed (use ok free in blast)+
qed

lemma ethernet_input_ok:
  assumes ok: "arp_ok S" and keep: "ops_keep ops" and run: "ethernet_input ops p n S = Some (S', err)"
  shows "arp_ok S'"
proof -
  have free: "arp_ok U" if "free_packet p T = Some U" "arp_ok T" for T U using free_packet_upper [OF that(1)] that(2) arp_ok_upper by blast
  consider T where "free_packet p T = Some S'" "upper T = upper S" | T where "ip_input ops p n T = Some S'" "upper T = upper S"
    | T m where "etharp_arp_input ops n m p T = Some S'" "upper T = upper S"
    using run unfolding ethernet_input_def Let_def
    by (simp add: bind_eq_Some_conv split: if_splits prod.splits) fastforce+
  then show ?thesis
  proof cases
    case 1
    then show ?thesis using free ok arp_ok_upper by blast
  next
    case 2
    then show ?thesis using keep ok arp_ok_upper unfolding ops_keep_def by blast
  next
    case 3
    then show ?thesis using etharp_arp_input_ok [OF _ keep 3(1)] ok arp_ok_upper by blast
  qed
qed

text \<open>What happens to ARP: a tick, a frame, a packet to send, a query, the removal of an interface.\<close>

datatype arp_event = Tick | Frame ptr ptr | Send ptr ptr u32 | Query ptr u32 ptr | Cleanup ptr

fun arp_step :: "'v arp_ops \<Rightarrow> arp_event \<Rightarrow> 'v st \<Rightarrow> 'v st option" where
  "arp_step ops Tick S = etharp_tmr S"
| "arp_step ops (Frame p n) S = map_option fst (ethernet_input ops p n S)"
| "arp_step ops (Send n q a) S = map_option fst (etharp_output n q a S)"
| "arp_step ops (Query n a q) S = map_option fst (etharp_query n a q S)"
| "arp_step ops (Cleanup n) S = etharp_cleanup_netif n S"

fun arp_events :: "'v arp_ops \<Rightarrow> arp_event list \<Rightarrow> 'v st \<Rightarrow> 'v st option" where
  "arp_events ops [] S = Some S"
| "arp_events ops (e # es) S = do { S \<leftarrow> arp_step ops e S; arp_events ops es S }"

lemma arp_step_ok: "arp_ok S \<Longrightarrow> ops_keep ops \<Longrightarrow> arp_step ops e S = Some S' \<Longrightarrow> arp_ok S'"
  by (cases e) (auto simp: etharp_tmr_def etharp_cleanup_netif_def intro: etharp_tmr_loop_ok etharp_cleanup_loop_ok
      ethernet_input_ok etharp_output_ok etharp_query_ok)

text \<open>
  C9: the invariant of the ARP table. In the table the program starts with and after every history
  of ticks, received frames, sent packets and queries, only pending entries hold a packet, no
  address is in two entries, every entry in use is younger than its limit (so that the 8-bit age
  never wraps), and the cached index is one of the table.
\<close>

theorem arp_table_invariant:
  fixes ops :: "'v arp_ops"
  assumes "ops_keep ops"
  shows "(\<forall>S :: 'v st. table S = replicate ARP_TABLE_SIZE \<lparr>e_q = NULL, e_ipaddr = 0, e_netif = NULL, e_ethaddr = ethzero,
             e_state = ETHARP_STATE_EMPTY, e_ctime = 0\<rparr> \<and> etharp_cached_entry (upper S) = 0 \<longrightarrow> arp_ok S)
    \<and> (\<forall>es S S'. arp_ok S \<and> arp_events ops es S = Some S' \<longrightarrow> arp_ok S')"
proof (intro conjI allI impI)
  fix S :: "'v st"
  assume "table S = replicate ARP_TABLE_SIZE \<lparr>e_q = NULL, e_ipaddr = 0, e_netif = NULL, e_ethaddr = ethzero,
             e_state = ETHARP_STATE_EMPTY, e_ctime = 0\<rparr> \<and> etharp_cached_entry (upper S) = 0"
  then show "arp_ok S" by (simp add: arp_ok_def tab_ok_def entry_ok_def used_def) (simp add: ARP_TABLE_SIZE_def)
next
  fix es and S S' :: "'v st"
  assume "arp_ok S \<and> arp_events ops es S = Some S'"
  then show "arp_ok S'"
    by (induction es arbitrary: S) (auto simp: bind_eq_Some_conv dest: arp_step_ok [OF _ assms])
qed

subsection \<open>Ageing\<close>

text \<open>What one tick does with an entry that holds no packet.\<close>

definition age :: "etharp_entry \<Rightarrow> etharp_entry" where
  "age e = (if \<not> used e then e
     else let e = e\<lparr>e_ctime := e_ctime e + 1\<rparr> in
       if e_ctime e \<ge> ARP_MAXAGE \<or> e_state e = ETHARP_STATE_PENDING \<and> e_ctime e \<ge> ARP_MAXPENDING then e\<lparr>e_state := ETHARP_STATE_EMPTY\<rparr>
       else if e_state e = ETHARP_STATE_STABLE_REREQUESTING then e\<lparr>e_state := ETHARP_STATE_STABLE\<rparr> else e)"

lemma age_q [simp]: "e_q (age e) = e_q e"
  by (simp add: age_def Let_def)

lemma tick_entry:
  assumes i: "i < length (table S)" and q: "e_q (table S ! i) = NULL"
  shows "(if e_state (table S ! i) \<noteq> ETHARP_STATE_EMPTY then
        let S = upd_entry i (\<lambda>e. e\<lparr>e_ctime := e_ctime e + 1\<rparr>) S in
        if e_ctime (table S ! i) \<ge> ARP_MAXAGE \<or> (e_state (table S ! i) = ETHARP_STATE_PENDING \<and> e_ctime (table S ! i) \<ge> ARP_MAXPENDING)
        then etharp_free_entry i S
        else if e_state (table S ! i) = ETHARP_STATE_STABLE_REREQUESTING then Some (upd_entry i (\<lambda>e. e\<lparr>e_state := ETHARP_STATE_STABLE\<rparr>) S)
        else Some S
      else Some S) = Some (upd_entry i age S)"
proof (cases "used (table S ! i)")
  case False
  then have "upd_entry i age S = S" by (simp add: upd_entry_def age_def)
  then show ?thesis using False by (simp add: used_def)
next
  case True
  let ?T = "upd_entry i (\<lambda>e. e\<lparr>e_ctime := e_ctime e + 1\<rparr>) S"
  have T: "table ?T ! i = (table S ! i)\<lparr>e_ctime := e_ctime (table S ! i) + 1\<rparr>" using i by simp
  have fr: "etharp_free_entry i ?T = Some (upd_entry i (\<lambda>e. e\<lparr>e_state := ETHARP_STATE_EMPTY\<rparr>) ?T)" using q T by (intro free_entry_idle) simp
  have "upd_entry i age S = (let e = table ?T ! i in
      if e_ctime e \<ge> ARP_MAXAGE \<or> e_state e = ETHARP_STATE_PENDING \<and> e_ctime e \<ge> ARP_MAXPENDING then upd_entry i (\<lambda>e. e\<lparr>e_state := ETHARP_STATE_EMPTY\<rparr>) ?T
      else if e_state e = ETHARP_STATE_STABLE_REREQUESTING then upd_entry i (\<lambda>e. e\<lparr>e_state := ETHARP_STATE_STABLE\<rparr>) ?T else ?T)"
    using True i by (simp add: upd_entry_def age_def Let_def)
  then show ?thesis using True fr by (simp add: used_def Let_def del: upd_entry_sel)
qed

lemma tmr_loop_idle:
  "k \<le> ARP_TABLE_SIZE \<Longrightarrow> length (table S) = ARP_TABLE_SIZE \<Longrightarrow> \<forall>i < ARP_TABLE_SIZE. e_q (table S ! i) = NULL \<Longrightarrow>
   \<exists>S'. etharp_tmr_loop k S = Some S' \<and> netw S' = netw S \<and> length (table S') = ARP_TABLE_SIZE
     \<and> (\<forall>j < ARP_TABLE_SIZE. table S' ! j = (if j < ARP_TABLE_SIZE - k then table S ! j else age (table S ! j)))"
proof (induction k arbitrary: S)
  case (Suc k)
  let ?i = "ARP_TABLE_SIZE - Suc k"
  have i: "?i < ARP_TABLE_SIZE" using Suc.prems(1) by simp
  let ?T = "upd_entry ?i age S"
  have T: "table ?T ! j = (if j = ?i then age (table S ! j) else table S ! j)" if "j < ARP_TABLE_SIZE" for j
    using that Suc.prems(2) by simp
  have "length (table ?T) = ARP_TABLE_SIZE" "\<forall>j < ARP_TABLE_SIZE. e_q (table ?T ! j) = NULL"
    using Suc.prems(2,3) T by (simp, metis age_q)
  from Suc.IH [OF _ this] Suc.prems(1) obtain S' where S': "etharp_tmr_loop k ?T = Some S'" "netw S' = netw ?T" "length (table S') = ARP_TABLE_SIZE"
      "\<forall>j < ARP_TABLE_SIZE. table S' ! j = (if j < ARP_TABLE_SIZE - k then table ?T ! j else age (table ?T ! j))"
    by auto
  have "etharp_tmr_loop (Suc k) S = Some S'"
    using tick_entry [of ?i S] i Suc.prems(2,3) S'(1) by (simp add: Let_def)
  moreover have "table S' ! j = (if j < ?i then table S ! j else age (table S ! j))" if "j < ARP_TABLE_SIZE" for j
    using S'(4) [rule_format, OF that] T [OF that] i Suc.prems(1) by (auto simp: not_less)
  ultimately show ?case using S'(2,3) by auto
qed simp

fun etharp_ticks :: "nat \<Rightarrow> 'v st \<Rightarrow> 'v st option" where
  "etharp_ticks 0 S = Some S"
| "etharp_ticks (Suc n) S = do { S \<leftarrow> etharp_tmr S; etharp_ticks n S }"

lemma ticks_idle:
  "length (table S) = ARP_TABLE_SIZE \<Longrightarrow> \<forall>i < ARP_TABLE_SIZE. e_q (table S ! i) = NULL \<Longrightarrow>
   \<exists>S'. etharp_ticks n S = Some S' \<and> netw S' = netw S \<and> (\<forall>i < ARP_TABLE_SIZE. table S' ! i = (age ^^ n) (table S ! i))"
proof (induction n arbitrary: S)
  case (Suc n)
  obtain T where T: "etharp_tmr S = Some T" "netw T = netw S" "length (table T) = ARP_TABLE_SIZE" "\<forall>j < ARP_TABLE_SIZE. table T ! j = age (table S ! j)"
    using tmr_loop_idle [OF le_refl Suc.prems] by (auto simp: etharp_tmr_def)
  have "\<forall>i < ARP_TABLE_SIZE. e_q (table T ! i) = NULL" using T(4) Suc.prems(2) by simp
  from Suc.IH [OF T(3) this] T show ?case by (auto simp: funpow_swap1)
qed simp

lemma age_unused: "\<not> used e \<Longrightarrow> (age ^^ n) e = e"
  by (induction n) (simp_all add: age_def)

lemma age_alive:
  assumes "e_state e = ETHARP_STATE_PENDING \<and> m = 2 \<or> stable e \<and> m = 240" and "unat (e_ctime e) < m"
  shows "if unat (e_ctime e) + n < m
     then used ((age ^^ n) e) \<and> (stable ((age ^^ n) e) \<longleftrightarrow> stable e) \<and> unat (e_ctime ((age ^^ n) e)) = unat (e_ctime e) + n
       \<and> e_ipaddr ((age ^^ n) e) = e_ipaddr e \<and> e_ethaddr ((age ^^ n) e) = e_ethaddr e
     else \<not> used ((age ^^ n) e)"
proof (induction n)
  case 0
  then show ?case using assms by (auto simp: used_def)
next
  case (Suc n)
  let ?e = "(age ^^ n) e"
  show ?case
  proof (cases "unat (e_ctime e) + n < m")
    case False
    then show ?thesis using Suc age_unused [of ?e 1] by simp
  next
    case True
    then have e: "used ?e" "stable ?e \<longleftrightarrow> stable e" "unat (e_ctime ?e) = unat (e_ctime e) + n" "e_ipaddr ?e = e_ipaddr e" "e_ethaddr ?e = e_ethaddr e"
      using Suc by simp_all
    have c: "unat (e_ctime ?e + 1) = Suc (unat (e_ctime e) + n)" using e(3) True assms(1) by (auto simp: unat_word_ariths)
    have p: "e_state ?e = ETHARP_STATE_PENDING \<longleftrightarrow> e_state e = ETHARP_STATE_PENDING"
      using e(1,2) assms(1) by (cases "e_state ?e"; cases "e_state e") (simp_all add: used_def)
    have "(e_ctime ?e + 1 \<ge> ARP_MAXAGE \<or> e_state ?e = ETHARP_STATE_PENDING \<and> e_ctime ?e + 1 \<ge> ARP_MAXPENDING) \<longleftrightarrow> m \<le> Suc (unat (e_ctime e) + n)"
      using assms(1) c p by (auto simp: word_le_nat_alt ARP_MAXAGE_def ARP_MAXPENDING_def)
    then have a: "age ?e = (if m \<le> Suc (unat (e_ctime e) + n) then ?e\<lparr>e_ctime := e_ctime ?e + 1, e_state := ETHARP_STATE_EMPTY\<rparr>
        else if e_state ?e = ETHARP_STATE_STABLE_REREQUESTING then ?e\<lparr>e_ctime := e_ctime ?e + 1, e_state := ETHARP_STATE_STABLE\<rparr>
        else ?e\<lparr>e_ctime := e_ctime ?e + 1\<rparr>)"
      using e(1) by (simp add: age_def Let_def)
    show ?thesis
    proof (cases "m \<le> Suc (unat (e_ctime e) + n)")
      case True
      then show ?thesis by (simp add: a used_def)
    next
      case False
      then show ?thesis using e c by (simp add: a) (auto simp: used_def)
    qed
  qed
qed


subsection \<open>Octets of a header\<close>

lemma octets16_load16: "octets16 (load16 a b) = [a, b]"
proof -
  have "unat a < 256" "unat b < 256" by (rule unat_u8_less)+
  then show ?thesis by (simp add: octets16_def word_unat_eq_iff unat_ucast_u16_u8 unat_load16 unat_drop_bit)
qed

lemma unat_quad_inj: "unat (w :: u32) = x + 256 * (y + 256 * (z + 256 * t)) \<Longrightarrow> x < 256 \<Longrightarrow> y < 256 \<Longrightarrow> z < 256 \<Longrightarrow> t < 256 \<Longrightarrow>
   octets32 w = map of_nat [x, y, z, t]"
proof -
  assume w: "unat w = x + 256 * (y + 256 * (z + 256 * t))" and l: "x < 256" "y < 256" "z < 256" "t < 256"
  have b: "(u + 256 * A) mod 256 = u" "(u + 256 * A) div 256 = A" if "u < 256" for u A :: nat using that by simp_all
  have "unat w div 65536 = unat w div 256 div 256" "unat w div 16777216 = unat w div 256 div 256 div 256" by (simp_all add: div_mult2_eq [symmetric])
  then have "unat w mod 256 = x" "unat w div 256 mod 256 = y" "unat w div 65536 mod 256 = z" "unat w div 16777216 = t"
    unfolding w using b [OF l(1)] b [OF l(2)] b [OF l(3)] by (simp_all only:)
  then show ?thesis using l by (simp add: octets32_def word_unat_eq_iff unat_ucast_u32_u8 unat_drop_bit unat_of_nat)
qed

lemma octets32_load32: "octets32 (load32 a b c d) = [a, b, c, d]"
proof -
  have l: "unat a < 256" "unat b < 256" "unat c < 256" "unat d < 256" by (rule unat_u8_less)+
  have "unat (load32 a b c d) = unat a + 256 * (unat b + 256 * (unat c + 256 * unat d))" by (simp add: unat_load32 unat_load16)
  from unat_quad_inj [OF this l] show ?thesis by simp
qed

lemma digits: "u = a * 256 + r \<Longrightarrow> a = b * 256 + r1 \<Longrightarrow> b = c * 256 + r2 \<Longrightarrow> u = r + 256 * (r1 + 256 * (r2 + 256 * (c :: nat)))"
  by simp

lemma load32_octets32: "octets32 w = [a, b, c, d] \<Longrightarrow> load32 a b c d = w"
proof -
  assume o: "octets32 w = [a, b, c, d]"
  have d: "unat w = unat w mod 256 + 256 * (unat w div 256 mod 256 + 256 * (unat w div 65536 mod 256 + 256 * (unat w div 16777216)))"
  proof -
    have "unat w = unat w div 256 * 256 + unat w mod 256" "unat w div 256 = unat w div 256 div 256 * 256 + unat w div 256 mod 256"
      "unat w div 256 div 256 = unat w div 256 div 256 div 256 * 256 + unat w div 256 div 256 mod 256"
      by (rule div_mod_decomp)+
    moreover have "unat w div 65536 = unat w div 256 div 256" "unat w div 16777216 = unat w div 256 div 256 div 256" by (simp_all add: div_mult2_eq [symmetric])
    ultimately show ?thesis using digits by metis
  qed
  have "unat w div 16777216 < 256" by (rule less_mult_imp_div_less) (use unat_u32_less [of w] in simp)
  then have "unat a = unat w mod 256" "unat b = unat w div 256 mod 256" "unat c = unat w div 65536 mod 256" "unat d = unat w div 16777216"
    using o by (auto simp: octets32_def unat_ucast_u32_u8 unat_drop_bit)
  then show ?thesis using d by (simp add: word_unat_eq_iff unat_load32 unat_load16)
qed

text \<open>Writing inside a range replaces a part of it.\<close>

definition splice :: "nat \<Rightarrow> u8 list \<Rightarrow> u8 list \<Rightarrow> u8 list" where
  "splice k vs xs = take k xs @ vs @ drop (k + length vs) xs"

lemma mem_range_splice:
  assumes "k + length vs \<le> n"
  shows "mem_range (put_bytes (a + int k) vs b) a n = splice k vs (mem_range b a n)"
proof (rule nth_equalityI)
  show "length (mem_range (put_bytes (a + int k) vs b) a n) = length (splice k vs (mem_range b a n))" using assms by (simp add: splice_def)
  fix i assume "i < length (mem_range (put_bytes (a + int k) vs b) a n)"
  then show "mem_range (put_bytes (a + int k) vs b) a n ! i = splice k vs (mem_range b a n) ! i"
    using assms by (auto simp: splice_def nth_append put_bytes_def) (simp add: nat_minus_as_int)
qed

lemma mem_range_part: "k + m \<le> n \<Longrightarrow> mem_range b (a + int k) m = take m (drop k (mem_range b a n))"
  by (simp add: drop_mem_range take_mem_range min_absorb1)

text \<open>An ARP message behind its Ethernet header.\<close>

definition arp_frame :: "eth_addr \<Rightarrow> eth_addr \<Rightarrow> u8 \<Rightarrow> eth_addr \<Rightarrow> u32 \<Rightarrow> eth_addr \<Rightarrow> u32 \<Rightarrow> u8 list" where
  "arp_frame dst src op shw sip thw tip =
     dst @ src @ [0x08, 0x06, 0, 1, 0x08, 0, 6, 4, 0, op] @ shw @ octets32 sip @ thw @ octets32 tip"

lemma length_octets32 [simp]: "length (octets32 w) = 4"
  by (simp add: octets32_def)

lemma ld32_part:
  assumes "take 4 (drop k (mem_range (mbytes (netw S)) a n)) = octets32 w" and "k + 4 \<le> n"
  shows "ld32 S (a + int k) = w" and "octets32 (ld32 S (a + int k)) = octets32 w"
proof -
  have "mem_range (mbytes (netw S)) (a + int k) 4 = octets32 w" using assms mem_range_part by metis
  then have "octets32 w = [mbytes (netw S) (a + int k), mbytes (netw S) (a + int k + 1), mbytes (netw S) (a + int k + 2), mbytes (netw S) (a + int k + 3)]"
    by (simp add: mem_range_def upt_conv_Cons add.assoc)
  then show "ld32 S (a + int k) = w" unfolding ld32_def by (rule load32_octets32)
  then show "octets32 (ld32 S (a + int k)) = octets32 w" by simp
qed

lemma ldmac_part: "k + 6 \<le> n \<Longrightarrow> ldmac S (a + int k) = take 6 (drop k (mem_range (mbytes (netw S)) a n))"
  unfolding ldmac_def by (rule mem_range_part)

lemma arp_reply_frame:
  fixes S :: "'v st"
  assumes f: "mem_range (mbytes (netw S)) h n = arp_frame d s 1 shw sip thw tip @ pad"
    and l: "length d = 6" "length s = 6" "length shw = 6" "length thw = 6" "length mac = 6"
  shows "mem_range (mbytes (netw (arp_reply_octets nf mac h S))) h n = arp_frame shw mac 2 mac (n_ip_addr (nif S nf)) shw sip @ pad"
    and "a < h \<or> h + 42 \<le> a \<Longrightarrow> mbytes (netw (arp_reply_octets nf mac h S)) a = mbytes (netw S) a"
    and "pbufs (netw (arp_reply_octets nf mac h S)) = pbufs (netw S)"
    and "pools (netw (arp_reply_octets nf mac h S)) = pools (netw S)"
    and "descs (arp_reply_octets nf mac h S) = descs S" "DMATxDescToSet (arp_reply_octets nf mac h S) = DMATxDescToSet S"
proof -
  have "length (mem_range (mbytes (netw S)) h n) = 42 + length pad" unfolding f arp_frame_def using l by simp
  then have n: "n = 42 + length pad" by simp
  let ?B = "\<lambda>S :: 'v st. mem_range (mbytes (netw S)) h n" and ?my = "octets32 (n_ip_addr (nif S nf))"
  let ?S1 = "st_octets (h + int 20) [0, 2] S"
  let ?S2 = "st_octets (h + int 38) (octets32 sip) ?S1"
  let ?S3 = "st_octets (h + int 28) ?my ?S2"
  let ?S4 = "st_octets (h + int 32) shw ?S3"
  let ?S5 = "st_octets (h + int 0) shw ?S4"
  let ?S6 = "st_octets (h + int 22) mac ?S5"
  let ?S7 = "st_octets (h + int 6) mac ?S6"
  have put: "?B (st_octets (h + int k) vs T) = splice k vs (?B T)" if "k + length vs \<le> 42" for k vs and T :: "'v st"
    using mem_range_splice [of k vs n h "mbytes (netw T)"] that n by simp
  have o2: "octets16 (lwip_htons ARP_REPLY) = [0, 2]" by (simp add: octets16_def lwip_htons_def ARP_REPLY_def)
  have B1: "?B ?S1 = arp_frame d s 2 shw sip thw tip @ pad"
    by (subst put, simp) (simp add: f arp_frame_def splice_def l)
  have B2: "?B ?S2 = arp_frame d s 2 shw sip thw sip @ pad"
    by (subst put, simp, simp only: B1) (simp add: arp_frame_def splice_def l)
  have B3: "?B ?S3 = arp_frame d s 2 shw (n_ip_addr (nif S nf)) thw sip @ pad"
    by (subst put, simp, simp only: B2) (simp add: arp_frame_def splice_def l)
  have B4: "?B ?S4 = arp_frame d s 2 shw (n_ip_addr (nif S nf)) shw sip @ pad"
    by (subst put, simp add: l, simp only: B3) (simp add: arp_frame_def splice_def l)
  have B5: "?B ?S5 = arp_frame shw s 2 shw (n_ip_addr (nif S nf)) shw sip @ pad"
    by (subst put, simp add: l, simp only: B4) (simp add: arp_frame_def splice_def l)
  have B6: "?B ?S6 = arp_frame shw s 2 mac (n_ip_addr (nif S nf)) shw sip @ pad"
    by (subst put, simp add: l, simp only: B5) (simp add: arp_frame_def splice_def l)
  have B7: "?B ?S7 = arp_frame shw mac 2 mac (n_ip_addr (nif S nf)) shw sip @ pad"
    by (subst put, simp add: l, simp only: B6) (simp add: arp_frame_def splice_def l)
  have r1: "octets32 (ld32 ?S1 (h + int 28)) = octets32 sip" by (rule ld32_part(2) [of 28 _ h n]) (simp_all only: B1, simp_all add: arp_frame_def l n)
  have r3: "ldmac ?S3 (h + int 22) = shw" by (subst ldmac_part [of 22 n]) (simp_all only: B3, simp_all add: arp_frame_def l n)
  have r4: "ldmac ?S4 (h + int 22) = shw" by (subst ldmac_part [of 22 n]) (simp_all only: B4, simp_all add: arp_frame_def l n)
  have run: "arp_reply_octets nf mac h S = ?S7"
    using r1 r3 r4 o2 by (simp add: arp_reply_octets_def Let_def offsets)
  show "mem_range (mbytes (netw (arp_reply_octets nf mac h S))) h n = arp_frame shw mac 2 mac (n_ip_addr (nif S nf)) shw sip @ pad"
    unfolding run by (rule B7)
  show "a < h \<or> h + 42 \<le> a \<Longrightarrow> mbytes (netw (arp_reply_octets nf mac h S)) a = mbytes (netw S) a"
    unfolding run using l by (auto simp: put_bytes_outside)
  show "pbufs (netw (arp_reply_octets nf mac h S)) = pbufs (netw S)" "pools (netw (arp_reply_octets nf mac h S)) = pools (netw S)"
    "descs (arp_reply_octets nf mac h S) = descs S" "DMATxDescToSet (arp_reply_octets nf mac h S) = DMATxDescToSet S"
    by (simp_all add: arp_reply_octets_def Let_def st_octets_def upd_bytes_def)
qed

subsection \<open>Answering a request\<close>

definition unicast :: "u32 \<Rightarrow> netif \<Rightarrow> bool" where
  "unicast a nf \<longleftrightarrow> a \<noteq> IPADDR_ANY \<and> \<not> ip4_addr_isbroadcast a nf \<and> \<not> ip_addr_ismulticast a"

text \<open>When no entry holds a packet, an entry is always found, and nothing but the table changes.\<close>

lemma find_entry_idle:
  assumes ok: "arp_ok S" and q: "\<forall>i < ARP_TABLE_SIZE. e_q (table S ! i) = NULL"
  shows "\<exists>i t. etharp_find_entry (Some a) ETHARP_FLAG_TRY_HARD S = Some (S\<lparr>upper := (upper S)\<lparr>arp_table := t\<rparr>\<rparr>, Inr i)
    \<and> e_q (t ! i) = NULL"
proof (cases "find_scan (Some a) (take ARP_TABLE_SIZE (table S)) 0 scan0")
  case (Inl i)
  have "tab_ok (table S)" using ok by (simp add: arp_ok_def)
  from find_scan_table [OF this, of a] Inl q show ?thesis
    by (intro exI [of _ i] exI [of _ "table S"]) (simp add: etharp_find_entry_def)
next
  case (Inr c)
  have "tab_ok (table S)" using ok by (simp add: arp_ok_def)
  from find_scan_table [OF this, of a] Inr have c: "scan_inv (table S) ARP_TABLE_SIZE c" by simp
  have cs: "cand (table S) ARP_TABLE_SIZE stable (old_stable c) (age_stable c)" "cand (table S) ARP_TABLE_SIZE asking (old_pending c) (age_pending c)"
    using c by (simp_all add: scan_inv_def)
  have l: "length (table S) = ARP_TABLE_SIZE" by (rule table_length [OF ok])
  have fl: "ETHARP_FLAG_TRY_HARD AND ETHARP_FLAG_FIND_ONLY = 0" "ETHARP_FLAG_TRY_HARD AND ETHARP_FLAG_TRY_HARD \<noteq> 0"
    by (simp_all add: ETHARP_FLAG_TRY_HARD_def ETHARP_FLAG_FIND_ONLY_def)
  have new: "\<exists>j t. Some (upd_entry i (\<lambda>e. e\<lparr>e_ctime := 0\<rparr>) (upd_entry i (\<lambda>e. e\<lparr>e_ipaddr := a\<rparr>) T), Inr i)
       = Some (S\<lparr>upper := (upper S)\<lparr>arp_table := t\<rparr>\<rparr>, Inr j) \<and> e_q (t ! j) = NULL"
    if "T = S \<or> T = upd_entry i (\<lambda>e. e\<lparr>e_state := ETHARP_STATE_EMPTY\<rparr>) S" "i < ARP_TABLE_SIZE" for i and T :: "'a st"
    using that q l by (intro exI [of _ i] exI [of _ "(table T)[i := (table T ! i)\<lparr>e_ipaddr := a, e_ctime := 0\<rparr>]"]) (auto simp: upd_entry_def)
  have idle: "etharp_free_entry i S = Some (upd_entry i (\<lambda>e. e\<lparr>e_state := ETHARP_STATE_EMPTY\<rparr>) S)" if "i < ARP_TABLE_SIZE" for i
    using free_entry_idle q that by blast
  have "empty c < ARP_TABLE_SIZE \<or> old_stable c < ARP_TABLE_SIZE \<or> old_pending c < ARP_TABLE_SIZE"
  proof (cases "used (table S ! 0)")
    case True
    then have "stable (table S ! 0) \<or> asking (table S ! 0)" using q by (cases "e_state (table S ! 0)") (auto simp: used_def ARP_TABLE_SIZE_def)
    then show ?thesis using cand_full [OF cs(1)] cand_full [OF cs(2)] by (metis ARP_TABLE_SIZE_def zero_less_numeral)
  next
    case False
    then show ?thesis using scan_empty(2) [OF c, of 0] by (simp add: ARP_TABLE_SIZE_def)
  qed
  moreover have "empty c = ARP_TABLE_SIZE \<or> empty c < ARP_TABLE_SIZE" using scan_empty(3) [OF c] by blast
  ultimately show ?thesis
    using Inr fl idle new by (auto simp: etharp_find_entry_def Let_def)
qed

lemma update_entry_idle:
  assumes ok: "arp_ok S" and q: "\<forall>i < ARP_TABLE_SIZE. e_q (table S ! i) = NULL" and a: "unicast a (nif S n)"
  shows "\<exists>i t. etharp_update_arp_entry n a mac ETHARP_FLAG_TRY_HARD S = Some (S\<lparr>upper := (upper S)\<lparr>arp_table := t\<rparr>\<rparr>, ERR_OK)
    \<and> i < ARP_TABLE_SIZE \<and> e_state (t ! i) = ETHARP_STATE_STABLE \<and> e_ipaddr (t ! i) = a \<and> e_ethaddr (t ! i) = mac"
proof -
  obtain i t where f: "etharp_find_entry (Some a) ETHARP_FLAG_TRY_HARD S = Some (S\<lparr>upper := (upper S)\<lparr>arp_table := t\<rparr>\<rparr>, Inr i)" "e_q (t ! i) = NULL"
    using find_entry_idle [OF ok q] by blast
  note F = etharp_find_entry_ok [OF ok f(1)]
  have i: "i < ARP_TABLE_SIZE" "e_ipaddr (t ! i) = a" "length t = ARP_TABLE_SIZE" using F table_length by fastforce+
  let ?e = "(t ! i)\<lparr>e_netif := n, e_ethaddr := mac, e_state := ETHARP_STATE_STABLE, e_ctime := 0\<rparr>"
  have "etharp_update_arp_entry n a mac ETHARP_FLAG_TRY_HARD S = Some (S\<lparr>upper := (upper S)\<lparr>arp_table := t[i := ?e]\<rparr>\<rparr>, ERR_OK)"
    using f i a by (cases "t ! i") (simp add: etharp_update_arp_entry_def unicast_def upd_entry_def Let_def)
  then show ?thesis using i by (intro exI [of _ i] exI [of _ "t[i := ?e]"]) simp
qed

lemma ld16_part:
  assumes "take 2 (drop k (mem_range (mbytes (netw S)) a n)) = [x, y]" and "k + 2 \<le> n"
  shows "ld16 S (a + int k) = load16 x y"
proof -
  have "mem_range (mbytes (netw S)) (a + int k) 2 = [x, y]" using assms mem_range_part by metis
  then show ?thesis by (simp add: ld16_def mem_range_def upt_conv_Cons eval_nat_numeral)
qed

lemma ld8_part: "take 1 (drop k (mem_range (mbytes (netw S)) a n)) = [x] \<Longrightarrow> k + 1 \<le> n \<Longrightarrow> mbytes (netw S) (a + int k) = x"
  using mem_range_part [of k 1 n "mbytes (netw S)" a] by (simp add: mem_range_def)

text \<open>What the checks of \<open>ethernet_input\<close> and \<open>etharp_arp_input\<close> read in an ARP message.\<close>

lemma arp_frame_fields:
  assumes f: "mem_range (mbytes (netw S)) h n = arp_frame d s op shw sip thw tip @ pad"
    and l: "length d = 6" "length s = 6" "length shw = 6" "length thw = 6"
  shows "ld16 S (h + o_type) = lwip_htons ETHTYPE_ARP" "ld16 S (h + o_hwtype) = lwip_htons HWTYPE_ETHERNET"
    "mbytes (netw S) (h + o_hwlen) = ETHARP_HWADDR_LEN" "mbytes (netw S) (h + o_protolen) = 4" "ld16 S (h + o_proto) = lwip_htons ETHTYPE_IP"
    "ld32 S (h + o_sipaddr) = sip" "ld32 S (h + o_dipaddr) = tip" "ldmac S (h + o_shwaddr) = shw"
    "ld16 S (h + o_opcode) = load16 0 op"
proof -
  have "length (mem_range (mbytes (netw S)) h n) = 42 + length pad" unfolding f arp_frame_def using l by simp
  then have n: "42 \<le> n" by simp
  have load: "load16 8 6 = lwip_htons ETHTYPE_ARP" "load16 0 1 = lwip_htons HWTYPE_ETHERNET" "load16 8 0 = lwip_htons ETHTYPE_IP"
    by (simp_all add: load16_def lwip_htons_def hdr_consts)
  have "ld16 S (h + int 12) = load16 8 6" by (rule ld16_part [of 12 S h n]) (use n in \<open>simp_all add: f arp_frame_def l\<close>)
  then show "ld16 S (h + o_type) = lwip_htons ETHTYPE_ARP" by (simp add: load offsets)
  have "ld16 S (h + int 14) = load16 0 1" by (rule ld16_part [of 14 S h n]) (use n in \<open>simp_all add: f arp_frame_def l\<close>)
  then show "ld16 S (h + o_hwtype) = lwip_htons HWTYPE_ETHERNET" by (simp add: load offsets)
  have "ld16 S (h + int 16) = load16 8 0" by (rule ld16_part [of 16 S h n]) (use n in \<open>simp_all add: f arp_frame_def l\<close>)
  then show "ld16 S (h + o_proto) = lwip_htons ETHTYPE_IP" by (simp add: load offsets)
  have "mbytes (netw S) (h + int 18) = 6" by (rule ld8_part [of 18 S h n]) (use n in \<open>simp_all add: f arp_frame_def l\<close>)
  then show "mbytes (netw S) (h + o_hwlen) = ETHARP_HWADDR_LEN" by (simp add: offsets ETHARP_HWADDR_LEN_def)
  have "mbytes (netw S) (h + int 19) = 4" by (rule ld8_part [of 19 S h n]) (use n in \<open>simp_all add: f arp_frame_def l\<close>)
  then show "mbytes (netw S) (h + o_protolen) = 4" by (simp add: offsets)
  have "ld32 S (h + int 28) = sip" by (rule ld32_part(1) [of 28 S h n]) (use n in \<open>simp_all add: f arp_frame_def l\<close>)
  then show "ld32 S (h + o_sipaddr) = sip" by (simp add: offsets)
  have "ld32 S (h + int 38) = tip" by (rule ld32_part(1) [of 38 S h n]) (use n in \<open>simp_all add: f arp_frame_def l\<close>)
  then show "ld32 S (h + o_dipaddr) = tip" by (simp add: offsets)
  have "ldmac S (h + int 22) = shw" by (subst ldmac_part [of 22 n]) (use n in \<open>simp_all add: f arp_frame_def l\<close>)
  then show "ldmac S (h + o_shwaddr) = shw" by (simp add: offsets)
  have "ld16 S (h + int 20) = load16 0 op" by (rule ld16_part [of 20 S h n]) (use n in \<open>simp_all add: f arp_frame_def l\<close>)
  then show "ld16 S (h + o_opcode) = load16 0 op" by (simp add: offsets)
qed

lemma link_flags_custom: "link_flags d fl AND PBUF_FLAG_IS_CUSTOM = fl AND PBUF_FLAG_IS_CUSTOM"
proof -
  have "(fl OR x) AND PBUF_FLAG_IS_CUSTOM = fl AND PBUF_FLAG_IS_CUSTOM" if "x AND PBUF_FLAG_IS_CUSTOM = 0" for x
    using that by (simp add: bit.conj_disj_distrib2)
  moreover have "PBUF_FLAG_LLMCAST AND PBUF_FLAG_IS_CUSTOM = 0" "PBUF_FLAG_LLBCAST AND PBUF_FLAG_IS_CUSTOM = 0"
    by (simp_all add: PBUF_FLAG_LLMCAST_def PBUF_FLAG_LLBCAST_def PBUF_FLAG_IS_CUSTOM_def)
  ultimately show ?thesis by (simp add: link_flags_def)
qed

text \<open>
  C4: an ARP request for the address of the interface is answered. The frame handed to the DMA is,
  octet for octet, the reply that gives the address of the interface to the host that asked; the
  address of that host is entered in the table as resolved; and the packet is returned to the pool.
\<close>

theorem arp_request_answered:
  fixes S :: "'v st"
  assumes ok: "arp_ok S" and q: "\<forall>i < ARP_TABLE_SIZE. e_q (table S ! i) = NULL"
    and n: "n \<noteq> NULL" "n_flags (nif S n) AND NETIF_FLAG_ETHARP \<noteq> 0" "n_ip_addr (nif S n) \<noteq> IPADDR_ANY" "length (n_hwaddr (nif S n)) = 6"
    and sip: "unicast sip (nif S n)"
    and p: "packet (pbufs (netw S)) p [p]" "pool_pbuf (netw S) p" "Pbuf.pool_rep E (netw S) (hand M [p])" "p \<notin> dom M"
    and f: "content (netw S) [p] = arp_frame d s 1 shw sip thw (n_ip_addr (nif S n)) @ pad"
    and l: "length d = 6" "length s = 6" "length shw = 6" "length thw = 6" "42 + length pad \<le> 1524"
    and tx: "DMATxDescToSet S = td" "Buffer1Addr (descs S td) = b" "status S td AND ETH_DMATxDesc_OWN = 0"
    and ap: "region (netw S) p \<inter> {b ..< b + 42 + int (length pad)} = {}"
  shows "\<exists>S'. ethernet_input ops p n S = Some (S', ERR_OK)
    \<and> mem_range (mbytes (netw S')) b (42 + length pad)
        = arp_frame shw (n_hwaddr (nif S n)) 2 (n_hwaddr (nif S n)) (n_ip_addr (nif S n)) shw sip @ pad
    \<and> status S' td AND ETH_DMATxDesc_OWN \<noteq> 0 \<and> DMATxDescToSet S' = Buffer2NextDescAddr (descs S td)
    \<and> (\<exists>i < ARP_TABLE_SIZE. e_state (table S' ! i) = ETHARP_STATE_STABLE \<and> e_ipaddr (table S' ! i) = sip \<and> e_ethaddr (table S' ! i) = shw)
    \<and> Pbuf.pool_rep E (netw S') M"
proof -
  let ?h = "pay S p" and ?nf = "nif S n" and ?N = "42 + length pad"
  have frame: "mem_range (mbytes (netw S)) ?h (unat (plen (netw S) p)) = arp_frame d s 1 shw sip thw (n_ip_addr ?nf) @ pad" using f by simp
  have len: "unat (plen (netw S) p) = ?N" using arg_cong [OF f, of length] l by (simp add: arp_frame_def)
  define S1 where "S1 = S\<lparr>netw := upd_pbuf p (\<lambda>b. b\<lparr>p_flags := link_flags (ldmac S (?h + o_dest)) (p_flags b)\<rparr>) (netw S)\<rparr>"
  have S1: "upper S1 = upper S" "descs S1 = descs S" "DMATxDescToSet S1 = DMATxDescToSet S" "mbytes (netw S1) = mbytes (netw S)"
    "pools (netw S1) = pools (netw S)" "pay S1 p = ?h" "plen (netw S1) p = plen (netw S) p" "pool_pbuf (netw S1) p" "packet (pbufs (netw S1)) p [p]"
    using p(1,2) link_flags_custom by (simp_all add: S1_def pool_pbuf_def packet_def)
  have ok1: "arp_ok S1" "\<forall>i < ARP_TABLE_SIZE. e_q (table S1 ! i) = NULL" "unicast sip (nif S1 n)"
    using ok q sip arp_ok_upper [OF S1(1)] by (simp_all add: S1(1))
  have frame1: "mem_range (mbytes (netw S1)) ?h ?N = arp_frame d s 1 shw sip thw (n_ip_addr ?nf) @ pad" using frame len by (simp add: S1)
  note fl = arp_frame_fields [OF frame l(1-4)] and fl1 = arp_frame_fields [OF frame1 l(1-4)]
  obtain i t where u: "etharp_update_arp_entry n sip shw ETHARP_FLAG_TRY_HARD S1 = Some (S1\<lparr>upper := (upper S1)\<lparr>arp_table := t\<rparr>\<rparr>, ERR_OK)"
      "i < ARP_TABLE_SIZE" "e_state (t ! i) = ETHARP_STATE_STABLE" "e_ipaddr (t ! i) = sip" "e_ethaddr (t ! i) = shw"
    using update_entry_idle [OF ok1, of shw] by blast
  define T where "T = S1\<lparr>upper := (upper S1)\<lparr>arp_table := t\<rparr>\<rparr>"
  have T: "netw T = netw S1" "descs T = descs S1" "DMATxDescToSet T = DMATxDescToSet S1" "table T = t" "nif T = nif S" by (simp_all add: T_def S1)
  have opc: "ld16 T (?h + o_opcode) = lwip_htons ARP_REQUEST"
    using fl1(9) by (simp add: ld16_def T load16_def lwip_htons_def ARP_REQUEST_def)
  have frameT: "mem_range (mbytes (netw T)) ?h ?N = arp_frame d s 1 shw sip thw (n_ip_addr ?nf) @ pad" using frame1 by (simp add: T)
  define V where "V = arp_reply_octets n (n_hwaddr ?nf) ?h T"
  note R = arp_reply_frame [OF frameT l(1-4) n(4), of n, folded V_def]
  have V: "pbufs (netw V) = pbufs (netw S1)" "pools (netw V) = pools (netw S)" "descs V = descs S" "DMATxDescToSet V = td" "upper V = upper T"
    using R(3-6) by (simp_all add: T S1 tx V_def)
  have cV: "content (netw V) [p] = arp_frame shw (n_hwaddr ?nf) 2 (n_hwaddr ?nf) (n_ip_addr ?nf) shw sip @ pad"
    using R(1) len by (simp add: V(1) S1 T)
  have pkV: "packet (pbufs (netw V)) p [p]" and tlV: "tlen (pbufs (netw V)) [p] = ?N" using S1(7,9) len by (simp_all add: V(1))
  have apV: "\<forall>x \<in> set [p]. region (netw V) x \<inter> {b ..< b + int (tlen (pbufs (netw V)) [p])} = {}"
    using ap tlV by (simp add: region_def V(1) S1 add.assoc)
  have tl5: "tlen (pbufs (netw V)) [p] \<le> 1524" and bV: "Buffer1Addr (descs V td) = b" and own: "status V td AND ETH_DMATxDesc_OWN = 0"
    using tlV l(5) tx(2,3) by (simp_all only: V(3))
  obtain U where U: "low_level_output p V = Some (U, ERR_OK)" "netw U = upd_bytes (put_bytes b (content (netw V) [p])) (netw V)"
      "descs U = (descs V)(td := (descs V td)\<lparr>Status := status V td OR 0xB0000000, ControlBufferSize := of_nat ?N\<rparr>)"
      "DMATxDescToSet U = Buffer2NextDescAddr (descs V td)"
    using low_level_output_run [OF pkV tl5 V(4) bV apV] unfolding tlV own by auto
  have pU: "pool_pbuf (netw U) p" "packet (pbufs (netw U)) p [p]" using S1(8) pkV by (simp_all add: U(2) pool_pbuf_def V(1))
  have "pbuf_free p (netw U) = Some (release [p] (netw U), 1)"
    using pbuf_free_chain [of "netw U" p "[p]" "[]"] pU by (simp add: packet_def pool_pbuf_def)
  then have free: "free_packet p U = Some (U\<lparr>netw := release [p] (netw U)\<rparr>)" by (simp add: free_packet_def)
  have "Pbuf.pool_rep E (netw U) (hand M [p])" using p(3) by (simp add: U(2) V(2))
  then have rel: "Pbuf.pool_rep E (release [p] (netw U)) M" "mheap (release [p] (netw U)) = mheap (netw U)"
    using release_pool [of "[p]" E "netw U" "hand M [p]"] hand_restrict [of "[p]" M] p(4) pU(1) by (auto simp: pool_pbuf_def)
  have arp: "etharp_arp_input ops n (n_hwaddr ?nf) p S1 = Some (U\<lparr>netw := release [p] (netw U)\<rparr>)"
  proof -
    have "\<not> uint (plen (netw S1) p) < SIZEOF_ETHARP_PACKET" using len by (simp add: S1 hdr_consts uint_nat)
    then show ?thesis
      using n(1,3) fl1 u(1) [folded T_def] opc U(1) free by (simp add: etharp_arp_input_def Let_def S1 T V_def [symmetric])
  qed
  have "ethernet_input ops p n S = Some (U\<lparr>netw := release [p] (netw U)\<rparr>, ERR_OK)"
  proof -
    have "\<not> uint (plen (netw S) p) \<le> SIZEOF_ETH_HDR" using len by (simp add: hdr_consts uint_nat)
    moreover have "lwip_htons ETHTYPE_ARP \<noteq> lwip_htons ETHTYPE_IP" by (simp add: lwip_htons_def hdr_consts)
    ultimately show ?thesis using fl(1) n(2) arp by (simp add: ethernet_input_def Let_def S1_def [symmetric] S1)
  qed
  moreover have "mem_range (mbytes (netw (U\<lparr>netw := release [p] (netw U)\<rparr>))) b ?N = content (netw V) [p]"
    using mem_range_put [of b "content (netw V) [p]"] tlV rel(2) by (simp add: U(2))
  moreover have "(x OR 0xB0000000) AND ETH_DMATxDesc_OWN \<noteq> (0 :: u32)" for x
    by (simp add: tx_bits bit.conj_disj_distrib2)
  moreover have "upper U = upper T" using low_level_output_upper [OF U(1)] V(5) by simp
  ultimately show ?thesis using rel(1) cV u(2-5) U(3,4) V(3) T(4) by (intro exI [of _ "U\<lparr>netw := release [p] (netw U)\<rparr>"]) auto
qed

subsection \<open>Instances\<close>

text \<open>An interface 192.168.1.30, a table whose first entry is resolved and nearly 20 minutes old, and layers above that do nothing.\<close>

definition netif0 :: netif where
  "netif0 = \<lparr>n_ip_addr = IP4_ADDR 192 168 1 30, n_netmask = IP4_ADDR 255 255 255 0, n_gw = IP4_ADDR 192 168 1 1,
     n_hwaddr = [2, 0, 0, 1, 2, 3], n_mtu = 1500, n_flags = 0x32\<rparr>"

definition entry0 :: etharp_entry where
  "entry0 = \<lparr>e_q = NULL, e_ipaddr = 0, e_netif = NULL, e_ethaddr = ethzero, e_state = ETHARP_STATE_EMPTY, e_ctime = 0\<rparr>"

definition old_entry :: etharp_entry where
  "old_entry = \<lparr>e_q = NULL, e_ipaddr = IP4_ADDR 192 168 1 7, e_netif = 1, e_ethaddr = [2, 0, 0, 0, 0, 7], e_state = ETHARP_STATE_STABLE, e_ctime = 238\<rparr>"

definition arp_state :: "net \<Rightarrow> etharp_entry list \<Rightarrow> unit st" where
  "arp_state N t = \<lparr>netw = N, descs = (\<lambda>_. \<lparr>Status = 0, ControlBufferSize = 0, Buffer1Addr = 0x1000, Buffer2NextDescAddr = 0x220\<rparr>),
     DMARxDescToGet = 0, DMATxDescToSet = 0x200, DMASR = 0, DMARPDR = 0, DMATPDR = 0, DMARDLAR = 0, DMATDLAR = 0,
     upper = \<lparr>netifs = (\<lambda>_. netif0), arp_table = t, etharp_cached_entry = 0, above = ()\<rparr>\<rparr>"

definition ops0 :: "unit arp_ops" where
  "ops0 = \<lparr>ip_input = (\<lambda>p n S. Some S), dhcp_arp_reply = (\<lambda>n a S. Some S)\<rparr>"

abbreviation table1 :: "etharp_entry list" where "table1 \<equiv> old_entry # replicate 9 entry0"

lemma arp_state_ok: "arp_ok (arp_state N table1)" "\<forall>i < ARP_TABLE_SIZE. e_q (table (arp_state N table1) ! i) = NULL"
proof -
  have t: "table1 ! i = (if i = 0 then old_entry else entry0)" if "i < 10" for i
    using that by (cases i) simp_all
  show "arp_ok (arp_state N table1)"
    unfolding arp_ok_def tab_ok_def arp_state_def by (simp add: ARP_TABLE_SIZE_def t) (auto simp: entry_ok_def used_def old_entry_def entry0_def ARP_MAXAGE_def)
  show "\<forall>i < ARP_TABLE_SIZE. e_q (table (arp_state N table1) ! i) = NULL"
    by (simp add: arp_state_def ARP_TABLE_SIZE_def t) (simp add: old_entry_def entry0_def)
qed

theorem etharp_find_entry_policy_witness:
  "etharp_find_entry (Some (IP4_ADDR 192 168 1 7)) ETHARP_FLAG_FIND_ONLY (arp_state net0 table1) = Some (arp_state net0 table1, Inr 0)"
proof -
  have "used (table (arp_state net0 table1) ! 0) \<and> e_ipaddr (table (arp_state net0 table1) ! 0) = IP4_ADDR 192 168 1 7"
    by (simp add: arp_state_def used_def old_entry_def)
  moreover have "(0 :: nat) < ARP_TABLE_SIZE" by (simp add: ARP_TABLE_SIZE_def)
  ultimately show ?thesis
    using etharp_find_entry_policy [OF arp_state_ok(1), of net0 "IP4_ADDR 192 168 1 7" ETHARP_FLAG_FIND_ONLY] by blast
qed

theorem arp_table_invariant_witness:
  "\<exists>S'. arp_events ops0 [Tick, Tick] (arp_state net0 table1) = Some S' \<and> arp_ok S'"
proof -
  have k: "ops_keep ops0" by (simp add: ops_keep_def ops0_def)
  obtain S' where S': "etharp_ticks 2 (arp_state net0 table1) = Some S'"
    using ticks_idle [OF table_length [OF arp_state_ok(1)] arp_state_ok(2), of 2] by blast
  have "arp_events ops0 (replicate n Tick) = etharp_ticks n" for n by (induction n) (rule ext, simp)+
  from this [of 2] have "arp_events ops0 [Tick, Tick] (arp_state net0 table1) = Some S'" using S' by (simp add: numeral_2_eq_2)
  then show ?thesis using arp_table_invariant [OF k] arp_state_ok(1) by blast
qed


theorem arp_request_answered_witness:
  "\<exists>S p S'. ethernet_input ops0 p 1 S = Some (S', ERR_OK)
    \<and> content (netw S) [p] = arp_frame ethbroadcast [2, 0, 0, 0, 0, 9] 1 [2, 0, 0, 0, 0, 9] (IP4_ADDR 192 168 1 9) ethzero (IP4_ADDR 192 168 1 30)
    \<and> mem_range (mbytes (netw S')) 0x1000 42
      = arp_frame [2, 0, 0, 0, 0, 9] [2, 0, 0, 1, 2, 3] 2 [2, 0, 0, 1, 2, 3] (IP4_ADDR 192 168 1 30) [2, 0, 0, 0, 0, 9] (IP4_ADDR 192 168 1 9)"
proof -
  let ?f = "arp_frame ethbroadcast [2, 0, 0, 0, 0, 9] 1 [2, 0, 0, 0, 0, 9] (IP4_ADDR 192 168 1 9) ethzero (IP4_ADDR 192 168 1 30)"
  obtain N p where a: "pbuf_alloc PBUF_RAW 42 PBUF_POOL net0 = Some (N, p)" "p = NULL \<longleftrightarrow> card (pool0 - dom (Map.empty :: ptr \<rightharpoonup> ptr set)) < pool_need PBUF_RAW 42"
      "if p = NULL then Pbuf.pool_rep pool0 N Map.empty else \<exists>ps. packet (pbufs N) p ps \<and> tlen (pbufs N) ps = unat (42 :: u16)
         \<and> length ps = pool_need PBUF_RAW 42 \<and> set ps \<inter> dom (Map.empty :: ptr \<rightharpoonup> ptr set) = {} \<and> (\<forall>x \<in> set ps. pool_pbuf N x) \<and> Pbuf.pool_rep pool0 N (hand Map.empty ps)"
    using pool_alloc_spec [OF pool0(1,2,4), of PBUF_RAW 42] by metis
  have need: "pool_need PBUF_RAW 42 = 1" by (simp add: pool_need_def elems_for_def layer_offset_def LWIP_MEM_ALIGN_SIZE_def)
  then have "p \<noteq> NULL" using a(2) pool0(3) by simp
  then obtain ps where ps: "packet (pbufs N) p ps" "tlen (pbufs N) ps = 42" "length ps = 1" "\<forall>x \<in> set ps. pool_pbuf N x"
      "Pbuf.pool_rep pool0 N (hand Map.empty ps)"
    using a(3) need by auto
  have one: "ps = [p]" using ps(1,3) by (cases ps) (auto simp: packet_def)
  have pl: "unat (plen N p) = 42" using ps(2) by (simp add: one)
  let ?N = "upd_bytes (put_bytes (ppay N p) ?f) N"
  let ?S = "arp_state ?N table1"
  have len: "length ?f = 42" by (simp add: arp_frame_def ethbroadcast_def ethzero_def)
  have c: "content ?N [p] = ?f @ []" using mem_range_put [of "ppay N p" ?f] pl len by simp
  have pk: "packet (pbufs ?N) p [p]" "pool_pbuf ?N p" "Pbuf.pool_rep pool0 ?N (hand Map.empty [p])"
    using ps by (simp_all add: one pool_pbuf_def)
  have "p \<in> pool0" using memp_rep_dom [OF ps(5)] by (auto simp: one)
  then have "{p ..< p + 528} \<inter> {0x1000 ..< 0x1000 + 7620} = {}" using eth2_pool(3) by blast
  moreover have "region ?N p \<subseteq> {p ..< p + 528}" using pk(2) by (auto simp: pool_pbuf_def region_def)
  moreover have "{0x1000 ..< 0x1000 + 42 + int (length ([] :: u8 list))} \<subseteq> {0x1000 ..< 0x1000 + 7620}" by auto
  ultimately have ap: "region ?N p \<inter> {0x1000 ..< 0x1000 + 42 + int (length ([] :: u8 list))} = {}" by blast
  have nf: "nif ?S 1 = netif0" "netw ?S = ?N" "DMATxDescToSet ?S = 0x200" "Buffer1Addr (descs ?S 0x200) = 0x1000"
      "status ?S 0x200 AND ETH_DMATxDesc_OWN = 0"
    by (simp_all add: arp_state_def)
  have nc: "n_flags netif0 AND NETIF_FLAG_ETHARP \<noteq> 0" "n_ip_addr netif0 \<noteq> IPADDR_ANY" "length (n_hwaddr netif0) = 6"
      "unicast (IP4_ADDR 192 168 1 9) netif0"
    by (simp_all add: netif0_def NETIF_FLAG_ETHARP_def IPADDR_ANY_def IPADDR_BROADCAST_def IP4_ADDR_def unicast_def ip4_addr_isbroadcast_def
        ip_addr_ismulticast_def lwip_htonl_def NETIF_FLAG_BROADCAST_def ip_addr_netcmp_def)
  have "\<exists>S'. ethernet_input ops0 p 1 ?S = Some (S', ERR_OK)
      \<and> mem_range (mbytes (netw S')) 0x1000 (42 + length ([] :: u8 list))
        = arp_frame [2, 0, 0, 0, 0, 9] (n_hwaddr netif0) 2 (n_hwaddr netif0) (n_ip_addr netif0) [2, 0, 0, 0, 0, 9] (IP4_ADDR 192 168 1 9) @ []"
    using arp_request_answered [OF arp_state_ok, of 1 ?N "IP4_ADDR 192 168 1 9" p pool0 Map.empty ethbroadcast "[2, 0, 0, 0, 0, 9]" "[2, 0, 0, 0, 0, 9]" ethzero
        "[]" "0x200" "0x1000" ops0] c pk ap nc
    unfolding nf by (simp add: netif0_def ethbroadcast_def ethzero_def) blast
  then obtain S' where "ethernet_input ops0 p 1 ?S = Some (S', ERR_OK)" "mem_range (mbytes (netw S')) 0x1000 42
        = arp_frame [2, 0, 0, 0, 0, 9] [2, 0, 0, 1, 2, 3] 2 [2, 0, 0, 1, 2, 3] (IP4_ADDR 192 168 1 30) [2, 0, 0, 0, 0, 9] (IP4_ADDR 192 168 1 9)"
    by (auto simp: netif0_def)
  moreover have "content (netw ?S) [p] = ?f" using c by (simp only: nf(2) append_Nil2)
  ultimately show ?thesis by blast
qed

end
