(* ===== verification/Pbuf_Chksum.thy ===== *)
theory Pbuf_Chksum
  imports Pbuf Inet_Chksum Ip_Addr
begin

unbundle bit_operations_syntax

text \<open>
  Model of the functions of core/ipv4/inet_chksum.c that work on a chain of pbufs:
  \<open>inet_chksum_pbuf\<close>, \<open>inet_chksum_pseudo\<close> and \<open>inet_chksum_pseudo_partial\<close>. The loops keep the
  sum \<open>acc\<close> with its bytes exchanged after an odd number of octets (\<open>swapped\<close>). Lemmas: one
  step of the loops, and each function returns the complement of the reference sum of theory
  Inet_Chksum over the octets of the chain, however they are divided into pbufs.
\<close>

subsection \<open>Operations\<close>

text \<open>The end of a step: fold, and exchange the bytes after a pbuf of odd length.\<close>

definition chksum_add :: "u32 \<Rightarrow> u8 \<Rightarrow> u16 \<Rightarrow> u16 \<Rightarrow> u32 \<times> u8" where
  "chksum_add acc swapped part len =
     (let acc = FOLD_U32T (acc + ucast part)
      in if len mod 2 \<noteq> 0 then (SWAP_BYTES_IN_WORD acc, 1 - swapped) else (acc, swapped))"

definition LWIP_CHKSUM :: "ptr \<Rightarrow> u16 \<Rightarrow> 'a net_scheme \<Rightarrow> u16" where
  "LWIP_CHKSUM dataptr len S = lwip_standard_chksum2 dataptr (mem_range (mbytes S) dataptr (unat len))"

partial_function (option) chksum_loop :: "ptr \<Rightarrow> u32 \<Rightarrow> u8 \<Rightarrow> 'a net_scheme \<Rightarrow> (u32 \<times> u8) option" where
  "chksum_loop q acc swapped S =
     (if q \<noteq> NULL then
        let (acc, swapped) = chksum_add acc swapped (LWIP_CHKSUM (ppay S q) (plen S q) S) (plen S q)
        in chksum_loop (pnx S q) acc swapped S
      else Some (if swapped \<noteq> 0 then SWAP_BYTES_IN_WORD acc else acc, swapped))"

partial_function (option) chksum_partial_loop :: "ptr \<Rightarrow> u32 \<Rightarrow> u8 \<Rightarrow> u16 \<Rightarrow> 'a net_scheme \<Rightarrow> (u32 \<times> u8) option" where
  "chksum_partial_loop q acc swapped chksum_len S =
     (if q \<noteq> NULL \<and> chksum_len > 0 then
        let chklen = (if plen S q > chksum_len then chksum_len else plen S q);
            (acc, swapped) = chksum_add acc swapped (LWIP_CHKSUM (ppay S q) chklen S) (plen S q)
        in chksum_partial_loop (pnx S q) acc swapped (chksum_len - chklen) S
      else Some (if swapped \<noteq> 0 then SWAP_BYTES_IN_WORD acc else acc, swapped))"

text \<open>The pseudo header is added at the end.\<close>

definition chksum_pseudo :: "u32 \<Rightarrow> u32 \<Rightarrow> u32 \<Rightarrow> u8 \<Rightarrow> u16 \<Rightarrow> u16" where
  "chksum_pseudo acc src dest proto proto_len =
     (let acc = acc + (src AND 0xffff);
          acc = acc + (drop_bit 16 src AND 0xffff);
          acc = acc + (dest AND 0xffff);
          acc = acc + (drop_bit 16 dest AND 0xffff);
          acc = acc + ucast (lwip_htons (ucast proto));
          acc = acc + ucast (lwip_htons proto_len);
          acc = FOLD_U32T acc;
          acc = FOLD_U32T acc
      in ucast (NOT (acc AND 0xffff)))"

definition inet_chksum_pseudo :: "ptr \<Rightarrow> u32 \<Rightarrow> u32 \<Rightarrow> u8 \<Rightarrow> u16 \<Rightarrow> 'a net_scheme \<Rightarrow> u16 option" where
  "inet_chksum_pseudo p src dest proto proto_len S = do {
     (acc, swapped) \<leftarrow> chksum_loop p 0 0 S;
     Some (chksum_pseudo acc src dest proto proto_len) }"

definition inet_chksum_pseudo_partial :: "ptr \<Rightarrow> u32 \<Rightarrow> u32 \<Rightarrow> u8 \<Rightarrow> u16 \<Rightarrow> u16 \<Rightarrow> 'a net_scheme \<Rightarrow> u16 option" where
  "inet_chksum_pseudo_partial p src dest proto proto_len chksum_len S = do {
     (acc, swapped) \<leftarrow> chksum_partial_loop p 0 0 chksum_len S;
     Some (chksum_pseudo acc src dest proto proto_len) }"

definition inet_chksum_pbuf :: "ptr \<Rightarrow> 'a net_scheme \<Rightarrow> u16 option" where
  "inet_chksum_pbuf p S = do {
     (acc, swapped) \<leftarrow> chksum_loop p 0 0 S;
     Some (ucast (NOT (acc AND 0xffff))) }"

subsection \<open>One step\<close>

text \<open>The sum of the octets so far, with the bytes exchanged \<open>s\<close> times.\<close>

definition sum_inv :: "u32 \<Rightarrow> u8 \<Rightarrow> u8 list \<Rightarrow> bool" where
  "sum_inv acc s bs \<longleftrightarrow> unat acc < 65536 \<and> (s = 0 \<or> s = 1) \<and> cong (unat acc) (256 ^ unat s * lenum bs)"

lemma cong_even: "even k \<Longrightarrow> cong (256 ^ k * x) x"
proof (induction k arbitrary: x rule: nat_induct2)
  case (step n)
  then have "cong (256 ^ n * (65536 * x)) (65536 * x)" by simp
  moreover have "256 ^ (n + 2) * x = 256 ^ n * (65536 * x)" by simp
  moreover have "cong (65536 * x) x" using cong_65536 [of x 0] by simp
  ultimately show ?case by (metis cong_trans)
qed simp_all

lemma cong_SWAP:
  assumes "unat acc < 65536"
  shows "cong (unat (SWAP_BYTES_IN_WORD acc)) (256 * unat acc)" and "unat (SWAP_BYTES_IN_WORD acc) < 65536"
  using cong_swap [OF assms] swap_less [OF assms] assms by (simp_all add: unat_SWAP)

lemma cong_ck: "length bs \<le> 65535 \<Longrightarrow> cong (unat (lwip_standard_chksum2 a bs)) (lenum bs)"
  unfolding chksum2_rfc rfc_sum_def using cong_canon cong_wsum cong_trans by blast

lemma parity_add:
  assumes "even (unat s + length bs)"
  shows "cong (256 ^ unat s * lenum (bs @ xs)) (256 ^ unat s * lenum bs + lenum xs)"
proof -
  have "256 ^ unat s * lenum (bs @ xs) = 256 ^ unat s * lenum bs + 256 ^ (unat s + length bs) * lenum xs"
    by (simp add: lenum_append algebra_simps power_add)
  then show ?thesis using cong_add [OF cong_refl cong_even [OF assms]] by metis
qed

text \<open>
  A step over the first \<open>length xs\<close> octets of a pbuf of length \<open>len\<close>: the parity of \<open>len\<close> only
  decides how often the bytes are exchanged, which the flag records.
\<close>

lemma chksum_step:
  assumes i: "sum_inv acc s bs" and e: "even (unat s + length bs)" and l: "length xs \<le> 65535"
    and r: "chksum_add acc s (lwip_standard_chksum2 a xs) len = (acc', s')"
  shows "sum_inv acc' s' (bs @ xs) \<and> (length xs = unat len \<longrightarrow> even (unat s' + length (bs @ xs)))"
proof -
  let ?c = "lwip_standard_chksum2 a xs" and ?X = "256 ^ unat s * lenum (bs @ xs)"
  let ?f = "FOLD_U32T (acc + ucast ?c)"
  have "unat acc + unat ?c < 4294967296" and b: "unat acc + unat ?c \<le> 131070"
    using i unat_u16_less [of ?c] unfolding sum_inv_def by linarith+
  then have u: "unat (acc + ucast ?c) = unat acc + unat ?c"
    using unat_add_u32 [of acc "ucast ?c"] by (simp only: unat_ucast_u16_u32)
  have "cong (unat acc + unat ?c) (256 ^ unat s * lenum bs + lenum xs)"
    using i cong_ck [OF l] cong_add unfolding sum_inv_def by blast
  then have "cong (unat (acc + ucast ?c)) ?X" unfolding u using parity_add [OF e] cong_sym cong_trans by blast
  then have f: "cong (unat ?f) ?X" using cong_FOLD cong_trans by blast
  have fl: "unat ?f < 65536" using FOLD_small b u by simp
  show ?thesis
  proof (cases "len mod 2 \<noteq> 0")
    case True
    then have r': "acc' = SWAP_BYTES_IN_WORD ?f" "s' = 1 - s" using r by (simp_all add: chksum_add_def Let_def)
    have c: "cong (unat acc') (256 * ?X)"
      unfolding r'(1) using cong_SWAP(1) [OF fl] cong_mult [OF f] cong_trans by blast
    have "unat (len mod 2) \<noteq> 0" using True by (simp add: unat_eq_zero)
    then have o: "odd (unat len)" by (simp add: unat_mod odd_iff_mod_2_eq_one)
    consider "s = 0" "s' = 1" | "s = 1" "s' = 0" using i r'(2) unfolding sum_inv_def by auto
    then show ?thesis
    proof cases
      case 1
      then show ?thesis using c cong_SWAP(2) [OF fl] r'(1) e o by (simp add: sum_inv_def)
    next
      case 2
      have "256 * ?X = 65536 * lenum (bs @ xs)" using 2 by simp
      then have "cong (unat acc') (65536 * lenum (bs @ xs))" using c by metis
      moreover have "cong (65536 * lenum (bs @ xs)) (lenum (bs @ xs))" using cong_65536 [of "lenum (bs @ xs)" 0] by simp
      ultimately have "cong (unat acc') (lenum (bs @ xs))" by (rule cong_trans)
      then show ?thesis using 2 cong_SWAP(2) [OF fl] r'(1) e o by (simp add: sum_inv_def)
    qed
  next
    case False
    then have r': "acc' = ?f" "s' = s" using r by (simp_all add: chksum_add_def Let_def)
    have "unat (len mod 2) = 0" using False by (simp add: unat_eq_zero)
    then have "even (unat len)" by (simp add: unat_mod even_iff_mod_2_eq_zero)
    then show ?thesis using i f fl r' e by (auto simp: sum_inv_def)
  qed
qed

text \<open>The end of a loop: the bytes are exchanged once more when the flag is set.\<close>

lemma sum_end:
  assumes "sum_inv acc s bs"
  shows "unat (if s \<noteq> 0 then SWAP_BYTES_IN_WORD acc else acc) = rfc_sum bs"
proof -
  let ?a = "if s \<noteq> 0 then SWAP_BYTES_IN_WORD acc else acc"
  have i: "unat acc < 65536" "s = 0 \<or> s = 1" "cong (unat acc) (256 ^ unat s * lenum bs)"
    using assms by (simp_all add: sum_inv_def)
  have "cong (unat ?a) (lenum bs)"
  proof (cases "s = 0")
    case True
    then show ?thesis using i by simp
  next
    case False
    then have s: "s = 1" using i by blast
    have "cong (unat ?a) (256 * unat acc)" using cong_SWAP(1) [OF i(1)] s by simp
    also have "cong (256 * unat acc) (256 * (256 * lenum bs))" using i(3) s by (intro cong_mult) simp
    also have "cong (256 * (256 * lenum bs)) (lenum bs)" using cong_65536 [of "lenum bs" 0] by simp
    finally show ?thesis .
  qed
  then have "cong (unat ?a) (wsum bs)" using cong_sym [OF cong_wsum] cong_trans by blast
  moreover have "unat ?a < 65536" using i(1) cong_SWAP(2) by simp
  ultimately show ?thesis unfolding rfc_sum_def by (intro canonI)
qed

subsection \<open>The loops\<close>

lemma LWIP_CHKSUM_run:
  assumes i: "sum_inv acc s bs" and e: "even (unat s + length bs)"
    and r: "chksum_add acc s (LWIP_CHKSUM a l S) len = (acc', s')"
  shows "sum_inv acc' s' (bs @ mem_range (mbytes S) a (unat l))
    \<and> (l = len \<longrightarrow> even (unat s' + length (bs @ mem_range (mbytes S) a (unat l))))"
proof -
  have "length (mem_range (mbytes S) a (unat l)) \<le> 65535"
    unfolding length_mem_range using unat_u16_less [of l] by linarith
  from chksum_step [OF i e this r [unfolded LWIP_CHKSUM_def]] show ?thesis by auto
qed

lemma chksum_loop_run:
  "chain (pbufs S) q ps \<Longrightarrow> sum_inv acc s bs \<Longrightarrow> even (unat s + length bs) \<Longrightarrow>
   \<exists>a t. chksum_loop q acc s S = Some (a, t) \<and> unat a = rfc_sum (bs @ content S ps)"
proof (induction ps arbitrary: q acc s bs)
  case Nil
  then show ?case using sum_end [of acc s bs] by (simp add: chksum_loop.simps)
next
  case (Cons x xs)
  obtain acc' s' where r: "chksum_add acc s (LWIP_CHKSUM (ppay S x) (plen S x) S) (plen S x) = (acc', s')" by fastforce
  have "chain (pbufs S) (pnx S x) xs" and q: "q = x" "x \<noteq> NULL" using Cons.prems(1) by simp_all
  with Cons.IH LWIP_CHKSUM_run [OF Cons.prems(2,3) r]
  obtain a t where "chksum_loop (pnx S x) acc' s' S = Some (a, t)"
      "unat a = rfc_sum ((bs @ mem_range (mbytes S) (ppay S x) (unat (plen S x))) @ content S xs)"
    by blast
  then show ?case using q r by (subst chksum_loop.simps) simp
qed

lemma chksum_partial_loop_run:
  "chain (pbufs S) q ps \<Longrightarrow> sum_inv acc s bs \<Longrightarrow> even (unat s + length bs) \<Longrightarrow>
   \<exists>a t. chksum_partial_loop q acc s n S = Some (a, t) \<and> unat a = rfc_sum (bs @ take (unat n) (content S ps))"
proof (induction ps arbitrary: q acc s bs n)
  case Nil
  then show ?case using sum_end [of acc s bs] by (simp add: chksum_partial_loop.simps)
next
  case (Cons x xs)
  have c: "chain (pbufs S) (pnx S x) xs" and q: "q = x" "x \<noteq> NULL" using Cons.prems(1) by simp_all
  show ?case
  proof (cases "n = 0")
    case True
    then show ?thesis using sum_end [OF Cons.prems(2)] by (simp add: chksum_partial_loop.simps)
  next
    case False
    define k where "k = (if plen S x > n then n else plen S x)"
    obtain acc' s' where r: "chksum_add acc s (LWIP_CHKSUM (ppay S x) k S) (plen S x) = (acc', s')" by fastforce
    let ?m = "mem_range (mbytes S) (ppay S x) (unat (plen S x))"
    have step: "chksum_partial_loop q acc s n S = chksum_partial_loop (pnx S x) acc' s' (n - k) S"
      unfolding q(1) using q(2) False
      by (subst chksum_partial_loop.simps, subst k_def [symmetric]) (simp add: r word_gt_0)
    note i = LWIP_CHKSUM_run [OF Cons.prems(2,3) r]
    show ?thesis
    proof (cases "plen S x > n")
      case True
      then have k: "k = n" and l: "unat n < unat (plen S x)" by (simp_all add: k_def word_less_nat_alt)
      have "mem_range (mbytes S) (ppay S x) (unat n) = take (unat n) ?m" using l by (simp add: take_mem_range)
      moreover have "take (unat n) (content S (x # xs)) = take (unat n) ?m" using l by simp
      ultimately have "unat (if s' \<noteq> 0 then SWAP_BYTES_IN_WORD acc' else acc') = rfc_sum (bs @ take (unat n) (content S (x # xs)))"
        using sum_end i k by metis
      then show ?thesis unfolding step using k by (subst chksum_partial_loop.simps) simp
    next
      case False
      then have k: "k = plen S x" and "plen S x \<le> n" by (simp_all add: k_def)
      then have l: "unat (plen S x) \<le> unat n" by (simp only: word_le_nat_alt)
      have "unat (n - k) = unat n - unat (plen S x)" using k \<open>plen S x \<le> n\<close> by (simp only: unat_sub)
      then show ?thesis
        unfolding step using Cons.IH [OF c, of acc' s' "bs @ ?m" "n - k"] i k l by simp
    qed
  qed
qed


subsection \<open>The complement of the reference sum\<close>

definition pseudo_header :: "u32 \<Rightarrow> u32 \<Rightarrow> u8 \<Rightarrow> u16 \<Rightarrow> u8 list" where
  "pseudo_header src dest proto len = octets src @ octets dest @ [0, proto, ucast (drop_bit 8 len), ucast len]"

lemma complement_low: "(ucast (NOT (acc AND 0xffff)) :: u16) = NOT (ucast (acc :: u32))"
proof -
  have m: "(0xffff :: u32) = mask 16" by (simp add: mask_eq_exp_minus_1)
  show ?thesis unfolding m by (rule bit_word_eqI) (simp add: bit_simps)
qed

lemma unat_low: "unat acc < 65536 \<Longrightarrow> unat (ucast (NOT (acc AND 0xffff)) :: u16) = 65535 - unat (acc :: u32)"
  unfolding complement_low unat_NOT_u16 by (simp add: unat_ucast_u32_u16)

lemma two_octets: "(x :: nat) mod 256 + 256 * (x div 256 mod 256) = x mod 65536"
  using mod_mult2_eq [of x 256 256] by simp

lemma wsum_octets: "wsum (octets a) = unat (a AND 0xffff) + unat (drop_bit 16 a AND 0xffff)"
proof -
  have "unat a div 16777216 = unat a div 65536 div 256" by (simp add: div_mult2_eq [symmetric])
  moreover have "unat a div 16777216 < 256" using unat_u32_less [of a] by (simp add: div_less_iff_less_mult)
  ultimately have "wsum (octets a) = (unat a mod 256 + 256 * (unat a div 256 mod 256))
      + (unat a div 65536 mod 256 + 256 * (unat a div 65536 div 256 mod 256))"
    by (simp add: octets_def unat_ucast_u32_u8 unat_drop_bit)
  then show ?thesis unfolding two_octets by (simp add: unat_and_ffff_u32 unat_drop_bit)
qed

lemma chksum_pseudo_run:
  assumes a: "unat acc = rfc_sum bs"
  shows "unat (chksum_pseudo acc src dest proto len) = 65535 - rfc_sum (pseudo_header src dest proto len @ bs)"
proof -
  let ?n = "\<lambda>x :: u32. unat (x AND 0xffff)" and ?h = "\<lambda>x :: u16. unat (lwip_htons x)"
  let ?sum = "acc + (src AND 0xffff) + (drop_bit 16 src AND 0xffff) + (dest AND 0xffff) + (drop_bit 16 dest AND 0xffff)
     + ucast (lwip_htons (ucast proto)) + ucast (lwip_htons len)"
  have n: "?n x < 65536" for x by (simp add: unat_and_ffff_u32)
  have acc: "unat acc < 65536" unfolding a rfc_sum_def by (rule canon_less)
  define r where "r = ?n src + ?n (drop_bit 16 src) + ?n dest + ?n (drop_bit 16 dest) + ?h (ucast proto) + ?h len"
  have u: "unat ?sum = unat acc + r"
    unfolding r_def using acc n [of src] n [of "drop_bit 16 src"] n [of dest] n [of "drop_bit 16 dest"]
      unat_u16_less [of "lwip_htons (ucast proto)"] unat_u16_less [of "lwip_htons len"]
    by (simp only: unat_add_u32 unat_ucast_u16_u32 add.assoc [symmetric])
  have p: "?h (ucast proto) = 256 * unat proto"
    using unat_u8_less [of proto] by (simp add: unat_htons unat_ucast_u8_u16)
  have l: "?h len = unat len div 256 mod 256 + 256 * (unat len mod 256)"
    using unat_u16_less [of len] by (simp add: unat_htons div_less_iff_less_mult)
  have w: "wsum [0, proto, ucast (drop_bit 8 len), ucast len] = ?h (ucast proto) + ?h len"
    unfolding p l by (simp add: unat_ucast_u16_u8 unat_drop_bit)
  have "even (length (octets x))" "even (length (octets x @ ys)) = even (length ys)" for x ys by (simp_all add: octets_def)
  then have "wsum (pseudo_header src dest proto len @ bs)
      = wsum (octets src) + (wsum (octets dest) + (wsum [0, proto, ucast (drop_bit 8 len), ucast len] + wsum bs))"
    unfolding pseudo_header_def append_assoc by (subst wsum_append, simp)+ simp
  then have b: "wsum (pseudo_header src dest proto len @ bs) = wsum bs + r"
    unfolding w wsum_octets r_def by simp
  have "cong (unat acc) (wsum bs)" unfolding a rfc_sum_def by (rule cong_canon)
  then have "cong (unat ?sum) (wsum (pseudo_header src dest proto len @ bs))"
    unfolding u b by (rule cong_add) (rule cong_refl)
  then have "unat (FOLD_U32T (FOLD_U32T ?sum)) = rfc_sum (pseudo_header src dest proto len @ bs)"
    unfolding FOLD_twice rfc_sum_def by (simp only: cong_iff_canon)
  then show ?thesis
    unfolding chksum_pseudo_def Let_def using unat_low [of "FOLD_U32T (FOLD_U32T ?sum)"] canon_less
    by (simp add: rfc_sum_def)
qed


lemma sum_start: "sum_inv 0 0 []" "even (unat (0 :: u8) + length ([] :: u8 list))"
  by (simp_all add: sum_inv_def)

lemma inet_chksum_pbuf_run:
  assumes "chain (pbufs S) p ps"
  shows "map_option unat (inet_chksum_pbuf p S) = Some (65535 - rfc_sum (content S ps))"
proof -
  obtain a t where l: "chksum_loop p 0 0 S = Some (a, t)" "unat a = rfc_sum (content S ps)"
    using chksum_loop_run [OF assms sum_start] by auto
  have "unat a < 65536" unfolding l(2) rfc_sum_def by (rule canon_less)
  then show ?thesis using l unat_low [of a] by (simp add: inet_chksum_pbuf_def)
qed

text \<open>
  C16: over a chain of pbufs, however the octets are divided between them (odd lengths included),
  \<open>inet_chksum_pbuf\<close> returns the complement of the RFC 1071 sum of the octets of the chain,
  \<open>inet_chksum_pseudo\<close> that of the pseudo header (source, destination, protocol and length in
  network order) followed by those octets, and \<open>inet_chksum_pseudo_partial\<close> that of the pseudo
  header followed by the first \<open>n\<close> octets, also where \<open>n\<close> ends inside a pbuf.
\<close>

theorem chain_chksums:
  assumes "chain (pbufs S) p ps"
  shows "map_option unat (inet_chksum_pbuf p S) = Some (65535 - rfc_sum (content S ps))
    \<and> map_option unat (inet_chksum_pseudo p src dest proto len S)
        = Some (65535 - rfc_sum (pseudo_header src dest proto len @ content S ps))
    \<and> map_option unat (inet_chksum_pseudo_partial p src dest proto len n S)
        = Some (65535 - rfc_sum (pseudo_header src dest proto len @ take (unat n) (content S ps)))"
proof -
  obtain a t where l: "chksum_loop p 0 0 S = Some (a, t)" "unat a = rfc_sum (content S ps)"
    using chksum_loop_run [OF assms sum_start] by auto
  obtain a' t' where m: "chksum_partial_loop p 0 0 n S = Some (a', t')" "unat a' = rfc_sum (take (unat n) (content S ps))"
    using chksum_partial_loop_run [OF assms sum_start, of n] by auto
  show ?thesis
    using inet_chksum_pbuf_run [OF assms] l m chksum_pseudo_run
    by (simp add: inet_chksum_pseudo_def inet_chksum_pseudo_partial_def)
qed

text \<open>Eight octets in two pbufs.\<close>

theorem chain_chksums_witness:
  "map_option unat (inet_chksum_pseudo 16 1 2 17 8 rom2)
     = Some (65535 - rfc_sum (pseudo_header 1 2 17 8 @ content rom2 [16, 32]))"
  using chain_chksums [of rom2 16 "[16, 32]" 1 2 17 8] rom2_packets
  by (simp add: packet_def)

end
