(* ===== verification/Ip.thy ===== *)
theory Ip
  imports Etharp Pbuf_Chksum
begin

text \<open>
  Model of the output half of lwip-1.4.1/src/core/ipv4/ip.c (\<open>ip_route\<close>, \<open>ip_output_if\<close>,
  \<open>ip_output\<close>) and of core/ipv4/icmp.c; \<open>ip_input\<close> is in the theory Ip_Input. The state is that
  of the ARP module with the variables of ip.c and of raw.c in the field \<open>above\<close>; \<open>transport\<close> holds
  the state of the layers over IP. The header is not a structure of its own: its fields are octets
  of the packet's payload at the offsets \<open>ip_*\<close>, loaded and stored as the code does.
  Reassembly, fragmentation, the transport protocols and the callbacks of raw control blocks are the
  fields of \<open>ip_ops\<close>; UDP is modelled in the theory Udp and given to \<open>ip_ops\<close> there. The output
  checksums are left to the hardware (\<open>CHECKSUM_GEN_*\<close> is 0). An optional address is a C pointer
  to an address: \<open>None\<close> is the null pointer (\<open>IP_HDRINCL\<close> as a destination).
\<close>

unbundle bit_operations_syntax

subsection \<open>Data\<close>

record raw_pcb =
  r_local_ip :: u32
  r_remote_ip :: u32
  r_tos :: u8
  r_ttl :: u8
  r_next :: ptr
  r_protocol :: u8
  r_recv :: "nat option"   \<comment> \<open>the callback, one of those of \<open>raw_callback\<close>\<close>
  r_recv_arg :: ptr

record 'w inet =
  netif_list :: ptr
  netif_next :: "ptr \<Rightarrow> ptr"
  netif_default :: ptr
  ip_id :: u16
  current_netif :: ptr
  current_header :: ptr
  current_iphdr_src :: u32
  current_iphdr_dest :: u32
  raw_pcbs :: ptr
  raw_at :: "ptr \<Rightarrow> raw_pcb"
  transport :: 'w

type_synonym 'w ist = "'w inet st"

record 'w ip_ops =
  ip_frag :: "ptr \<Rightarrow> ptr \<Rightarrow> u32 \<Rightarrow> 'w ist \<Rightarrow> ('w ist \<times> err_t) option"
  ip_reass :: "ptr \<Rightarrow> 'w ist \<Rightarrow> ('w ist \<times> ptr) option"
  raw_callback :: "nat \<Rightarrow> ptr \<Rightarrow> ptr \<Rightarrow> ptr \<Rightarrow> u32 \<Rightarrow> 'w ist \<Rightarrow> ('w ist \<times> u8) option"
  udp_input :: "ptr \<Rightarrow> ptr \<Rightarrow> 'w ist \<Rightarrow> 'w ist option"
  tcp_input :: "ptr \<Rightarrow> ptr \<Rightarrow> 'w ist \<Rightarrow> 'w ist option"

definition NETIF_FLAG_UP :: u8 where "NETIF_FLAG_UP = 0x01"
definition IP_HLEN :: int where "IP_HLEN = 20"
definition IP_PROTO_ICMP :: u8 where "IP_PROTO_ICMP = 1"
definition IP_PROTO_UDP :: u8 where "IP_PROTO_UDP = 17"
definition IP_PROTO_TCP :: u8 where "IP_PROTO_TCP = 6"
definition IP_MF :: u16 where "IP_MF = 0x2000"
definition IP_OFFMASK :: u16 where "IP_OFFMASK = 0x1fff"
definition DHCP_CLIENT_PORT :: u16 where "DHCP_CLIENT_PORT = 68"
definition ICMP_TTL :: u8 where "ICMP_TTL = 255"
definition ICMP_ER :: u8 where "ICMP_ER = 0"
definition ICMP_DUR :: u8 where "ICMP_DUR = 3"
definition ICMP_ECHO :: u8 where "ICMP_ECHO = 8"
definition ICMP_TE :: u8 where "ICMP_TE = 11"
definition ICMP_DUR_PROTO :: u8 where "ICMP_DUR_PROTO = 2"
definition ICMP_DUR_PORT :: u8 where "ICMP_DUR_PORT = 3"

text \<open>Offsets in \<open>struct ip_hdr\<close> and in \<open>struct icmp_echo_hdr\<close>.\<close>

definition ip_v_hl :: int where "ip_v_hl = 0"
definition ip_tos :: int where "ip_tos = 1"
definition ip_len :: int where "ip_len = 2"
definition ip_ident :: int where "ip_ident = 4"
definition ip_offset :: int where "ip_offset = 6"
definition ip_ttl :: int where "ip_ttl = 8"
definition ip_proto :: int where "ip_proto = 9"
definition ip_chksum :: int where "ip_chksum = 10"
definition ip_src :: int where "ip_src = 12"
definition ip_dest :: int where "ip_dest = 16"
definition icmp_type :: int where "icmp_type = 0"
definition icmp_code :: int where "icmp_code = 1"
definition icmp_chksum :: int where "icmp_chksum = 2"
definition icmp_id :: int where "icmp_id = 4"
definition icmp_seqno :: int where "icmp_seqno = 6"
definition SIZEOF_ICMP_ECHO_HDR :: int where "SIZEOF_ICMP_ECHO_HDR = 8"
definition ICMP_DEST_UNREACH_DATASIZE :: int where "ICMP_DEST_UNREACH_DATASIZE = 8"

lemmas ip_consts = NETIF_FLAG_UP_def IP_HLEN_def IP_PROTO_ICMP_def IP_PROTO_UDP_def IP_PROTO_TCP_def
  IP_MF_def IP_OFFMASK_def DHCP_CLIENT_PORT_def ICMP_TTL_def ICMP_ER_def ICMP_DUR_def ICMP_ECHO_def ICMP_TE_def
  ICMP_DUR_PROTO_def ICMP_DUR_PORT_def SIZEOF_ICMP_ECHO_HDR_def ICMP_DEST_UNREACH_DATASIZE_def
lemmas ip_fields = ip_v_hl_def ip_tos_def ip_len_def ip_ident_def ip_offset_def ip_ttl_def ip_proto_def
  ip_chksum_def ip_src_def ip_dest_def icmp_type_def icmp_code_def icmp_chksum_def icmp_id_def icmp_seqno_def

abbreviation inet :: "'w ist \<Rightarrow> 'w inet" where "inet S \<equiv> above (upper S)"

definition upd_inet :: "('w inet \<Rightarrow> 'w inet) \<Rightarrow> 'w ist \<Rightarrow> 'w ist" where
  "upd_inet f S = S\<lparr>upper := (upper S)\<lparr>above := f (inet S)\<rparr>\<rparr>"

definition ld8 :: "'v st \<Rightarrow> ptr \<Rightarrow> u8" where
  "ld8 S a = mbytes (netw S) a"

definition pbuf_header_st :: "ptr \<Rightarrow> int \<Rightarrow> 'v st \<Rightarrow> 'v st \<times> u8" where
  "pbuf_header_st p inc S = (let (N, bad) = pbuf_header p inc (netw S) in (S\<lparr>netw := N\<rparr>, bad))"

text \<open>The macros of ip.h on the header at \<open>h\<close>.\<close>

definition IPH_V :: "ptr \<Rightarrow> 'v st \<Rightarrow> u8" where "IPH_V h S = drop_bit 4 (ld8 S (h + ip_v_hl))"
definition IPH_HL :: "ptr \<Rightarrow> 'v st \<Rightarrow> u8" where "IPH_HL h S = ld8 S (h + ip_v_hl) AND 0x0f"
definition IPH_PROTO :: "ptr \<Rightarrow> 'v st \<Rightarrow> u8" where "IPH_PROTO h S = ld8 S (h + ip_proto)"
definition IPH_VHL_SET :: "ptr \<Rightarrow> u8 \<Rightarrow> u8 \<Rightarrow> 'v st \<Rightarrow> 'v st" where
  "IPH_VHL_SET h v hl = st_octets (h + ip_v_hl) [push_bit 4 v OR hl]"

definition netif_is_up :: "ptr \<Rightarrow> 'v st \<Rightarrow> bool" where
  "netif_is_up n S \<longleftrightarrow> n_flags (nif S n) AND NETIF_FLAG_UP \<noteq> 0"

definition ip_addr_isany :: "u32 option \<Rightarrow> bool" where
  "ip_addr_isany a = (case a of None \<Rightarrow> True | Some x \<Rightarrow> x = IPADDR_ANY)"

subsection \<open>Output\<close>

partial_function (option) route_loop :: "u32 \<Rightarrow> ptr \<Rightarrow> 'w ist \<Rightarrow> ptr option" where
  "route_loop dest netif S =
     (if netif \<noteq> NULL then
        (if netif_is_up netif S \<and> ip_addr_netcmp dest (n_ip_addr (nif S netif)) (n_netmask (nif S netif)) then Some netif
         else route_loop dest (netif_next (inet S) netif) S)
      else
        (if netif_default (inet S) = NULL \<or> \<not> netif_is_up (netif_default (inet S)) S then Some NULL
         else Some (netif_default (inet S))))"

definition ip_route :: "u32 \<Rightarrow> 'w ist \<Rightarrow> ptr option" where
  "ip_route dest S = route_loop dest (netif_list (inet S)) S"

text \<open>The header of a packet that is sent, stored in front of the payload.\<close>

definition ip_build_header :: "ptr \<Rightarrow> ptr \<Rightarrow> u32 option \<Rightarrow> u32 \<Rightarrow> u8 \<Rightarrow> u8 \<Rightarrow> u8 \<Rightarrow> ptr \<Rightarrow> 'w ist \<Rightarrow> 'w ist" where
  "ip_build_header p iphdr src dest ttl tos proto netif S =
     (let S = st_octets (iphdr + ip_ttl) [ttl] S;
          S = st_octets (iphdr + ip_proto) [proto] S;
          S = st_octets (iphdr + ip_dest) (octets32 dest) S;
          S = IPH_VHL_SET iphdr 4 (word_of_int (IP_HLEN div 4)) S;
          S = st_octets (iphdr + ip_tos) [tos] S;
          S = st_octets (iphdr + ip_len) (octets16 (lwip_htons (ptot (netw S) p))) S;
          S = st_octets (iphdr + ip_offset) (octets16 0) S;
          S = st_octets (iphdr + ip_ident) (octets16 (lwip_htons (ip_id (inet S)))) S;
          S = upd_inet (\<lambda>i. i\<lparr>ip_id := ip_id i + 1\<rparr>) S;
          S = st_octets (iphdr + ip_src) (octets32 (if ip_addr_isany src then n_ip_addr (nif S netif) else the src)) S
      in st_octets (iphdr + ip_chksum) (octets16 0) S)"

definition ip_output_if :: "'w ip_ops \<Rightarrow> ptr \<Rightarrow> u32 option \<Rightarrow> u32 option \<Rightarrow> u8 \<Rightarrow> u8 \<Rightarrow> u8 \<Rightarrow> ptr \<Rightarrow> 'w ist \<Rightarrow> ('w ist \<times> err_t) option" where
  "ip_output_if ops p src dest ttl tos proto netif S =
     (let send = (\<lambda>dest S.
        if n_mtu (nif S netif) \<noteq> 0 \<and> ptot (netw S) p > n_mtu (nif S netif) then ip_frag ops p netif dest S
        else etharp_output netif p dest S)
      in case dest of
        Some d \<Rightarrow>
          (let (S, bad) = pbuf_header_st p IP_HLEN S in
           if bad \<noteq> 0 then Some (S, ERR_BUF)
           else send d (ip_build_header p (pay S p) src d ttl tos proto netif S))
      | None \<Rightarrow> send (ld32 S (pay S p + ip_dest)) S)"

definition ip_output :: "'w ip_ops \<Rightarrow> ptr \<Rightarrow> u32 option \<Rightarrow> u32 \<Rightarrow> u8 \<Rightarrow> u8 \<Rightarrow> u8 \<Rightarrow> 'w ist \<Rightarrow> ('w ist \<times> err_t) option" where
  "ip_output ops p src dest ttl tos proto S = do {
     netif \<leftarrow> ip_route dest S;
     if netif = NULL then Some (S, ERR_RTE)
     else ip_output_if ops p src (Some dest) ttl tos proto netif S }"

subsection \<open>ICMP\<close>

definition icmp_send_response :: "'w ip_ops \<Rightarrow> ptr \<Rightarrow> u8 \<Rightarrow> u8 \<Rightarrow> 'w ist \<Rightarrow> 'w ist option" where
  "icmp_send_response ops p type code S = do {
     (N, q) \<leftarrow> pbuf_alloc PBUF_IP (word_of_int (SIZEOF_ICMP_ECHO_HDR + IP_HLEN + ICMP_DEST_UNREACH_DATASIZE)) PBUF_RAM (netw S);
     let S = S\<lparr>netw := N\<rparr>;
     if q = NULL then Some S
     else do {
       let iphdr = pay S p;
       let icmphdr = pay S q;
       let S = st_octets (icmphdr + icmp_type) [type] S;
       let S = st_octets (icmphdr + icmp_code) [code] S;
       let S = st_octets (icmphdr + icmp_id) (octets16 0) S;
       let S = st_octets (icmphdr + icmp_seqno) (octets16 0) S;
       let S = S\<lparr>netw := upd_bytes (memcpy (pay S q + SIZEOF_ICMP_ECHO_HDR) (pay S p) (IP_HLEN + ICMP_DEST_UNREACH_DATASIZE)) (netw S)\<rparr>;
       let S = st_octets (icmphdr + icmp_chksum) (octets16 0) S;
       let S = st_octets (icmphdr + icmp_chksum)
                 (octets16 (inet_chksum icmphdr (mem_range (mbytes (netw S)) icmphdr (unat (plen (netw S) q))))) S;
       (S, err) \<leftarrow> ip_output ops q None (ld32 S (iphdr + ip_src)) ICMP_TTL 0 IP_PROTO_ICMP S;
       free_packet q S
     } }"

definition icmp_dest_unreach :: "'w ip_ops \<Rightarrow> ptr \<Rightarrow> u8 \<Rightarrow> 'w ist \<Rightarrow> 'w ist option" where
  "icmp_dest_unreach ops p t = icmp_send_response ops p ICMP_DUR t"

definition icmp_time_exceeded :: "'w ip_ops \<Rightarrow> ptr \<Rightarrow> u8 \<Rightarrow> 'w ist \<Rightarrow> 'w ist option" where
  "icmp_time_exceeded ops p t = icmp_send_response ops p ICMP_TE t"

text \<open>
  The packet in which the echo is returned: the one that came, when it has room for the link and IP
  headers in front of its payload, or else a copy of it in the heap (\<open>None\<close> inside: out of memory or
  an error, the packet is dropped); with it the address of its IP header. The payload is left at the
  ICMP header.
\<close>

definition icmp_echo_packet :: "ptr \<Rightarrow> int \<Rightarrow> ptr \<Rightarrow> 'v st \<Rightarrow> ('v st \<times> (ptr \<times> ptr) option) option" where
  "icmp_echo_packet p hlen iphdr S =
     (case pbuf_header_st p (20 + 14) S of (S, bad) \<Rightarrow>
        if bad \<noteq> 0 then
          (case pbuf_header_st p hlen S of (S, bad) \<Rightarrow>
             if bad \<noteq> 0 then Some (S, None)
             else do {
               (N, r) \<leftarrow> pbuf_alloc PBUF_LINK (ptot (netw S) p) PBUF_RAM (netw S);
               let S = S\<lparr>netw := N\<rparr>;
               if r = NULL then Some (S, None)
               else do {
                 (N, err) \<leftarrow> pbuf_copy r p (netw S);
                 let S = S\<lparr>netw := N\<rparr>;
                 if err \<noteq> ERR_OK then Some (S, None)
                 else do {
                   let iphdr = pay S r;
                   let (S, bad) = pbuf_header_st r (- hlen) S;
                   if bad \<noteq> 0 then Some (S, None)
                   else do { S \<leftarrow> free_packet p S; Some (S, Some (r, iphdr)) }
                 }
               } })
        else (case pbuf_header_st p (- (20 + 14)) S of (S, bad) \<Rightarrow>
           Some (S, if bad \<noteq> 0 then None else Some (p, iphdr))))"

text \<open>The request is turned into the reply.\<close>

definition icmp_echo_octets :: "ptr \<Rightarrow> ptr \<Rightarrow> 'w ist \<Rightarrow> 'w ist" where
  "icmp_echo_octets iphdr iecho S =
     (let S = st_octets (iphdr + ip_src) (octets32 (current_iphdr_dest (inet S))) S;
          S = st_octets (iphdr + ip_dest) (octets32 (current_iphdr_src (inet S))) S;
          S = st_octets (iecho + icmp_type) [ICMP_ER] S;
          S = st_octets (iecho + icmp_chksum) (octets16 0) S;
          S = st_octets (iphdr + ip_ttl) [ICMP_TTL] S
      in st_octets (iphdr + ip_chksum) (octets16 0) S)"

definition icmp_input :: "'w ip_ops \<Rightarrow> ptr \<Rightarrow> ptr \<Rightarrow> 'w ist \<Rightarrow> 'w ist option" where
  "icmp_input ops p inp S = do {
     let iphdr = pay S p;
     let hlen = uint (IPH_HL iphdr S) * 4;
     let (S, bad) = pbuf_header_st p (- hlen) S;
     if bad \<noteq> 0 \<or> ptot (netw S) p < 4 then free_packet p S
     else do {
       let type = ld8 S (pay S p);
       if type = ICMP_ER then free_packet p S
       else if type = ICMP_ECHO then
         (if ip_addr_ismulticast (current_iphdr_dest (inet S)) \<or> ip4_addr_isbroadcast (current_iphdr_dest (inet S)) (nif S inp)
          then free_packet p S
          else if uint (ptot (netw S) p) < SIZEOF_ICMP_ECHO_HDR then free_packet p S
          else do {
            chksum \<leftarrow> inet_chksum_pbuf p (netw S);
            if chksum \<noteq> 0 then free_packet p S
            else do {
              (S, r) \<leftarrow> icmp_echo_packet p hlen iphdr S;
              case r of None \<Rightarrow> free_packet p S
              | Some (p, iphdr) \<Rightarrow> do {
                  let S = icmp_echo_octets iphdr (pay S p) S;
                  let (S, bad) = pbuf_header_st p hlen S;
                  S \<leftarrow> (if bad \<noteq> 0 then Some S
                        else do {
                          (S, ret) \<leftarrow> ip_output_if ops p (Some (current_iphdr_dest (inet S))) None ICMP_TTL 0 IP_PROTO_ICMP inp S;
                          Some S });
                  free_packet p S
                }
            } })
       else free_packet p S
     } }"

end
