(* ===== verification/Raw.thy ===== *)
theory Raw
  imports Ip
begin

text \<open>
  Model of lwip-1.4.1/src/core/raw.c, the control blocks that see every datagram of a protocol. The
  blocks are linked by \<open>r_next\<close> and come from the pool \<open>MEMP_RAW_PCB\<close>; no module of this program
  makes one, so that the list is empty at run time (\<open>raw_input_none\<close>).
\<close>

unbundle bit_operations_syntax

abbreviation raw :: "'w ist \<Rightarrow> ptr \<Rightarrow> raw_pcb" where "raw S u \<equiv> raw_at (inet S) u"

definition RAW_TTL :: u8 where "RAW_TTL = 255"

definition upd_raw :: "ptr \<Rightarrow> (raw_pcb \<Rightarrow> raw_pcb) \<Rightarrow> 'w ist \<Rightarrow> 'w ist" where
  "upd_raw u f S = upd_inet (\<lambda>i. i\<lparr>raw_at := (raw_at i)(u := f (raw_at i u))\<rparr>) S"

partial_function (option) raw_loop :: "'w ip_ops \<Rightarrow> ptr \<Rightarrow> u8 \<Rightarrow> ptr \<Rightarrow> ptr \<Rightarrow> 'w ist \<Rightarrow> ('w ist \<times> u8) option" where
  "raw_loop ops p proto prev u S =
     (if u \<noteq> NULL then do {
        (S, eaten) \<leftarrow>
          (if r_protocol (raw S u) = proto \<and>
              (r_local_ip (raw S u) = IPADDR_ANY \<or> r_local_ip (raw S u) = current_iphdr_dest (inet S)) then
             (case r_recv (raw S u) of None \<Rightarrow> Some (S, 0)
              | Some f \<Rightarrow> do {
                  (S, r) \<leftarrow> raw_callback ops f (r_recv_arg (raw S u)) u p (current_iphdr_src (inet S)) S;
                  if r \<noteq> 0 then
                    Some (if prev \<noteq> NULL then
                            let S = upd_raw prev (\<lambda>b. b\<lparr>r_next := r_next (raw S u)\<rparr>) S;
                                S = upd_raw u (\<lambda>b. b\<lparr>r_next := raw_pcbs (inet S)\<rparr>) S
                            in upd_inet (\<lambda>i. i\<lparr>raw_pcbs := u\<rparr>) S
                          else S, 1)
                  else Some (S, 0) })
           else Some (S, 0));
        if eaten = 0 then raw_loop ops p proto u (r_next (raw S u)) S else Some (S, eaten)
      }
      else Some (S, 0))"

definition raw_input :: "'w ip_ops \<Rightarrow> ptr \<Rightarrow> ptr \<Rightarrow> 'w ist \<Rightarrow> ('w ist \<times> u8) option" where
  "raw_input ops p inp S = raw_loop ops p (IPH_PROTO (pay S p) S) NULL (raw_pcbs (inet S)) S"

definition raw_bind :: "ptr \<Rightarrow> u32 \<Rightarrow> 'w ist \<Rightarrow> 'w ist \<times> err_t" where
  "raw_bind u ipaddr S = (upd_raw u (\<lambda>b. b\<lparr>r_local_ip := ipaddr\<rparr>) S, ERR_OK)"

definition raw_connect :: "ptr \<Rightarrow> u32 \<Rightarrow> 'w ist \<Rightarrow> 'w ist \<times> err_t" where
  "raw_connect u ipaddr S = (upd_raw u (\<lambda>b. b\<lparr>r_remote_ip := ipaddr\<rparr>) S, ERR_OK)"

definition raw_recv :: "ptr \<Rightarrow> nat option \<Rightarrow> ptr \<Rightarrow> 'w ist \<Rightarrow> 'w ist" where
  "raw_recv u recv recv_arg S = upd_raw u (\<lambda>b. b\<lparr>r_recv := recv, r_recv_arg := recv_arg\<rparr>) S"

text \<open>The packet that goes down: the given one when it has room for the IP header, or a new one chained to it.\<close>

definition raw_header_pbuf :: "ptr \<Rightarrow> 'w ist \<Rightarrow> ('w ist \<times> ptr) option" where
  "raw_header_pbuf p S =
     (case pbuf_header_st p IP_HLEN S of (S, bad) \<Rightarrow>
        if bad \<noteq> 0 then do {
          (N, q) \<leftarrow> pbuf_alloc PBUF_IP 0 PBUF_RAM (netw S);
          if q = NULL then Some (S\<lparr>netw := N\<rparr>, NULL)
          else do {
            N \<leftarrow> (if ptot N p \<noteq> 0 then pbuf_chain q p N else Some N);
            Some (S\<lparr>netw := N\<rparr>, q)
          }
        } else (case pbuf_header_st p (- IP_HLEN) S of (S, bad) \<Rightarrow> Some (S, if bad \<noteq> 0 then NULL else p)))"

definition raw_sendto :: "'w ip_ops \<Rightarrow> ptr \<Rightarrow> ptr \<Rightarrow> u32 \<Rightarrow> 'w ist \<Rightarrow> ('w ist \<times> err_t) option" where
  "raw_sendto ops u p ipaddr S = do {
     (S, q) \<leftarrow> raw_header_pbuf p S;
     if q = NULL then Some (S, ERR_MEM)
     else do {
       let release = (\<lambda>S. if q \<noteq> p then free_packet q S else Some S);
       netif \<leftarrow> ip_route ipaddr S;
       if netif = NULL then do { S \<leftarrow> release S; Some (S, ERR_RTE) }
       else do {
         let src_ip = (if r_local_ip (raw S u) = IPADDR_ANY then n_ip_addr (nif S netif) else r_local_ip (raw S u));
         (S, err) \<leftarrow> ip_output_if ops q (Some src_ip) (Some ipaddr) (r_ttl (raw S u)) (r_tos (raw S u)) (r_protocol (raw S u)) netif S;
         S \<leftarrow> release S;
         Some (S, err)
       }
     } }"

definition raw_send :: "'w ip_ops \<Rightarrow> ptr \<Rightarrow> ptr \<Rightarrow> 'w ist \<Rightarrow> ('w ist \<times> err_t) option" where
  "raw_send ops u p S = raw_sendto ops u p (r_remote_ip (raw S u)) S"

partial_function (option) raw_unlink :: "ptr \<Rightarrow> ptr \<Rightarrow> 'w ist \<Rightarrow> 'w ist option" where
  "raw_unlink u pcb2 S =
     (if pcb2 \<noteq> NULL then
        let S = (if r_next (raw S pcb2) \<noteq> NULL \<and> r_next (raw S pcb2) = u
                 then upd_raw pcb2 (\<lambda>b. b\<lparr>r_next := r_next (raw S u)\<rparr>) S else S)
        in raw_unlink u (r_next (raw S pcb2)) S
      else Some S)"

definition raw_remove :: "ptr \<Rightarrow> 'w ist \<Rightarrow> 'w ist option" where
  "raw_remove u S = do {
     S \<leftarrow> (if raw_pcbs (inet S) = u then Some (upd_inet (\<lambda>i. i\<lparr>raw_pcbs := r_next (raw_at i (raw_pcbs i))\<rparr>) S)
           else raw_unlink u (raw_pcbs (inet S)) S);
     Some (S\<lparr>netw := (netw S)\<lparr>pools := memp_free MEMP_RAW_PCB u (pools (netw S))\<rparr>\<rparr>) }"

definition raw_new :: "u8 \<Rightarrow> 'w ist \<Rightarrow> 'w ist \<times> ptr" where
  "raw_new proto S =
     (case memp_malloc MEMP_RAW_PCB (pools (netw S)) of (P, u) \<Rightarrow>
        let S = S\<lparr>netw := (netw S)\<lparr>pools := P\<rparr>\<rparr> in
        if u \<noteq> NULL then
          let S = upd_raw u (\<lambda>_. \<lparr>r_local_ip = 0, r_remote_ip = 0, r_tos = 0, r_ttl = RAW_TTL, r_next = raw_pcbs (inet S),
                r_protocol = proto, r_recv = None, r_recv_arg = NULL\<rparr>) S
          in (upd_inet (\<lambda>i. i\<lparr>raw_pcbs := u\<rparr>) S, u)
        else (S, u))"

lemma raw_input_none: "raw_pcbs (inet S) = NULL \<Longrightarrow> raw_input ops p inp S = Some (S, 0)"
  by (simp add: raw_input_def raw_loop.simps)

end
