(* ===== verification/Ip_Input.thy ===== *)
theory Ip_Input
  imports Raw
begin

text \<open>
  Model of \<open>ip_input\<close> of lwip-1.4.1/src/core/ipv4/ip.c, here \<open>ip_receive\<close> (\<open>ip_input\<close> is the
  field of \<open>arp_ops\<close> through which \<open>ethernet_input\<close> calls it): the checks of the header, the
  interface the packet is for, the exception for the DHCP client, and the delivery to the transport
  protocols (\<open>ip_deliver\<close>). \<open>IP_FORWARD\<close> and \<open>CHECKSUM_CHECK_IP\<close> are 0 in this configuration:
  nothing is forwarded and the checksum of the header is not looked at.
\<close>

unbundle bit_operations_syntax

subsection \<open>Input\<close>

text \<open>The interface that a packet is for, or the null pointer: the receiving one is tried first.\<close>

partial_function (option) match_netif :: "ptr \<Rightarrow> ptr \<Rightarrow> bool \<Rightarrow> 'w ist \<Rightarrow> ptr option" where
  "match_netif inp netif first S =
     (let dest = current_iphdr_dest (inet S) in
      if netif_is_up netif S \<and> n_ip_addr (nif S netif) \<noteq> IPADDR_ANY \<and>
         (dest = n_ip_addr (nif S netif) \<or> ip4_addr_isbroadcast dest (nif S netif)) then Some netif
      else
        let netif = (if first then netif_list (inet S) else netif_next (inet S) netif);
            netif = (if netif = inp then netif_next (inet S) netif else netif)
        in if netif \<noteq> NULL then match_netif inp netif False S else Some NULL)"

definition ip_deliver :: "'w ip_ops \<Rightarrow> ptr \<Rightarrow> ptr \<Rightarrow> ptr \<Rightarrow> 'w ist \<Rightarrow> 'w ist option" where
  "ip_deliver ops p inp iphdr S = do {
     let S = upd_inet (\<lambda>i. i\<lparr>current_netif := inp, current_header := iphdr\<rparr>) S;
     (S, eaten) \<leftarrow> raw_input ops p inp S;
     S \<leftarrow> (if eaten = 0 then
             let proto = IPH_PROTO iphdr S in
             if proto = IP_PROTO_UDP then udp_input ops p inp S
             else if proto = IP_PROTO_TCP then tcp_input ops p inp S
             else if proto = IP_PROTO_ICMP then icmp_input ops p inp S
             else do {
               let dest = current_iphdr_dest (inet S);
               S \<leftarrow> (if \<not> ip4_addr_isbroadcast dest (nif S inp) \<and> \<not> ip_addr_ismulticast dest then
                       let S = S\<lparr>netw := upd_pbuf p (\<lambda>b. b\<lparr>p_payload := iphdr\<rparr>) (netw S)\<rparr>
                       in icmp_dest_unreach ops p ICMP_DUR_PROTO S
                     else Some S);
               free_packet p S
             }
           else Some S);
     Some (upd_inet (\<lambda>i. i\<lparr>current_netif := NULL, current_header := NULL,
                            current_iphdr_src := IPADDR_ANY, current_iphdr_dest := IPADDR_ANY\<rparr>) S) }"

definition ip_receive :: "'w ip_ops \<Rightarrow> ptr \<Rightarrow> ptr \<Rightarrow> 'w ist \<Rightarrow> 'w ist option" where
  "ip_receive ops p inp S = do {
     let iphdr = pay S p;
     if IPH_V iphdr S \<noteq> 4 then free_packet p S
     else do {
       let iphdr_hlen = uint (IPH_HL iphdr S) * 4;
       let iphdr_len = lwip_ntohs (ld16 S (iphdr + ip_len));
       if iphdr_hlen > uint (plen (netw S) p) \<or> iphdr_len > ptot (netw S) p then free_packet p S
       else do {
         N \<leftarrow> pbuf_realloc p iphdr_len (netw S);
         let S = S\<lparr>netw := N\<rparr>;
         let S = upd_inet (\<lambda>i. i\<lparr>current_iphdr_dest := ld32 S (iphdr + ip_dest), current_iphdr_src := ld32 S (iphdr + ip_src)\<rparr>) S;
         netif \<leftarrow> match_netif inp inp True S;
         let dhcp = (netif = NULL \<and> IPH_PROTO iphdr S = IP_PROTO_UDP
                     \<and> ld16 S (iphdr + iphdr_hlen + 2) = lwip_ntohs DHCP_CLIENT_PORT);
         let netif = (if dhcp then inp else netif);
         let src = current_iphdr_src (inet S);
         if \<not> dhcp \<and> src \<noteq> IPADDR_ANY \<and> (ip4_addr_isbroadcast src (nif S inp) \<or> ip_addr_ismulticast src) then free_packet p S
         else if netif = NULL then free_packet p S
         else if ld16 S (iphdr + ip_offset) AND lwip_htons (IP_OFFMASK OR IP_MF) \<noteq> 0 then do {
           (S, p) \<leftarrow> ip_reass ops p S;
           if p = NULL then Some S else ip_deliver ops p inp (pay S p) S
         } else ip_deliver ops p inp iphdr S
       }
     } }"

end
