(* ===== verification/Udp.thy ===== *)
theory Udp
  imports Ip_Input
begin

text \<open>
  Model of lwip-1.4.1/src/core/udp.c in this configuration (UDP-Lite, \<open>SO_REUSE\<close>, IGMP and the
  software checksums are off). The state is that of Ip with the variables of udp.c in
  \<open>transport\<close>; the control blocks are the record \<open>udp_pcb\<close>, linked by \<open>u_next\<close> as in the code, and
  come from the pool \<open>MEMP_UDP_PCB\<close>. The receive callback of a block is a \<open>udp_recv_fn\<close>, the
  functions of this program that are registered with \<open>udp_recv\<close>; \<open>udp_receive\<close> is \<open>udp_input\<close>
  and calls them through its parameter.
\<close>

unbundle bit_operations_syntax

subsection \<open>Data\<close>

datatype udp_recv_fn = M_UDP_DEMO_RECV | DHCP_RECV

record udp_pcb =
  u_local_ip :: u32
  u_remote_ip :: u32
  u_tos :: u8
  u_ttl :: u8
  u_next :: ptr
  u_flags :: u8
  u_local_port :: u16
  u_remote_port :: u16
  u_recv :: "udp_recv_fn option"
  u_recv_arg :: ptr

record 'a udp_layer =
  udp_pcbs :: ptr
  udp_port :: u16
  pcb_at :: "ptr \<Rightarrow> udp_pcb"
  dhcp_pcb :: "ptr \<Rightarrow> ptr"   \<comment> \<open>\<open>inp->dhcp->pcb\<close>, null without a DHCP client\<close>
  app :: 'a

type_synonym 'a ust = "'a udp_layer ist"

type_synonym 'a recv_call = "udp_recv_fn \<Rightarrow> ptr \<Rightarrow> ptr \<Rightarrow> ptr \<Rightarrow> u32 \<Rightarrow> u16 \<Rightarrow> 'a ust \<Rightarrow> 'a ust option"

definition UDP_HLEN :: int where "UDP_HLEN = 8"
definition UDP_TTL :: u8 where "UDP_TTL = 255"
definition UDP_FLAGS_CONNECTED :: u8 where "UDP_FLAGS_CONNECTED = 0x04"
definition UDP_LOCAL_PORT_RANGE_START :: u16 where "UDP_LOCAL_PORT_RANGE_START = 0xc000"
definition UDP_LOCAL_PORT_RANGE_END :: u16 where "UDP_LOCAL_PORT_RANGE_END = 0xffff"
definition DHCP_SERVER_PORT :: u16 where "DHCP_SERVER_PORT = 67"

text \<open>Offsets in \<open>struct udp_hdr\<close>.\<close>

definition udp_src :: int where "udp_src = 0"
definition udp_dest :: int where "udp_dest = 2"
definition udp_len :: int where "udp_len = 4"
definition udp_chksum :: int where "udp_chksum = 6"

lemmas udp_consts = UDP_HLEN_def UDP_TTL_def UDP_FLAGS_CONNECTED_def UDP_LOCAL_PORT_RANGE_START_def
  UDP_LOCAL_PORT_RANGE_END_def DHCP_SERVER_PORT_def
lemmas udp_fields = udp_src_def udp_dest_def udp_len_def udp_chksum_def

abbreviation udp :: "'a ust \<Rightarrow> 'a udp_layer" where "udp S \<equiv> transport (inet S)"
abbreviation pcb :: "'a ust \<Rightarrow> ptr \<Rightarrow> udp_pcb" where "pcb S u \<equiv> pcb_at (udp S) u"

definition upd_udp :: "('a udp_layer \<Rightarrow> 'a udp_layer) \<Rightarrow> 'a ust \<Rightarrow> 'a ust" where
  "upd_udp f S = upd_inet (\<lambda>i. i\<lparr>transport := f (transport i)\<rparr>) S"

definition upd_pcb :: "ptr \<Rightarrow> (udp_pcb \<Rightarrow> udp_pcb) \<Rightarrow> 'a ust \<Rightarrow> 'a ust" where
  "upd_pcb u f S = upd_udp (\<lambda>l. l\<lparr>pcb_at := (pcb_at l)(u := f (pcb_at l u))\<rparr>) S"

subsection \<open>Ports and binding\<close>

partial_function (option) port_used :: "u16 \<Rightarrow> ptr \<Rightarrow> 'a ust \<Rightarrow> bool option" where
  "port_used port u S =
     (if u \<noteq> NULL then (if u_local_port (pcb S u) = port then Some True else port_used port (u_next (pcb S u)) S)
      else Some False)"

text \<open>\<open>udp_new_port\<close>: the loop through the label \<open>again\<close>, with the count \<open>n\<close> of used ports met.\<close>

partial_function (option) new_port_again :: "u16 \<Rightarrow> 'a ust \<Rightarrow> ('a ust \<times> u16) option" where
  "new_port_again n S = do {
     let port = (if udp_port (udp S) = UDP_LOCAL_PORT_RANGE_END then UDP_LOCAL_PORT_RANGE_START else udp_port (udp S) + 1);
     let S = upd_udp (\<lambda>l. l\<lparr>udp_port := port\<rparr>) S;
     used \<leftarrow> port_used port (udp_pcbs (udp S)) S;
     if used then
       (if n + 1 > UDP_LOCAL_PORT_RANGE_END - UDP_LOCAL_PORT_RANGE_START then Some (S, 0) else new_port_again (n + 1) S)
     else Some (S, port) }"

definition udp_new_port :: "'a ust \<Rightarrow> ('a ust \<times> u16) option" where
  "udp_new_port S = new_port_again 0 S"

text \<open>The loop of \<open>udp_bind\<close>: an error (\<open>Inl\<close>), or whether the block is in the list already.\<close>

partial_function (option) bind_check :: "ptr \<Rightarrow> u32 \<Rightarrow> u16 \<Rightarrow> ptr \<Rightarrow> bool \<Rightarrow> 'a ust \<Rightarrow> (err_t + bool) option" where
  "bind_check u ipaddr port ipcb rebind S =
     (if ipcb \<noteq> NULL then
        (if u = ipcb then bind_check u ipaddr port (u_next (pcb S ipcb)) True S
         else if u_local_port (pcb S ipcb) = port \<and>
            (u_local_ip (pcb S ipcb) = IPADDR_ANY \<or> ipaddr = IPADDR_ANY \<or> u_local_ip (pcb S ipcb) = ipaddr)
         then Some (Inl ERR_USE)
         else bind_check u ipaddr port (u_next (pcb S ipcb)) rebind S)
      else Some (Inr rebind))"

definition udp_bind :: "ptr \<Rightarrow> u32 \<Rightarrow> u16 \<Rightarrow> 'a ust \<Rightarrow> ('a ust \<times> err_t) option" where
  "udp_bind u ipaddr port S = do {
     r \<leftarrow> bind_check u ipaddr port (udp_pcbs (udp S)) False S;
     case r of Inl err \<Rightarrow> Some (S, err)
     | Inr rebind \<Rightarrow> do {
         let S = upd_pcb u (\<lambda>b. b\<lparr>u_local_ip := ipaddr\<rparr>) S;
         (S, port) \<leftarrow> (if port = 0 then udp_new_port S else Some (S, port));
         if port = 0 then Some (S, ERR_USE)
         else
           let S = upd_pcb u (\<lambda>b. b\<lparr>u_local_port := port\<rparr>) S;
               S = (if \<not> rebind then
                      let S = upd_pcb u (\<lambda>b. b\<lparr>u_next := udp_pcbs (udp S)\<rparr>) S
                      in upd_udp (\<lambda>l. l\<lparr>udp_pcbs := u\<rparr>) S
                    else S)
           in Some (S, ERR_OK)
       } }"

partial_function (option) listed :: "ptr \<Rightarrow> ptr \<Rightarrow> 'a ust \<Rightarrow> bool option" where
  "listed u ipcb S =
     (if ipcb \<noteq> NULL then (if u = ipcb then Some True else listed u (u_next (pcb S ipcb)) S) else Some False)"

definition udp_connect :: "ptr \<Rightarrow> u32 \<Rightarrow> u16 \<Rightarrow> 'a ust \<Rightarrow> ('a ust \<times> err_t) option" where
  "udp_connect u ipaddr port S = do {
     (S, err) \<leftarrow> (if u_local_port (pcb S u) = 0 then udp_bind u (u_local_ip (pcb S u)) 0 S else Some (S, ERR_OK));
     if err \<noteq> ERR_OK then Some (S, err)
     else do {
       let S = upd_pcb u (\<lambda>b. b\<lparr>u_remote_ip := ipaddr, u_remote_port := port, u_flags := u_flags b OR UDP_FLAGS_CONNECTED\<rparr>) S;
       found \<leftarrow> listed u (udp_pcbs (udp S)) S;
       if found then Some (S, ERR_OK)
       else
         let S = upd_pcb u (\<lambda>b. b\<lparr>u_next := udp_pcbs (udp S)\<rparr>) S
         in Some (upd_udp (\<lambda>l. l\<lparr>udp_pcbs := u\<rparr>) S, ERR_OK)
     } }"

definition udp_disconnect :: "ptr \<Rightarrow> 'a ust \<Rightarrow> 'a ust" where
  "udp_disconnect u S = upd_pcb u (\<lambda>b. b\<lparr>u_remote_ip := IPADDR_ANY, u_remote_port := 0,
     u_flags := u_flags b AND NOT UDP_FLAGS_CONNECTED\<rparr>) S"

definition udp_recv :: "ptr \<Rightarrow> udp_recv_fn option \<Rightarrow> ptr \<Rightarrow> 'a ust \<Rightarrow> 'a ust" where
  "udp_recv u recv recv_arg S = upd_pcb u (\<lambda>b. b\<lparr>u_recv := recv, u_recv_arg := recv_arg\<rparr>) S"

partial_function (option) unlink_loop :: "ptr \<Rightarrow> ptr \<Rightarrow> 'a ust \<Rightarrow> 'a ust option" where
  "unlink_loop u pcb2 S =
     (if pcb2 \<noteq> NULL then
        let S = (if u_next (pcb S pcb2) \<noteq> NULL \<and> u_next (pcb S pcb2) = u
                 then upd_pcb pcb2 (\<lambda>b. b\<lparr>u_next := u_next (pcb S u)\<rparr>) S else S)
        in unlink_loop u (u_next (pcb S pcb2)) S
      else Some S)"

definition udp_remove :: "ptr \<Rightarrow> 'a ust \<Rightarrow> 'a ust option" where
  "udp_remove u S = do {
     S \<leftarrow> (if udp_pcbs (udp S) = u then Some (upd_udp (\<lambda>l. l\<lparr>udp_pcbs := u_next (pcb_at l (udp_pcbs l))\<rparr>) S)
           else unlink_loop u (udp_pcbs (udp S)) S);
     Some (S\<lparr>netw := (netw S)\<lparr>pools := memp_free MEMP_UDP_PCB u (pools (netw S))\<rparr>\<rparr>) }"

definition udp_new :: "'a ust \<Rightarrow> 'a ust \<times> ptr" where
  "udp_new S =
     (case memp_malloc MEMP_UDP_PCB (pools (netw S)) of (P, u) \<Rightarrow>
        let S = S\<lparr>netw := (netw S)\<lparr>pools := P\<rparr>\<rparr> in
        if u \<noteq> NULL then
          (upd_pcb u (\<lambda>_. \<lparr>u_local_ip = 0, u_remote_ip = 0, u_tos = 0, u_ttl = UDP_TTL, u_next = NULL, u_flags = 0,
              u_local_port = 0, u_remote_port = 0, u_recv = None, u_recv_arg = NULL\<rparr>) S, u)
        else (S, u))"

subsection \<open>Sending\<close>

text \<open>The packet with the UDP header in front: in the packet itself, or in a new pbuf chained to it.\<close>

definition udp_header_pbuf :: "ptr \<Rightarrow> 'a ust \<Rightarrow> ('a ust \<times> ptr) option" where
  "udp_header_pbuf p S =
     (case pbuf_header_st p UDP_HLEN S of (S, bad) \<Rightarrow>
        if bad \<noteq> 0 then do {
          (N, q) \<leftarrow> pbuf_alloc PBUF_IP (word_of_int UDP_HLEN) PBUF_RAM (netw S);
          if q = NULL then Some (S\<lparr>netw := N\<rparr>, NULL)
          else do {
            N \<leftarrow> (if ptot N p \<noteq> 0 then pbuf_chain q p N else Some N);
            Some (S\<lparr>netw := N\<rparr>, q)
          }
        } else Some (S, p))"

definition udp_sendto_if :: "'a udp_layer ip_ops \<Rightarrow> ptr \<Rightarrow> ptr \<Rightarrow> u32 \<Rightarrow> u16 \<Rightarrow> ptr \<Rightarrow> 'a ust \<Rightarrow> ('a ust \<times> err_t) option" where
  "udp_sendto_if ops u p dst_ip dst_port netif S = do {
     (S, err) \<leftarrow> (if u_local_port (pcb S u) = 0 then udp_bind u (u_local_ip (pcb S u)) 0 S else Some (S, ERR_OK));
     if err \<noteq> ERR_OK then Some (S, err)
     else do {
       (S, q) \<leftarrow> udp_header_pbuf p S;
       if q = NULL then Some (S, ERR_MEM)
       else do {
         let udphdr = pay S q;
         let S = st_octets (udphdr + udp_src) (octets16 (lwip_htons (u_local_port (pcb S u)))) S;
         let S = st_octets (udphdr + udp_dest) (octets16 (lwip_htons dst_port)) S;
         let S = st_octets (udphdr + udp_chksum) (octets16 0) S;
         let local = u_local_ip (pcb S u);
         let own = n_ip_addr (nif S netif);
         if local \<noteq> IPADDR_ANY \<and> local \<noteq> own then do {
           S \<leftarrow> (if q \<noteq> p then free_packet q S else Some S);
           Some (S, ERR_VAL)
         }
         else do {
           let src_ip = (if local = IPADDR_ANY then own else local);
           let S = st_octets (udphdr + udp_len) (octets16 (lwip_htons (ptot (netw S) q))) S;
           (S, err) \<leftarrow> ip_output_if ops q (Some src_ip) (Some dst_ip) (u_ttl (pcb S u)) (u_tos (pcb S u)) IP_PROTO_UDP netif S;
           S \<leftarrow> (if q \<noteq> p then free_packet q S else Some S);
           Some (S, err)
         }
       }
     } }"

definition udp_sendto :: "'a udp_layer ip_ops \<Rightarrow> ptr \<Rightarrow> ptr \<Rightarrow> u32 \<Rightarrow> u16 \<Rightarrow> 'a ust \<Rightarrow> ('a ust \<times> err_t) option" where
  "udp_sendto ops u p dst_ip dst_port S = do {
     netif \<leftarrow> ip_route dst_ip S;
     if netif = NULL then Some (S, ERR_RTE) else udp_sendto_if ops u p dst_ip dst_port netif S }"

definition udp_send :: "'a udp_layer ip_ops \<Rightarrow> ptr \<Rightarrow> ptr \<Rightarrow> 'a ust \<Rightarrow> ('a ust \<times> err_t) option" where
  "udp_send ops u p S = udp_sendto ops u p (u_remote_ip (pcb S u)) (u_remote_port (pcb S u)) S"

subsection \<open>Receiving\<close>

definition local_match :: "ptr \<Rightarrow> ptr \<Rightarrow> u16 \<Rightarrow> bool \<Rightarrow> 'a ust \<Rightarrow> bool" where
  "local_match u inp dest broadcast S \<longleftrightarrow>
     u_local_port (pcb S u) = dest \<and>
     (\<not> broadcast \<and> u_local_ip (pcb S u) = IPADDR_ANY \<or>
      u_local_ip (pcb S u) = current_iphdr_dest (inet S) \<or>
      broadcast \<and> (u_local_ip (pcb S u) = IPADDR_ANY \<or>
        ip_addr_netcmp (u_local_ip (pcb S u)) (current_iphdr_dest (inet S)) (n_netmask (nif S inp))))"

text \<open>The search for a control block; a fully matching one is moved to the front of the list.\<close>

partial_function (option) find_pcb ::
  "ptr \<Rightarrow> u16 \<Rightarrow> u16 \<Rightarrow> bool \<Rightarrow> ptr \<Rightarrow> ptr \<Rightarrow> ptr \<Rightarrow> 'a ust \<Rightarrow> ('a ust \<times> ptr) option" where
  "find_pcb inp src dest broadcast u prev uncon S =
     (if u \<noteq> NULL then
        let matches = local_match u inp dest broadcast S;
            uncon = (if matches \<and> uncon = NULL \<and> u_flags (pcb S u) AND UDP_FLAGS_CONNECTED = 0 then u else uncon)
        in if matches \<and> u_remote_port (pcb S u) = src \<and>
              (u_remote_ip (pcb S u) = IPADDR_ANY \<or> u_remote_ip (pcb S u) = current_iphdr_src (inet S)) then
             Some (if prev \<noteq> NULL then
                     let S = upd_pcb prev (\<lambda>b. b\<lparr>u_next := u_next (pcb S u)\<rparr>) S;
                         S = upd_pcb u (\<lambda>b. b\<lparr>u_next := udp_pcbs (udp S)\<rparr>) S
                     in upd_udp (\<lambda>l. l\<lparr>udp_pcbs := u\<rparr>) S
                   else S, u)
           else find_pcb inp src dest broadcast (u_next (pcb S u)) u uncon S
      else Some (S, uncon))"

definition udp_receive :: "'a udp_layer ip_ops \<Rightarrow> 'a recv_call \<Rightarrow> ptr \<Rightarrow> ptr \<Rightarrow> 'a ust \<Rightarrow> 'a ust option" where
  "udp_receive ops call p inp S = do {
     let iphdr = pay S p;
     let hlen = uint (IPH_HL iphdr S) * 4;
     let (S, bad) = (if uint (ptot (netw S) p) < hlen + UDP_HLEN then (S, 1) else pbuf_header_st p (- hlen) S);
     if bad \<noteq> 0 then free_packet p S
     else do {
       let udphdr = pay S p;
       let broadcast = ip4_addr_isbroadcast (current_iphdr_dest (inet S)) (nif S inp);
       let src = lwip_ntohs (ld16 S (udphdr + udp_src));
       let dest = lwip_ntohs (ld16 S (udphdr + udp_dest));
       (S, u) \<leftarrow> (if dest = DHCP_CLIENT_PORT then
                   let c = dhcp_pcb (udp S) inp in
                   Some (S, if src = DHCP_SERVER_PORT \<and> c \<noteq> NULL \<and>
                              (u_remote_ip (pcb S c) = IPADDR_ANY \<or> u_remote_ip (pcb S c) = current_iphdr_src (inet S))
                            then c else NULL)
                 else find_pcb inp src dest broadcast (udp_pcbs (udp S)) NULL NULL S);
       if u \<noteq> NULL \<or> n_ip_addr (nif S inp) = current_iphdr_dest (inet S) then do {
         let (S, bad) = pbuf_header_st p (- UDP_HLEN) S;
         if bad \<noteq> 0 then free_packet p S
         else if u \<noteq> NULL then
           (case u_recv (pcb S u) of
              Some f \<Rightarrow> call f (u_recv_arg (pcb S u)) u p (current_iphdr_src (inet S)) src S
            | None \<Rightarrow> free_packet p S)
         else do {
           S \<leftarrow> (if \<not> broadcast \<and> \<not> ip_addr_ismulticast (current_iphdr_dest (inet S)) then
                   let (S, bad) = pbuf_header_st p (hlen + UDP_HLEN) S
                   in icmp_dest_unreach ops p ICMP_DUR_PORT S
                 else Some S);
           free_packet p S
         }
       }
       else free_packet p S
     } }"

end
