(* ===== verification/Frames.thy ===== *)
theory Frames
  imports Ip_Input
begin

text \<open>
  The frames that the stack hands to the transmit DMA. The protocol layers put their headers in
  front of the payload; the lemmas of this theory follow a packet down through them, with the
  octets of its payload, and give the frame in the DMA buffer octet for octet, for a next hop
  whose address is in the ARP table.
\<close>

unbundle bit_operations_syntax

subsection \<open>Headers in front of a packet\<close>

text \<open>\<open>headroom N q k\<close>: \<open>k\<close> octets fit between the pbuf structure and the payload.\<close>

definition headroom :: "'a net_scheme \<Rightarrow> ptr \<Rightarrow> int \<Rightarrow> bool" where
  "headroom N q k \<longleftrightarrow> q \<noteq> NULL \<and> (p_type (pbufs N q) = PBUF_RAM \<or> p_type (pbufs N q) = PBUF_POOL)
     \<and> q + SIZEOF_STRUCT_PBUF \<le> ppay N q - k"

definition shifted :: "int \<Rightarrow> pbuf \<Rightarrow> pbuf" where
  "shifted k b = b\<lparr>p_payload := p_payload b - k, p_len := p_len b + word_of_int k, p_tot_len := p_tot_len b + word_of_int k\<rparr>"

lemma shifted_sel [simp]:
  "p_next (shifted k b) = p_next b" "p_payload (shifted k b) = p_payload b - k" "p_type (shifted k b) = p_type b"
  "p_flags (shifted k b) = p_flags b" "p_ref (shifted k b) = p_ref b" "p_original (shifted k b) = p_original b"
  "p_len (shifted k b) = p_len b + word_of_int k" "p_tot_len (shifted k b) = p_tot_len b + word_of_int k"
  by (simp_all add: shifted_def)

lemma shifted_shifted [simp]: "shifted j (shifted k b) = shifted (k + j) b"
  by (simp add: shifted_def)

lemma shifted_zero [simp]: "shifted 0 b = b"
  by (simp add: shifted_def)

lemma pbuf_header_up:
  "headroom N q k \<Longrightarrow> 0 < k \<Longrightarrow> pbuf_header q k N = (upd_pbuf q (shifted k) N, 0)"
  by (auto simp: pbuf_header_def headroom_def shifted_def [abs_def] Let_def)

lemma pbuf_header_down:
  "q \<noteq> NULL \<Longrightarrow> 0 \<le> k \<Longrightarrow> k \<le> uint (plen N q) \<Longrightarrow> q + SIZEOF_STRUCT_PBUF \<le> ppay N q \<Longrightarrow>
   pbuf_header q (- k) N = (upd_pbuf q (shifted (- k)) N, 0)"
  by (cases "p_type (pbufs N q)") (auto simp: pbuf_header_def shifted_def [abs_def] upd_pbuf_def Let_def)

lemma unat_add_int: "0 \<le> k \<Longrightarrow> unat (x :: u16) + nat k < 65536 \<Longrightarrow> unat (x + word_of_int k) = unat x + nat k"
  by (cases k rule: int_cases) (simp_all add: unat_word_ariths unat_of_nat)

text \<open>The payload of the packet after \<open>k\<close> more octets are taken in.\<close>

lemma header_packet:
  assumes pk: "packet (pbufs N) q (q # qs)" and k: "0 \<le> k" and l: "tlen (pbufs N) (q # qs) + nat k < 65536"
  defines "N' \<equiv> upd_pbuf q (shifted k) N"
  shows "packet (pbufs N') q (q # qs)" and "tlen (pbufs N') (q # qs) = nat k + tlen (pbufs N) (q # qs)"
    and "content N' (q # qs) = mem_range (mbytes N) (ppay N q - k) (nat k) @ content N (q # qs)"
proof -
  have q: "q \<notin> set qs" "q \<noteq> NULL" using pk by (simp_all add: packet_def)
  have frame: "pbufs N' x = pbufs N x" if "x \<in> set qs" for x using that q by (auto simp: N'_def)
  have p: "unat (plen N' q) = unat (plen N q) + nat k" using l k by (simp add: N'_def unat_add_int)
  have t: "unat (ptot N' q) = unat (ptot N q) + nat k" using l k pk by (simp add: N'_def unat_add_int packet_def)
  have tl: "tlen (pbufs N') qs = tlen (pbufs N) qs" by (rule tlen_frame) (simp add: frame)
  then show T: "tlen (pbufs N') (q # qs) = nat k + tlen (pbufs N) (q # qs)" by (simp add: p)
  have "chain (pbufs N') (pnx N' q) qs" using pk frame chain_frame [of qs "pbufs N'" "pbufs N"] by (simp add: packet_def N'_def)
  moreover have "tots (pbufs N') qs" using pk frame tots_frame [of qs "pbufs N'" "pbufs N"] by (simp add: packet_def)
  ultimately show "packet (pbufs N') q (q # qs)" using pk t p tl by (simp add: packet_def)
  have c: "content N' qs = content N qs" by (rule content_frame) (simp add: frame, simp add: N'_def)
  have m: "mem_range b (a - k) (nat k + n) = mem_range b (a - k) (nat k) @ mem_range b a n" for b a n
    using mem_range_split [of b "a - k" "nat k" n] k by simp
  show "content N' (q # qs) = mem_range (mbytes N) (ppay N q - k) (nat k) @ content N (q # qs)"
    using m [of "mbytes N" "ppay N q" "unat (plen N q)"] c p
    by (simp add: N'_def upd_pbuf_def add.commute)
qed

subsection \<open>Stores\<close>

text \<open>\<open>touches A N N'\<close>: from \<open>N\<close> to \<open>N'\<close> only octets at addresses of \<open>A\<close> have changed.\<close>

definition touches :: "ptr set \<Rightarrow> 'a net_scheme \<Rightarrow> 'a net_scheme \<Rightarrow> bool" where
  "touches A N N' \<longleftrightarrow> (\<exists>f. N' = upd_bytes f N \<and> (\<forall>a. a \<notin> A \<longrightarrow> f (mbytes N) a = mbytes N a))"

lemma upd_bytes_upd_bytes [simp]: "upd_bytes g (upd_bytes f N) = upd_bytes (\<lambda>b. g (f b)) N"
  by (simp add: upd_bytes_def)

lemma touches_refl [simp]: "touches A N N"
  unfolding touches_def by (rule exI [of _ "\<lambda>b. b"]) (simp add: upd_bytes_def)

lemma touches_trans: "touches A N N' \<Longrightarrow> touches B N' N'' \<Longrightarrow> touches (A \<union> B) N N''"
  unfolding touches_def by (elim exE conjE) (intro exI conjI, erule ssubst, erule ssubst, rule upd_bytes_upd_bytes, simp)

lemma touches_put: "touches {a ..< a + int (length vs)} N (upd_bytes (put_bytes a vs) N)"
  unfolding touches_def by (intro exI conjI, rule refl) (simp add: put_bytes_def)

lemma touches_step: "touches A N N' \<Longrightarrow> touches (A \<union> {a ..< a + int (length vs)}) N (upd_bytes (put_bytes a vs) N')"
  by (erule touches_trans) (rule touches_put)

lemma touches_mono: "touches A N N' \<Longrightarrow> A \<subseteq> B \<Longrightarrow> touches B N N'"
  unfolding touches_def by blast

lemma touches_sel:
  "touches A N N' \<Longrightarrow> pbufs N' = pbufs N" "touches A N N' \<Longrightarrow> pools N' = pools N"
  "touches A N N' \<Longrightarrow> mheap N' = (mheap N)\<lparr>bytes := mbytes N'\<rparr>" "touches A N N' \<Longrightarrow> a \<notin> A \<Longrightarrow> mbytes N' a = mbytes N a"
  by (auto simp: touches_def upd_bytes_def)

text \<open>Stores in the first \<open>k\<close> octets of a packet.\<close>

lemma content_front:
  assumes t: "touches A N N'" and A: "\<forall>x \<in> set qs. region N x \<inter> A = {}"
    and h: "\<forall>a. ppay N q + int k \<le> a \<and> a < ppay N q + uint (plen N q) \<longrightarrow> a \<notin> A" and k: "k \<le> unat (plen N q)"
  shows "content N' (q # qs) = mem_range (mbytes N') (ppay N q) k @ drop k (content N (q # qs))"
proof -
  have p: "pbufs N' = pbufs N" by (rule touches_sel(1) [OF t])
  have c: "content N' qs = content N qs" by (rule content_bytes) (use A touches_sel(4) [OF t] p in blast)+
  let ?n = "unat (plen N q)" and ?a = "ppay N q"
  obtain m where m: "?n = k + m" using k le_Suc_ex by blast
  have "mem_range (mbytes N') (?a + int k) m = mem_range (mbytes N) (?a + int k) m"
  proof (rule mem_range_cong, rule touches_sel(4) [OF t])
    fix i assume "i < m"
    moreover have "uint (plen N q) = int k + int m" using m by (metis of_nat_add uint_unat)
    ultimately show "?a + int k + int i \<notin> A" using h by simp
  qed
  then show ?thesis using c m by (simp add: p mem_range_split)
qed

subsection \<open>The Ethernet header\<close>

definition tx_ready :: "ptr \<Rightarrow> ptr \<Rightarrow> 'u eth \<Rightarrow> bool" where
  "tx_ready td b S \<longleftrightarrow> DMATxDescToSet S = td \<and> Buffer1Addr (descs S td) = b \<and> status S td AND ETH_DMATxDesc_OWN = 0"

text \<open>The frame \<open>fr\<close> is in the buffer \<open>b\<close> of the descriptor \<open>td\<close>, which belongs to the DMA.\<close>

definition frame_sent :: "ptr \<Rightarrow> ptr \<Rightarrow> u8 list \<Rightarrow> 'u eth \<Rightarrow> 'u eth \<Rightarrow> bool" where
  "frame_sent td b fr S S' \<longleftrightarrow> mem_range (mbytes (netw S')) b (length fr) = fr
     \<and> status S' td AND ETH_DMATxDesc_OWN \<noteq> 0 \<and> ControlBufferSize (descs S' td) = of_nat (length fr)
     \<and> DMATxDescToSet S' = Buffer2NextDescAddr (descs S td)"

definition eth_frame :: "eth_addr \<Rightarrow> eth_addr \<Rightarrow> u8 list \<Rightarrow> u8 list" where
  "eth_frame dst src data = dst @ src @ [0x08, 0x00] @ data"

text \<open>
  The memory a packet \<open>q # qs\<close> needs for \<open>k\<close> octets of headers: apart from the payload of the
  other pbufs, and all of it apart from the DMA buffer of the frame.
\<close>

definition clear_of :: "'a net_scheme \<Rightarrow> ptr \<Rightarrow> ptr list \<Rightarrow> int \<Rightarrow> ptr \<Rightarrow> bool" where
  "clear_of N q qs k b \<longleftrightarrow>
     (\<forall>x \<in> set qs. region N x \<inter> {ppay N q - k ..< ppay N q} = {}) \<and>
     (\<forall>x \<in> set (q # qs). region N x \<inter> {b ..< b + (k + int (tlen (pbufs N) (q # qs)))} = {}) \<and>
     {ppay N q - k ..< ppay N q} \<inter> {b ..< b + (k + int (tlen (pbufs N) (q # qs)))} = {}"

lemma frame_own: "(x OR 0xB0000000) AND ETH_DMATxDesc_OWN \<noteq> (0 :: u32)"
  by (simp add: tx_bits bit.conj_disj_distrib2)

lemma etharp_send_ip_run:
  fixes S :: "'v st"
  assumes pk: "packet (pbufs (netw S)) q (q # qs)" and l: "14 \<le> unat (plen (netw S) q)" "tlen (pbufs (netw S)) (q # qs) \<le> 1524"
    and m: "length src = 6" "length dst = 6" and tx: "tx_ready td b S"
    and front: "\<forall>x \<in> set qs. region (netw S) x \<inter> {pay S q ..< pay S q + 14} = {}"
    and buf: "\<forall>x \<in> set (q # qs). region (netw S) x \<inter> {b ..< b + int (tlen (pbufs (netw S)) (q # qs))} = {}"
  shows "\<exists>S'. etharp_send_ip q src dst S = Some (S', ERR_OK) \<and> upper S' = upper S
    \<and> frame_sent td b (eth_frame dst src (drop 14 (content (netw S) (q # qs)))) S S'
    \<and> touches ({pay S q ..< pay S q + 14} \<union> {b ..< b + int (tlen (pbufs (netw S)) (q # qs))}) (netw S) (netw S')"
proof -
  let ?h = "pay S q" and ?t = "tlen (pbufs (netw S)) (q # qs)"
  define T where "T = st_octets (?h + int 12) [8, 0] (st_octets (?h + int 6) src (st_octets (?h + int 0) dst S))"
  have o: "octets16 (lwip_htons ETHTYPE_IP) = [8, 0]" by (simp add: octets16_def lwip_htons_def hdr_consts)
  have run: "etharp_send_ip q src dst S = low_level_output q T"
    by (simp add: etharp_send_ip_def T_def offsets o Let_def)
  have T: "upper T = upper S" "descs T = descs S" "DMATxDescToSet T = DMATxDescToSet S" by (simp_all add: T_def st_octets_def)
  have touch: "touches {?h ..< ?h + 14} (netw S) (netw T)"
  proof -
    have "touches ({?h + int 0 ..< ?h + int 0 + int (length dst)} \<union> {?h + int 6 ..< ?h + int 6 + int (length src)}
        \<union> {?h + int 12 ..< ?h + int 12 + int (length [8, 0 :: u8])}) (netw S) (netw T)"
      unfolding T_def st_octets_sel by (intro touches_step touches_put)
    then show ?thesis by (rule touches_mono) (use m in auto)
  qed
  have p: "pbufs (netw T) = pbufs (netw S)" by (rule touches_sel(1) [OF touch])
  have "mem_range (mbytes (netw T)) ?h 14 = dst @ src @ [8, 0]"
    unfolding T_def st_octets_sel upd_bytes_sel
    by (subst mem_range_splice, use m in simp)+ (use m in \<open>simp add: splice_def\<close>)
  then have c: "content (netw T) (q # qs) = eth_frame dst src (drop 14 (content (netw S) (q # qs)))"
    using content_front [OF touch _ _ l(1)] front by (auto simp: eth_frame_def)
  have buf': "\<forall>x \<in> set (q # qs). region (netw T) x \<inter> {b ..< b + int (tlen (pbufs (netw T)) (q # qs))} = {}"
    using buf by (simp add: p region_same [OF p])
  have D: "DMATxDescToSet T = td" "Buffer1Addr (descs T td) = b" "status T td AND ETH_DMATxDesc_OWN = 0"
    using tx by (simp_all add: tx_ready_def T)
  obtain U where U: "low_level_output q T = Some (U, ERR_OK)" "netw U = upd_bytes (put_bytes b (content (netw T) (q # qs))) (netw T)"
      "descs U = (descs T)(td := (descs T td)\<lparr>Status := status T td OR 0xB0000000, ControlBufferSize := of_nat ?t\<rparr>)"
      "DMATxDescToSet U = Buffer2NextDescAddr (descs T td)"
    using low_level_output_run [OF pk [folded p] l(2) [folded p] D(1,2) buf'] D(3) unfolding p by auto
  have len: "length (content (netw T) (q # qs)) = ?t" by (simp only: length_content p)
  have "touches {b ..< b + int ?t} (netw T) (netw U)"
    unfolding U(2) using touches_put [of b "content (netw T) (q # qs)"] by (simp only: len)
  then have "touches ({?h ..< ?h + 14} \<union> {b ..< b + int ?t}) (netw S) (netw U)" by (rule touches_trans [OF touch])
  moreover have "upper U = upper S" using low_level_output_upper [OF U(1)] T(1) by simp
  moreover have "mem_range (mbytes (netw U)) b ?t = content (netw T) (q # qs)"
    using mem_range_put [of b "content (netw T) (q # qs)"] unfolding U(2) upd_bytes_sel len .
  then have "frame_sent td b (content (netw T) (q # qs)) S U"
    by (simp only: frame_sent_def len U(3,4)) (simp add: T frame_own)
  ultimately show ?thesis unfolding run using U(1) c by auto
qed

subsection \<open>The next hop\<close>

text \<open>
  The next hop of a unicast destination is the destination, or the gateway outside the network of
  the interface. \<open>routed n dst mac S\<close>: the ARP table has the address \<open>mac\<close> of the next hop in an
  entry that is not about to be renewed.
\<close>

definition next_hop :: "netif \<Rightarrow> u32 \<Rightarrow> u32" where
  "next_hop nf dst = (if \<not> ip_addr_netcmp dst (n_ip_addr nf) (n_netmask nf) \<and> \<not> ip_addr_islinklocal dst then n_gw nf else dst)"

definition routed :: "ptr \<Rightarrow> u32 \<Rightarrow> eth_addr \<Rightarrow> 'v st \<Rightarrow> bool" where
  "routed n dst mac S \<longleftrightarrow> unicast dst (nif S n) \<and> next_hop (nif S n) dst \<noteq> IPADDR_ANY
     \<and> (\<exists>i < ARP_TABLE_SIZE. stable (table S ! i) \<and> e_ipaddr (table S ! i) = next_hop (nif S n) dst
          \<and> e_ethaddr (table S ! i) = mac \<and> e_ctime (table S ! i) < ARP_AGE_REREQUEST_USED)"

lemma find_stable_found:
  "i < length es \<Longrightarrow> stable (es ! i) \<Longrightarrow> e_ipaddr (es ! i) = a \<Longrightarrow>
   \<exists>j. find_stable a es k = Some (k + j) \<and> j < length es \<and> stable (es ! j) \<and> e_ipaddr (es ! j) = a"
proof (induction es arbitrary: i k)
  case (Cons e es)
  show ?case
  proof (cases "stable e \<and> a = e_ipaddr e")
    case True
    then show ?thesis by (intro exI [of _ 0]) simp
  next
    case False
    then obtain i' where "i = Suc i'" using Cons.prems by (cases i) auto
    then obtain j where "find_stable a es (k + 1) = Some (k + 1 + j)" "j < length es" "stable (es ! j)" "e_ipaddr (es ! j) = a"
      using Cons.IH [of i' "k + 1"] Cons.prems by auto
    then show ?thesis using False by (intro exI [of _ "Suc j"]) auto
  qed
qed simp

lemma tab_unique:
  "tab_ok es \<Longrightarrow> i < length es \<Longrightarrow> j < length es \<Longrightarrow> used (es ! i) \<Longrightarrow> used (es ! j) \<Longrightarrow>
   e_ipaddr (es ! i) = e_ipaddr (es ! j) \<Longrightarrow> i = j"
  by (auto simp: tab_ok_def)

lemma ivl_front: "0 \<le> u \<Longrightarrow> 0 \<le> k \<Longrightarrow> {a - k ..< a - k + (u + k)} = {a - k ..< a :: int} \<union> {a ..< a + u}"
  by auto

lemma region_shift:
  assumes p: "pbufs N' = (pbufs N)(q := shifted k (pbufs N q))" and k: "0 \<le> k" and l: "unat (plen N q) + nat k < 65536"
  shows "region N' q = {ppay N q - k ..< ppay N q} \<union> region N q" and "x \<noteq> q \<Longrightarrow> region N' x = region N x"
proof -
  have "unat (plen N' q) = unat (plen N q) + nat k" using l k unat_add_int [of k "plen N q"] by (simp add: p)
  then have "uint (plen N' q) = uint (plen N q) + k" using k by (simp only: uint_unat)
  moreover have "ppay N' q = ppay N q - k" by (simp add: p)
  ultimately show "region N' q = {ppay N q - k ..< ppay N q} \<union> region N q"
    unfolding region_def by (simp only: ivl_front uint_ge_0 k)
  show "x \<noteq> q \<Longrightarrow> region N' x = region N x" by (simp add: region_def p)
qed

lemma clear_of_shift:
  assumes c: "clear_of N q qs (j + k) b" and p: "pbufs N' = (pbufs N)(q := shifted k (pbufs N q))" and jk: "0 \<le> j" "0 \<le> k"
    and pk: "packet (pbufs N) q (q # qs)" and l: "tlen (pbufs N) (q # qs) + nat k < 65536"
  shows "clear_of N' q qs j b"
proof -
  have q: "q \<notin> set qs" using pk by (simp add: packet_def)
  have t: "int (tlen (pbufs N') (q # qs)) = k + int (tlen (pbufs N) (q # qs))"
    using header_packet(2) [OF pk jk(2) l] jk(2) by (simp only: p upd_pbuf_sel)
  have l': "unat (plen N q) + nat k < 65536" using l by simp
  have "region N' x = region N x" if "x \<in> set qs" for x using region_shift(2) [OF p jk(2) l'] that q by metis
  moreover have "region N' q = {ppay N q - k ..< ppay N q} \<union> region N q" by (rule region_shift(1) [OF p jk(2) l'])
  moreover have "ppay N' q = ppay N q - k" by (simp add: p)
  moreover have "{ppay N q - k - j ..< ppay N q - k} \<subseteq> {ppay N q - (j + k) ..< ppay N q}"
    and "{ppay N q - k ..< ppay N q} \<subseteq> {ppay N q - (j + k) ..< ppay N q}" using jk by auto
  ultimately show ?thesis
    using c unfolding clear_of_def t list.set add.assoc by (simp only: ball_simps) blast
qed

lemma etharp_output_unicast:
  assumes h: "pbuf_header q 14 (netw S) = (N, 0)"
    and u: "\<not> ip4_addr_isbroadcast dst (nif S n)" "\<not> ip_addr_ismulticast dst" "next_hop (nif S n) dst \<noteq> IPADDR_ANY"
  shows "etharp_output n q dst S =
    (if stable (table S ! etharp_cached_entry (upper S)) \<and> next_hop (nif S n) dst = e_ipaddr (table S ! etharp_cached_entry (upper S))
     then etharp_output_to_arp_index n q (etharp_cached_entry (upper S)) (S\<lparr>netw := N\<rparr>)
     else case find_stable (next_hop (nif S n) dst) (take ARP_TABLE_SIZE (table S)) 0 of
       Some i \<Rightarrow> etharp_output_to_arp_index n q i (set_hint i (S\<lparr>netw := N\<rparr>))
     | None \<Rightarrow> etharp_query n (next_hop (nif S n) dst) q (S\<lparr>netw := N\<rparr>))"
proof (cases "\<not> ip_addr_netcmp dst (n_ip_addr (nif S n)) (n_netmask (nif S n)) \<and> \<not> ip_addr_islinklocal dst")
  case True
  then have nh: "next_hop (nif S n) dst = n_gw (nif S n)" by (simp add: next_hop_def)
  show ?thesis using assms(2,3) u(3) h True unfolding nh by (simp add: etharp_output_def Let_def SIZEOF_ETH_HDR_def split: option.split)
next
  case False
  then have nh: "next_hop (nif S n) dst = dst" by (auto simp: next_hop_def)
  show ?thesis using assms(2,3) h unfolding nh by (simp add: False etharp_output_def Let_def SIZEOF_ETH_HDR_def split: option.split)
qed

lemma etharp_output_run:
  fixes S :: "'v st"
  assumes ok: "arp_ok S" and r: "routed n dst mac S" and m: "length mac = 6" "length (n_hwaddr (nif S n)) = 6"
    and pk: "packet (pbufs (netw S)) q (q # qs)" and hd: "headroom (netw S) q 14"
    and l: "tlen (pbufs (netw S)) (q # qs) \<le> 1510" and tx: "tx_ready td b S" and ap: "clear_of (netw S) q qs 14 b"
  shows "\<exists>S' c. etharp_output n q dst S = Some (S', ERR_OK) \<and> upper S' = (upper S)\<lparr>etharp_cached_entry := c\<rparr> \<and> c < ARP_TABLE_SIZE
    \<and> frame_sent td b (eth_frame mac (n_hwaddr (nif S n)) (content (netw S) (q # qs))) S S'
    \<and> touches ({pay S q - 14 ..< pay S q} \<union> {b ..< b + (14 + int (tlen (pbufs (netw S)) (q # qs)))})
        (upd_pbuf q (shifted 14) (netw S)) (netw S')"
proof -
  let ?N = "upd_pbuf q (shifted 14) (netw S)" and ?t = "tlen (pbufs (netw S)) (q # qs)" and ?nf = "nif S n"
  define T where "T = S\<lparr>netw := ?N\<rparr>"
  have bd: "0 \<le> (14 :: int)" "?t + nat 14 < 65536" using l by simp_all
  note H = header_packet [OF pk bd]
  have q: "q \<notin> set qs" using pk by (simp add: packet_def)
  have reg: "region ?N x = region (netw S) x" if "x \<in> set qs" for x using that q by (auto simp: region_def)
  have regq: "region ?N q = {pay S q - 14 ..< pay S q} \<union> region (netw S) q"
  proof -
    have "unat (plen (netw S) q) + nat 14 < 65536" using l by simp
    then show ?thesis by (intro region_shift) simp_all
  qed
  obtain i where i: "i < ARP_TABLE_SIZE" "stable (table S ! i)" "e_ipaddr (table S ! i) = next_hop ?nf dst"
      "e_ethaddr (table S ! i) = mac" "e_ctime (table S ! i) < ARP_AGE_REREQUEST_USED"
    using r by (auto simp: routed_def)
  have tab: "tab_ok (table S)" "length (table S) = ARP_TABLE_SIZE" "etharp_cached_entry (upper S) < ARP_TABLE_SIZE"
    using ok table_length [OF ok] by (simp_all add: arp_ok_def)
  have only: "j = i" if "j < ARP_TABLE_SIZE" "stable (table S ! j)" "e_ipaddr (table S ! j) = next_hop ?nf dst" for j
    using tab_unique [OF tab(1), of j i] that i tab(2) by (auto simp: used_def)
  define V where "V = (if etharp_cached_entry (upper S) = i then T else set_hint i T)"
  have V: "netw V = ?N" "table V = table S" "nif V = nif S" "descs V = descs S" "DMATxDescToSet V = DMATxDescToSet S"
      "upper V = (upper S)\<lparr>etharp_cached_entry := i\<rparr>"
    by (simp_all add: V_def T_def set_hint_def)
  have send: "etharp_output n q dst S = etharp_send_ip q (n_hwaddr ?nf) mac V"
  proof -
    have hit: "etharp_output_to_arp_index n q i V = etharp_send_ip q (n_hwaddr ?nf) mac V"
      using i(4) i(5) [unfolded not_le [symmetric]] by (simp add: etharp_output_to_arp_index_def V(2,3))
    obtain j where j: "find_stable (next_hop ?nf dst) (table S) 0 = Some j" "j < ARP_TABLE_SIZE" "stable (table S ! j)"
        "e_ipaddr (table S ! j) = next_hop ?nf dst"
      using find_stable_found [of i "table S" "next_hop ?nf dst" 0] i tab(2) by auto
    then have f: "find_stable (next_hop ?nf dst) (take ARP_TABLE_SIZE (table S)) 0 = Some i" using only [of j] tab(2) by simp
    have c: "etharp_cached_entry (upper S) = i" if "stable (table S ! etharp_cached_entry (upper S))"
        "next_hop ?nf dst = e_ipaddr (table S ! etharp_cached_entry (upper S))"
      using only [OF tab(3)] that by simp
    have u: "\<not> ip4_addr_isbroadcast dst ?nf" "\<not> ip_addr_ismulticast dst" "next_hop ?nf dst \<noteq> IPADDR_ANY"
      using r by (simp_all add: routed_def unicast_def)
    have zero: "0 < (14 :: int)" by simp
    note out = etharp_output_unicast [OF pbuf_header_up [OF hd zero] u, folded T_def]
    show ?thesis
    proof (cases "etharp_cached_entry (upper S) = i")
      case True
      then show ?thesis unfolding out using hit i(2,3) by (simp add: V_def)
    next
      case False
      then have n: "\<not> (stable (table S ! etharp_cached_entry (upper S)) \<and> next_hop ?nf dst = e_ipaddr (table S ! etharp_cached_entry (upper S)))"
        using c by blast
      show ?thesis unfolding out if_not_P [OF n] f using hit False by (simp add: V_def)
    qed
  qed
  have tV: "tlen (pbufs (netw V)) (q # qs) = 14 + ?t" using H(2) by (simp add: V(1))
  have front: "\<forall>x \<in> set qs. region (netw V) x \<inter> {pay V q ..< pay V q + 14} = {}"
    using ap reg by (auto simp: clear_of_def V(1))
  have buf: "\<forall>x \<in> set (q # qs). region (netw V) x \<inter> {b ..< b + int (tlen (pbufs (netw V)) (q # qs))} = {}"
    using ap reg regq unfolding tV by (simp add: clear_of_def V(1) Int_Un_distrib2)
  have "14 \<le> unat (plen (netw V) q)" using unat_add_int [of 14 "plen (netw S) q"] l by (simp add: V(1))
  from etharp_send_ip_run [OF _ this _ m(2,1) _ front buf, of td] obtain S' where
      "etharp_send_ip q (n_hwaddr ?nf) mac V = Some (S', ERR_OK)" "upper S' = upper V"
      "frame_sent td b (eth_frame mac (n_hwaddr ?nf) (drop 14 (content (netw V) (q # qs)))) V S'"
      "touches ({pay V q ..< pay V q + 14} \<union> {b ..< b + int (tlen (pbufs (netw V)) (q # qs))}) (netw V) (netw S')"
    using H(1) tx l tV by (auto simp: V tx_ready_def)
  moreover have "drop 14 (content (netw V) (q # qs)) = content (netw S) (q # qs)" using H(3) by (simp add: V(1))
  ultimately show ?thesis
    using send i(1) by (intro exI [of _ S'] exI [of _ i]) (simp add: V(1,6) H(2) [unfolded upd_pbuf_sel] frame_sent_def V(4) del: tlen_simps content_simps)
qed

subsection \<open>The IP header\<close>

definition ip_datagram :: "u32 \<Rightarrow> u32 \<Rightarrow> u8 \<Rightarrow> u8 \<Rightarrow> u8 \<Rightarrow> u16 \<Rightarrow> u8 list \<Rightarrow> u8 list" where
  "ip_datagram src dst ttl tos proto ident data =
     [0x45, tos] @ octets16 (lwip_htons (of_nat (20 + length data))) @ octets16 (lwip_htons ident) @ [0, 0, ttl, proto, 0, 0]
     @ octets32 src @ octets32 dst @ data"

lemma ip_datagram_data:
  "length data = l \<Longrightarrow> take 20 (ip_datagram src dst ttl tos proto ident (replicate l 0)) @ data = ip_datagram src dst ttl tos proto ident data"
  by (simp add: ip_datagram_def octets16_def octets32_def)

text \<open>The stores of \<open>ip_build_header\<close> give the 20 octets of the header.\<close>

lemma ip_build_header_run:
  fixes S :: "'w ist" and p h n :: ptr and src :: "u32 option" and dst :: u32 and ttl tos proto :: u8 and l :: nat
  assumes t: "unat (ptot (netw S) p) = 20 + l"
  defines "src' \<equiv> if ip_addr_isany src then n_ip_addr (nif S n) else the src"
  defines "T \<equiv> ip_build_header p h src dst ttl tos proto n S"
  shows "mem_range (mbytes (netw T)) h 20 = take 20 (ip_datagram src' dst ttl tos proto (ip_id (inet S)) (replicate l 0))"
    and "touches {h ..< h + 20} (netw S) (netw T)" and "upper T = (upper S)\<lparr>above := (inet S)\<lparr>ip_id := ip_id (inet S) + 1\<rparr>\<rparr>"
    and "descs T = descs S" "DMATxDescToSet T = DMATxDescToSet S"
proof -
  let ?o = "\<lambda>k vs N. upd_bytes (put_bytes (h + k) vs) N"
  have N: "netw T = ?o 10 (octets16 0) (?o 12 (octets32 src') (?o 4 (octets16 (lwip_htons (ip_id (inet S)))) (?o 6 (octets16 0)
      (?o 2 (octets16 (lwip_htons (ptot (netw S) p))) (?o 1 [tos] (?o 0 [0x45] (?o 16 (octets32 dst) (?o 9 [proto] (?o 8 [ttl] (netw S))))))))))"
    by (simp add: T_def ip_build_header_def Let_def src'_def IPH_VHL_SET_def IP_HLEN_def ip_fields upd_inet_def)
  have "ptot (netw S) p = of_nat (20 + l)" using arg_cong [OF t, of "of_nat :: nat \<Rightarrow> u16"] by simp
  then show "mem_range (mbytes (netw T)) h 20 = take 20 (ip_datagram src' dst ttl tos proto (ip_id (inet S)) (replicate l 0))"
    unfolding N upd_bytes_sel by (simp add: mem_range_def upt_conv_Cons put_bytes_def ip_datagram_def octets16_def octets32_def)
  have "touches (((((((((({h + 8 ..< h + 8 + int (length [ttl])} \<union> {h + 9 ..< h + 9 + int (length [proto])}) \<union> {h + 16 ..< h + 16 + int (length (octets32 dst))})
      \<union> {h + 0 ..< h + 0 + int (length [0x45 :: u8])}) \<union> {h + 1 ..< h + 1 + int (length [tos])}) \<union> {h + 2 ..< h + 2 + int (length (octets16 (lwip_htons (ptot (netw S) p))))})
      \<union> {h + 6 ..< h + 6 + int (length (octets16 0))}) \<union> {h + 4 ..< h + 4 + int (length (octets16 (lwip_htons (ip_id (inet S)))))})
      \<union> {h + 12 ..< h + 12 + int (length (octets32 src'))}) \<union> {h + 10 ..< h + 10 + int (length (octets16 0))})) (netw S) (netw T)"
    unfolding N by (intro touches_step touches_put)
  then show "touches {h ..< h + 20} (netw S) (netw T)" by (rule touches_mono) (auto simp: octets16_def)
  show "upper T = (upper S)\<lparr>above := (inet S)\<lparr>ip_id := ip_id (inet S) + 1\<rparr>\<rparr>" "descs T = descs S" "DMATxDescToSet T = DMATxDescToSet S"
    by (simp_all add: T_def ip_build_header_def Let_def IPH_VHL_SET_def upd_inet_def st_octets_def)
qed


text \<open>A datagram sent to a host whose next hop is in the ARP table.\<close>

lemma touches_shift: "touches A N N' \<Longrightarrow> touches A (upd_pbuf q f N) (upd_pbuf q f N')"
proof -
  assume "touches A N N'"
  then obtain g where g: "N' = upd_bytes g N" "\<forall>a. a \<notin> A \<longrightarrow> g (mbytes N) a = mbytes N a" by (auto simp: touches_def)
  then show ?thesis unfolding touches_def by (intro exI [of _ g]) (simp add: upd_pbuf_def upd_bytes_def)
qed

lemma routed_upper: "nif T = nif S \<Longrightarrow> table T = table S \<Longrightarrow> routed n dst mac T = routed n dst mac S"
  by (simp add: routed_def)

lemma ip_output_if_run:
  fixes S :: "'w ist" and src :: "u32 option" and n q td b :: ptr
  assumes ok: "arp_ok S" and r: "routed n dst mac S" and m: "length mac = 6" "length (n_hwaddr (nif S n)) = 6"
    and pk: "packet (pbufs (netw S)) q (q # qs)" and hd: "headroom (netw S) q 34"
    and l: "tlen (pbufs (netw S)) (q # qs) \<le> 1480" and mtu: "n_mtu (nif S n) = 0 \<or> 1500 \<le> n_mtu (nif S n)"
    and tx: "tx_ready td b S" and ap: "clear_of (netw S) q qs 34 b"
  defines "src' \<equiv> if ip_addr_isany src then n_ip_addr (nif S n) else the src"
    and "t \<equiv> tlen (pbufs (netw S)) (q # qs)"
  shows "\<exists>S' c. ip_output_if ops q src (Some dst) ttl tos proto n S = Some (S', ERR_OK)
    \<and> upper S' = (upper S)\<lparr>above := (inet S)\<lparr>ip_id := ip_id (inet S) + 1\<rparr>, etharp_cached_entry := c\<rparr> \<and> c < ARP_TABLE_SIZE
    \<and> frame_sent td b (eth_frame mac (n_hwaddr (nif S n)) (ip_datagram src' dst ttl tos proto (ip_id (inet S)) (content (netw S) (q # qs)))) S S'
    \<and> touches ({pay S q - 34 ..< pay S q} \<union> {b ..< b + (34 + int t)}) (upd_pbuf q (shifted 34) (netw S)) (netw S')"
proof -
  let ?N = "upd_pbuf q (shifted 20) (netw S)" and ?h = "pay S q - 20"
  have bd: "0 \<le> (20 :: int)" "tlen (pbufs (netw S)) (q # qs) + nat 20 < 65536" using l by simp_all
  note H = header_packet [OF pk bd]
  define T where "T = ip_build_header q ?h src dst ttl tos proto n (S\<lparr>netw := ?N\<rparr>)"
  have "unat (ptot ?N q) = 20 + t" using H(1,2) unfolding packet_def t_def by (simp del: tlen_simps)
  then have tot: "unat (ptot (netw (S\<lparr>netw := ?N\<rparr>)) q) = 20 + t" by simp
  note B = ip_build_header_run [OF tot, of ?h src dst ttl tos proto n, folded T_def]
  have P: "pbufs (netw T) = (pbufs (netw S))(q := shifted 20 (pbufs (netw S) q))" using touches_sel(1) [OF B(2)] by simp
  have U: "nif T = nif S" "table T = table S" "arp_ok T" using ok by (simp_all add: arp_ok_def B(3))
  have reg: "region ?N x = region (netw S) x" if "x \<in> set qs" for x
    using that pk by (intro region_shift(2) [of _ _ q 20]) (use l in \<open>auto simp: packet_def\<close>)
  have "pay T q = ?h" by (simp add: P)
  have c: "content (netw T) (q # qs) = ip_datagram src' dst ttl tos proto (ip_id (inet S)) (content (netw S) (q # qs))"
  proof -
    have "20 \<le> unat (plen ?N q)" using unat_add_int [of 20 "plen (netw S) q"] l by simp
    moreover have "touches {?h ..< ?h + 20} ?N (netw T)" using B(2) by simp
    moreover have "\<forall>x \<in> set qs. region ?N x \<inter> {?h ..< ?h + 20} = {}"
    proof -
      have "{?h ..< ?h + 20} \<subseteq> {pay S q - 34 ..< pay S q}" by auto
      then show ?thesis using reg ap unfolding clear_of_def by blast
    qed
    moreover have "ppay ?N q = ?h" by simp
    ultimately have "content (netw T) (q # qs) = mem_range (mbytes (netw T)) ?h 20 @ drop 20 (content ?N (q # qs))"
      using content_front [of "{?h ..< ?h + 20}" ?N "netw T" qs q 20] by (simp del: content_simps upd_pbuf_sel)
    moreover have "drop 20 (content ?N (q # qs)) = content (netw S) (q # qs)" using H(3) by simp
    moreover have "length (content (netw S) (q # qs)) = t" unfolding t_def by (rule length_content)
    moreover have "mem_range (mbytes (netw T)) ?h 20 = take 20 (ip_datagram src' dst ttl tos proto (ip_id (inet S)) (replicate t 0))"
      using B(1) by (simp add: src'_def)
    ultimately show ?thesis by (simp only: ip_datagram_data)
  qed
  have pkT: "packet (pbufs (netw T)) q (q # qs)" and tT: "tlen (pbufs (netw T)) (q # qs) = 20 + t"
    using H(1,2) unfolding P upd_pbuf_sel t_def by simp_all
  have hdT: "headroom (netw T) q 14" using hd by (simp add: headroom_def P)
  have lT: "tlen (pbufs (netw T)) (q # qs) \<le> 1510" using tT l by (simp add: t_def)
  have apT: "clear_of (netw T) q qs 14 b" using clear_of_shift [OF _ P _ bd(1) pk bd(2), of 14 b] ap by simp
  have txT: "tx_ready td b T" using tx by (simp add: tx_ready_def B(4,5))
  have rT: "routed n dst mac T" using r routed_upper [OF U(1,2)] by blast
  obtain S' d where S': "etharp_output n q dst T = Some (S', ERR_OK)" "upper S' = (upper T)\<lparr>etharp_cached_entry := d\<rparr>" "d < ARP_TABLE_SIZE"
      "frame_sent td b (eth_frame mac (n_hwaddr (nif S n)) (content (netw T) (q # qs))) T S'"
      "touches ({pay T q - 14 ..< pay T q} \<union> {b ..< b + (14 + int (tlen (pbufs (netw T)) (q # qs)))}) (upd_pbuf q (shifted 14) (netw T)) (netw S')"
    using etharp_output_run [OF U(3) rT m [folded U(1)] pkT hdT lT txT apT] unfolding U(1) by blast
  have hd20: "pbuf_header q 20 (netw S) = (?N, 0)" using hd by (intro pbuf_header_up) (simp_all add: headroom_def)
  have mt: "\<not> (n_mtu (nif T n) \<noteq> 0 \<and> ptot (netw T) q > n_mtu (nif T n))"
  proof -
    have "unat (ptot (netw T) q) \<le> 1500" using tot l by (simp add: P t_def)
    moreover have "n_mtu (nif S n) = 0 \<or> 1500 \<le> unat (n_mtu (nif S n))" using mtu by (auto simp: word_le_nat_alt)
    ultimately show ?thesis unfolding U(1) by (auto simp: word_less_nat_alt)
  qed
  have "ip_output_if ops q src (Some dst) ttl tos proto n S = etharp_output n q dst T"
    using mt hd20 by (auto simp: ip_output_if_def pbuf_header_st_def IP_HLEN_def Let_def T_def [symmetric])
  moreover have "touches ({pay S q - 34 ..< pay S q} \<union> {b ..< b + (34 + int t)}) (upd_pbuf q (shifted 34) (netw S)) (netw S')"
  proof -
    have "touches {?h ..< ?h + 20} (upd_pbuf q (shifted 14) ?N) (upd_pbuf q (shifted 14) (netw T))"
      using touches_shift [OF B(2)] by simp
    moreover have "upd_pbuf q (shifted 14) ?N = upd_pbuf q (shifted 34) (netw S)" by (simp add: upd_pbuf_def)
    ultimately have "touches {?h ..< ?h + 20} (upd_pbuf q (shifted 34) (netw S)) (upd_pbuf q (shifted 14) (netw T))" by metis
    from touches_trans [OF this S'(5)] show ?thesis
      by (rule touches_mono) (auto simp: \<open>pay T q = ?h\<close> tT simp del: tlen_simps)
  qed
  moreover have "DMATxDescToSet T = DMATxDescToSet S" "descs T = descs S" by (simp_all add: B(4,5))
  moreover have "upper S' = (upper S)\<lparr>above := (inet S)\<lparr>ip_id := ip_id (inet S) + 1\<rparr>, etharp_cached_entry := d\<rparr>"
    by (simp add: S'(2) B(3))
  ultimately show ?thesis
    using S'(1,3,4) unfolding c frame_sent_def by (intro exI [of _ S'] exI [of _ d]) simp
qed

end
