(* ===== verification/Echo.thy ===== *)
theory Echo
  imports Frames
begin

text \<open>
  Datagrams that come in, from the frame to the transport protocol, and the answer to an echo
  request (ping). The lemmas follow a frame in one pbuf of the pool through \<open>ethernet_input\<close> and
  \<open>ip_receive\<close>; the property puts the pieces together: the frame of the request gives, octet for
  octet, the frame of the reply.
\<close>

unbundle bit_operations_syntax

subsection \<open>An IP datagram as it is received\<close>

definition ip_packet :: "u8 \<Rightarrow> u16 \<Rightarrow> bool \<Rightarrow> u8 \<Rightarrow> u8 \<Rightarrow> u16 \<Rightarrow> u32 \<Rightarrow> u32 \<Rightarrow> u8 list \<Rightarrow> u8 list" where
  "ip_packet tos ident df ttl proto ck src dst data =
     [0x45, tos] @ octets16 (lwip_htons (of_nat (20 + length data))) @ octets16 ident @ [if df then 0x40 else 0, 0]
     @ [ttl, proto] @ octets16 ck @ octets32 src @ octets32 dst @ data"

lemma length_ip_packet: "length (ip_packet tos ident df ttl proto ck src dst data) = 20 + length data"
  by (simp add: ip_packet_def octets16_def)

lemma load16_octets16: "load16 (ucast w) (ucast (drop_bit 8 w)) = w"
proof -
  have "unat w div 256 < 256" using unat_u16_less [of w] by (simp add: div_less_iff_less_mult)
  then show ?thesis by (simp add: word_unat_eq_iff unat_load16 unat_ucast_u16_u8 unat_drop_bit)
qed

lemma ip_packet_fields:
  assumes f: "mem_range (mbytes (netw S)) h n = ip_packet tos ident df ttl proto ck src dst data @ pad"
  shows "IPH_V h S = 4" "IPH_HL h S = 5" "ld16 S (h + ip_len) = lwip_htons (of_nat (20 + length data))" "IPH_PROTO h S = proto"
    "ld16 S (h + ip_offset) AND lwip_htons (IP_OFFMASK OR IP_MF) = 0" "ld32 S (h + ip_src) = src" "ld32 S (h + ip_dest) = dst"
proof -
  have "length (mem_range (mbytes (netw S)) h n) = 20 + length data + length pad" unfolding f by (simp add: length_ip_packet)
  then have n: "20 \<le> n" by simp
  let ?l = "lwip_htons (of_nat (20 + length data)) :: u16"
  have "mbytes (netw S) (h + int 0) = 0x45" by (rule ld8_part [of 0 S h n]) (use n in \<open>simp_all add: f ip_packet_def octets16_def\<close>)
  then show "IPH_V h S = 4" "IPH_HL h S = 5" by (simp_all add: IPH_V_def IPH_HL_def ld8_def ip_fields)
  have "ld16 S (h + int 2) = load16 (ucast ?l) (ucast (drop_bit 8 ?l))"
    by (rule ld16_part [of 2 S h n]) (use n in \<open>simp_all add: f ip_packet_def octets16_def\<close>)
  then show "ld16 S (h + ip_len) = ?l" unfolding load16_octets16 by (simp add: ip_fields)
  have "mbytes (netw S) (h + int 9) = proto" by (rule ld8_part [of 9 S h n]) (use n in \<open>simp_all add: f ip_packet_def octets16_def\<close>)
  then show "IPH_PROTO h S = proto" by (simp add: IPH_PROTO_def ld8_def ip_fields)
  have "ld16 S (h + int 6) = load16 (if df then 0x40 else 0) 0"
    by (rule ld16_part [of 6 S h n]) (use n in \<open>simp_all add: f ip_packet_def octets16_def\<close>)
  then have "ld16 S (h + ip_offset) = (if df then 0x40 else 0)" by (simp add: load16_def ip_fields)
  then show "ld16 S (h + ip_offset) AND lwip_htons (IP_OFFMASK OR IP_MF) = 0" by (simp add: ip_consts lwip_htons_def)
  have "ld32 S (h + int 12) = src" by (rule ld32_part(1) [of 12 S h n]) (use n in \<open>simp_all add: f ip_packet_def octets16_def\<close>)
  then show "ld32 S (h + ip_src) = src" by (simp add: ip_fields)
  have "ld32 S (h + int 16) = dst" by (rule ld32_part(1) [of 16 S h n]) (use n in \<open>simp_all add: f ip_packet_def octets16_def\<close>)
  then show "ld32 S (h + ip_dest) = dst" by (simp add: ip_fields)
qed

subsection \<open>From the frame to the protocol\<close>

text \<open>The one pbuf of the packet after the padding of the frame is cut off.\<close>

definition trimmed :: "nat \<Rightarrow> pbuf \<Rightarrow> pbuf" where
  "trimmed l b = b\<lparr>p_len := of_nat l, p_tot_len := of_nat l\<rparr>"

lemma trimmed_sel [simp]:
  "p_next (trimmed l b) = p_next b" "p_payload (trimmed l b) = p_payload b" "p_type (trimmed l b) = p_type b"
  "p_flags (trimmed l b) = p_flags b" "p_ref (trimmed l b) = p_ref b" "p_len (trimmed l b) = of_nat l" "p_tot_len (trimmed l b) = of_nat l"
  by (simp_all add: trimmed_def)

lemma unat_of_nat16: "n < 65536 \<Longrightarrow> unat (of_nat n :: u16) = n"
  by (simp add: unat_of_nat)

lemma last_pbuf: "p_next b = 0 \<Longrightarrow> b\<lparr>p_len := x, p_tot_len := y, p_next := 0\<rparr> = b\<lparr>p_len := x, p_tot_len := y\<rparr>"
  by (cases b) simp

lemma pbuf_realloc_one:
  assumes pk: "packet (pbufs N) p [p]" and t: "p_type (pbufs N p) = PBUF_POOL" and l: "0 < l" "l \<le> unat (plen N p)"
  shows "pbuf_realloc p (of_nat l) N = Some (upd_pbuf p (trimmed l) N)"
proof -
  have u: "unat (of_nat l :: u16) = l"
    using l(2) unat_u16_less [of "plen N p"] by (intro unat_of_nat16) linarith
  have p: "p \<noteq> NULL" "pnx N p = NULL" "unat (ptot N p) = unat (plen N p)" using pk by (auto simp: packet_def)
  then have eq: "ptot N p = plen N p" by (simp add: word_unat_eq_iff)
  show ?thesis
  proof (cases "l = unat (plen N p)")
    case True
    then have "plen N p = of_nat l" by simp
    then have "upd_pbuf p (trimmed l) N = N" using eq by (cases "pbufs N p") (simp add: upd_pbuf_def trimmed_def fun_upd_idem)
    then show ?thesis using p True eq by (simp add: pbuf_realloc_def)
  next
    case False
    then have "\<not> ptot N p \<le> of_nat l" "\<not> plen N p < of_nat l" using l u by (simp_all add: eq word_le_nat_alt word_less_nat_alt)
    then show ?thesis
      using p t by (simp add: pbuf_realloc_def realloc_walk.simps [of _ p] Let_def) (simp add: upd_pbuf_def trimmed_def last_pbuf)
  qed
qed

text \<open>A datagram for the address of the interface is trimmed and delivered.\<close>

lemma match_self:
  "netif_is_up n S \<Longrightarrow> n_ip_addr (nif S n) \<noteq> IPADDR_ANY \<Longrightarrow> current_iphdr_dest (inet S) = n_ip_addr (nif S n) \<Longrightarrow>
   match_netif inp n first S = Some n"
  by (subst match_netif.simps) (simp add: Let_def)

lemma trimmed_packet:
  assumes pk: "packet (pbufs N) p [p]" and c: "content N [p] = data @ pad" and l: "length data < 65536"
  shows "packet (pbufs (upd_pbuf p (trimmed (length data)) N)) p [p]" "content (upd_pbuf p (trimmed (length data)) N) [p] = data"
proof -
  have u: "unat (of_nat (length data) :: u16) = length data" by (rule unat_of_nat16 [OF l])
  then show "packet (pbufs (upd_pbuf p (trimmed (length data)) N)) p [p]" using pk by (simp add: packet_def)
  have "length data \<le> unat (plen N p)" using arg_cong [OF c, of length] by simp
  then have "mem_range (mbytes N) (ppay N p) (length data) = take (length data) (content N [p])" by (simp add: take_mem_range min_def)
  then show "content (upd_pbuf p (trimmed (length data)) N) [p] = data" using u c by simp
qed

lemma ip_receive_run:
  fixes S :: "'w ist" and n p :: ptr and src :: u32 and data :: "u8 list"
  assumes pk: "packet (pbufs (netw S)) p [p]" and ty: "p_type (pbufs (netw S) p) = PBUF_POOL"
    and c: "content (netw S) [p] = ip_packet tos ident df ttl proto ck src (n_ip_addr (nif S n)) data @ pad"
    and n: "n \<noteq> NULL" "netif_is_up n S" "n_ip_addr (nif S n) \<noteq> IPADDR_ANY"
    and s: "unicast src (nif S n)" and l: "20 + length data < 65536"
  defines "T \<equiv> upd_inet (\<lambda>i. i\<lparr>current_iphdr_dest := n_ip_addr (nif S n), current_iphdr_src := src\<rparr>)
      (S\<lparr>netw := upd_pbuf p (trimmed (20 + length data)) (netw S)\<rparr>)"
  shows "ip_receive ops p n S = ip_deliver ops p n (pay S p) T"
    and "packet (pbufs (netw T)) p [p]" "content (netw T) [p] = ip_packet tos ident df ttl proto ck src (n_ip_addr (nif S n)) data"
proof -
  let ?L = "20 + length data" and ?h = "pay S p" and ?V = "S\<lparr>netw := upd_pbuf p (trimmed (20 + length data)) (netw S)\<rparr>"
  have lp: "length (ip_packet tos ident df ttl proto ck src (n_ip_addr (nif S n)) data) = ?L" by (rule length_ip_packet)
  have f: "mem_range (mbytes (netw S)) ?h (unat (plen (netw S) p)) = ip_packet tos ident df ttl proto ck src (n_ip_addr (nif S n)) data @ pad"
    using c by simp
  note F = ip_packet_fields [OF f]
  have fV: "mem_range (mbytes (netw ?V)) ?h (unat (plen (netw S) p)) = ip_packet tos ident df ttl proto ck src (n_ip_addr (nif S n)) data @ pad"
    using f by simp
  note G = ip_packet_fields [OF fV]
  have len: "?L \<le> unat (plen (netw S) p)" using arg_cong [OF c, of length] lp by simp
  have tot: "unat (ptot (netw S) p) = unat (plen (netw S) p)" using pk by (simp add: packet_def)
  have ul: "unat (of_nat ?L :: u16) = ?L" by (rule unat_of_nat16 [OF l])
  have nt: "lwip_ntohs (lwip_htons (of_nat ?L)) = (of_nat ?L :: u16)" by (simp only: lwip_ntohs_def htons_htons)
  have re: "pbuf_realloc p (of_nat ?L) (netw S) = Some (upd_pbuf p (trimmed ?L) (netw S))"
    by (rule pbuf_realloc_one [OF pk ty _ len]) simp
  have "\<not> 20 > uint (plen (netw S) p)" unfolding uint_unat using len by linarith
  moreover have "\<not> of_nat ?L > ptot (netw S) p" unfolding word_less_nat_alt ul tot using len by linarith
  moreover have "T = upd_inet (\<lambda>i. i\<lparr>current_iphdr_dest := ld32 ?V (?h + ip_dest), current_iphdr_src := ld32 ?V (?h + ip_src)\<rparr>) ?V"
    by (simp only: G T_def)
  moreover have "match_netif n n True T = Some n"
    by (rule match_self) (use n in \<open>simp_all add: T_def upd_inet_def netif_is_up_def\<close>)
  moreover have "current_iphdr_src (inet T) = src" "nif T = nif S" by (simp_all add: T_def upd_inet_def)
  moreover have "ld16 T (?h + ip_offset) = ld16 ?V (?h + ip_offset)" by (simp add: T_def upd_inet_def ld16_def)
  ultimately show "ip_receive ops p n S = ip_deliver ops p n (pay S p) T"
    using F G(5) n(1) s re nt by (simp add: ip_receive_def Let_def unicast_def)
  show "packet (pbufs (netw T)) p [p]" "content (netw T) [p] = ip_packet tos ident df ttl proto ck src (n_ip_addr (nif S n)) data"
    using trimmed_packet [OF pk c, unfolded lp, OF l] by (simp_all add: T_def upd_inet_def)
qed

subsection \<open>The echo\<close>

text \<open>The request in memory is turned into the reply.\<close>

lemma icmp_echo_octets_run:
  fixes S :: "'w ist" and h :: ptr
  assumes f: "mem_range (mbytes (netw S)) h n = ip_packet tos ident df ttl proto ck src own ([t, code, c1, c2] @ rest)"
    and d: "current_iphdr_dest (inet S) = own" "current_iphdr_src (inet S) = src"
  defines "T \<equiv> icmp_echo_octets h (h + 20) S"
  shows "mem_range (mbytes (netw T)) h n = ip_packet tos ident df 255 proto 0 own src ([0, code, 0, 0] @ rest)"
    and "touches {h ..< h + 24} (netw S) (netw T)" "upper T = upper S" "descs T = descs S" "DMATxDescToSet T = DMATxDescToSet S"
proof -
  have n: "n = 24 + length rest" using arg_cong [OF f, of length] by (simp add: length_ip_packet)
  let ?B = "\<lambda>S :: 'w ist. mem_range (mbytes (netw S)) h n"
  have put: "?B (st_octets (h + int k) vs U) = splice k vs (?B U)" if "k + length vs \<le> 24" for k vs and U :: "'w ist"
    using mem_range_splice [of k vs n h "mbytes (netw U)"] that n by simp
  let ?S1 = "st_octets (h + int 12) (octets32 own) S"
  let ?S2 = "st_octets (h + int 16) (octets32 src) ?S1"
  let ?S3 = "st_octets (h + int 20) [0] ?S2"
  let ?S4 = "st_octets (h + int 22) [0, 0] ?S3"
  let ?S5 = "st_octets (h + int 8) [255] ?S4"
  let ?S6 = "st_octets (h + int 10) [0, 0] ?S5"
  have T: "T = ?S6" using d by (simp add: T_def icmp_echo_octets_def ip_fields ICMP_ER_def ICMP_TTL_def octets16_def Let_def add.commute [of 22 h])
  have "?B ?S1 = ip_packet tos ident df ttl proto ck own own ([t, code, c1, c2] @ rest)"
    by (subst put, simp) (simp add: f ip_packet_def splice_def octets16_def octets32_def)
  then have "?B ?S2 = ip_packet tos ident df ttl proto ck own src ([t, code, c1, c2] @ rest)"
    by (subst put, simp) (simp add: ip_packet_def splice_def octets16_def octets32_def)
  then have "?B ?S3 = ip_packet tos ident df ttl proto ck own src ([0, code, c1, c2] @ rest)"
    by (subst put, simp) (simp add: ip_packet_def splice_def octets16_def octets32_def)
  then have "?B ?S4 = ip_packet tos ident df ttl proto ck own src ([0, code, 0, 0] @ rest)"
    by (subst put, simp) (simp add: ip_packet_def splice_def octets16_def octets32_def)
  then have "?B ?S5 = ip_packet tos ident df 255 proto ck own src ([0, code, 0, 0] @ rest)"
    by (subst put, simp) (simp add: ip_packet_def splice_def octets16_def octets32_def)
  then have "?B ?S6 = ip_packet tos ident df 255 proto 0 own src ([0, code, 0, 0] @ rest)"
    by (subst put, simp) (simp add: ip_packet_def splice_def octets16_def octets32_def)
  then show "?B T = ip_packet tos ident df 255 proto 0 own src ([0, code, 0, 0] @ rest)" unfolding T .
  have "touches ((((({h + int 12 ..< h + int 12 + int (length (octets32 own))} \<union> {h + int 16 ..< h + int 16 + int (length (octets32 src))})
      \<union> {h + int 20 ..< h + int 20 + int (length [0 :: u8])}) \<union> {h + int 22 ..< h + int 22 + int (length [0, 0 :: u8])})
      \<union> {h + int 8 ..< h + int 8 + int (length [255 :: u8])}) \<union> {h + int 10 ..< h + int 10 + int (length [0, 0 :: u8])}) (netw S) (netw T)"
    unfolding T st_octets_sel by (intro touches_step touches_put)
  then show "touches {h ..< h + 24} (netw S) (netw T)" by (rule touches_mono) auto
  show "upper T = upper S" "descs T = descs S" "DMATxDescToSet T = DMATxDescToSet S" unfolding T by (simp_all add: st_octets_def)
qed

text \<open>Moving the payload of the one pbuf of a packet back and forth.\<close>

lemma down_packet:
  assumes pk: "packet (pbufs N) p [p]" and k: "k \<le> unat (plen N p)"
  defines "N' \<equiv> upd_pbuf p (shifted (- int k)) N"
  shows "packet (pbufs N') p [p]" "content N' [p] = drop k (content N [p])" "unat (plen N' p) = unat (plen N p) - k"
proof -
  have m: "of_nat k \<le> plen N p" using k unat_u16_less [of "plen N p"] by (simp add: word_le_nat_alt unat_of_nat16 le_less_trans)
  have uk: "unat (of_nat k :: u16) = k" using k unat_u16_less [of "plen N p"] by (intro unat_of_nat16) linarith
  have l: "plen N' p = plen N p - of_nat k" "ptot N' p = ptot N p - of_nat k" "ppay N' p = ppay N p + int k" "pnx N' p = pnx N p"
    by (simp_all add: N'_def)
  show u: "unat (plen N' p) = unat (plen N p) - k" unfolding l(1) using unat_sub [OF m] uk by simp
  have "ptot N p = plen N p" using pk by (simp add: packet_def word_unat_eq_iff)
  then show "packet (pbufs N') p [p]" using pk l by (simp add: packet_def)
  show "content N' [p] = drop k (content N [p])" using u l(3) by (simp add: drop_mem_range N'_def)
qed

lemma pbuf_header_down_st:
  assumes "packet (pbufs (netw S)) p [p]" and "k \<le> unat (plen (netw S) p)" and "p + 16 \<le> pay S p"
  shows "pbuf_header_st p (- int k) S = (S\<lparr>netw := upd_pbuf p (shifted (- int k)) (netw S)\<rparr>, 0)"
proof -
  have "p \<noteq> NULL" using assms(1) by (simp add: packet_def)
  moreover have "int k \<le> uint (plen (netw S) p)" using assms(2) by (simp only: uint_unat)
  ultimately show ?thesis using assms(3) by (simp add: pbuf_header_st_def pbuf_header_down SIZEOF_STRUCT_PBUF_def)
qed

lemma pbuf_header_up_st:
  "headroom (netw S) p k \<Longrightarrow> 0 < k \<Longrightarrow> pbuf_header_st p k S = (S\<lparr>netw := upd_pbuf p (shifted k) (netw S)\<rparr>, 0)"
  by (simp add: pbuf_header_st_def pbuf_header_up)

lemma upd_shifted [simp]:
  "upd_pbuf p (shifted j) (upd_pbuf p (shifted k) N) = upd_pbuf p (shifted (k + j)) N" "upd_pbuf p (shifted 0) N = N"
  by (simp_all add: upd_pbuf_def)

text \<open>Giving back the packet.\<close>

lemma free_pool_packet:
  fixes S :: "'v st"
  assumes pk: "packet (pbufs (netw S)) p [p]" and pp: "pool_pbuf (netw S) p"
    and rep: "Pbuf.pool_rep E (netw S) (hand M [p])" and fresh: "p \<notin> dom M"
  shows "\<exists>N. free_packet p S = Some (S\<lparr>netw := N\<rparr>) \<and> mheap N = mheap (netw S) \<and> Pbuf.pool_rep E N M"
proof -
  have "pbuf_free p (netw S) = Some (release [p] (netw S), 1)"
    using pbuf_free_chain [of "netw S" p "[p]" "[]"] pk pp by (simp add: packet_def pool_pbuf_def)
  moreover have "Pbuf.pool_rep E (release [p] (netw S)) M" "mheap (release [p] (netw S)) = mheap (netw S)"
    using release_pool [of "[p]" E "netw S" "hand M [p]"] hand_restrict [of "[p]" M] rep fresh pp by (auto simp: pool_pbuf_def)
  ultimately show ?thesis by (intro exI [of _ "release [p] (netw S)"]) (simp add: free_packet_def)
qed

text \<open>A packet whose header is already there is sent as it is.\<close>

lemma ip_output_hdrincl_run:
  fixes S :: "'w ist"
  assumes arp: "arp_ok S" "routed n dst mac S" "length mac = 6" "length (n_hwaddr (nif S n)) = 6"
    and pk: "packet (pbufs (netw S)) q [q]" and hd: "headroom (netw S) q 14"
    and c: "content (netw S) [q] = ip_packet tos' ident df ttl' proto' ck src' dst data" and l: "20 + length data \<le> 1500"
    and mtu: "n_mtu (nif S n) = 0 \<or> 1500 \<le> n_mtu (nif S n)" and tx: "tx_ready td b S" and ap: "clear_of (netw S) q [] 14 b"
  shows "\<exists>S' d. ip_output_if ops q src None ttl tos proto n S = Some (S', ERR_OK) \<and> upper S' = (upper S)\<lparr>etharp_cached_entry := d\<rparr>
    \<and> d < ARP_TABLE_SIZE \<and> frame_sent td b (eth_frame mac (n_hwaddr (nif S n)) (content (netw S) [q])) S S'
    \<and> touches ({pay S q - 14 ..< pay S q} \<union> {b ..< b + (14 + int (20 + length data))}) (upd_pbuf q (shifted 14) (netw S)) (netw S')"
proof -
  have len: "unat (plen (netw S) q) = 20 + length data" using arg_cong [OF c, of length] by (simp add: length_ip_packet)
  have t: "tlen (pbufs (netw S)) [q] = 20 + length data" by (simp add: len)
  have "mem_range (mbytes (netw S)) (pay S q) (unat (plen (netw S) q)) = ip_packet tos' ident df ttl' proto' ck src' dst data @ []"
    using c by simp
  note F = ip_packet_fields(7) [OF this]
  have "unat (ptot (netw S) q) = 20 + length data" using pk len by (simp add: packet_def)
  then have "unat (ptot (netw S) q) \<le> 1500" using l by simp
  moreover have "n_mtu (nif S n) = 0 \<or> 1500 \<le> unat (n_mtu (nif S n))" using mtu by (auto simp: word_le_nat_alt)
  ultimately have "\<not> (n_mtu (nif S n) \<noteq> 0 \<and> ptot (netw S) q > n_mtu (nif S n))" by (auto simp: word_less_nat_alt)
  then have "ip_output_if ops q src None ttl tos proto n S = etharp_output n q dst S" using F by (auto simp: ip_output_if_def Let_def)
  moreover have "tlen (pbufs (netw S)) [q] \<le> 1510" using t l by simp
  ultimately show ?thesis using etharp_output_run [OF arp pk hd _ tx ap] unfolding t by simp
qed

lemma icmp_echo_run:
  fixes S :: "'w ist"
  assumes pk: "packet (pbufs (netw S)) p [p]" and pp: "pool_pbuf (netw S) p" and hd: "p + 30 \<le> pay S p"
    and c: "content (netw S) [p] = ip_packet tos ident df ttl IP_PROTO_ICMP ck src own ([8, code, c1, c2] @ rest)"
    and k: "rfc_sum ([8, code, c1, c2] @ rest) = 65535" and l: "4 \<le> length rest" "24 + length rest \<le> 1500"
    and cur: "current_iphdr_dest (inet S) = own" "current_iphdr_src (inet S) = src"
    and own: "\<not> ip4_addr_isbroadcast own (nif S n)" "\<not> ip_addr_ismulticast own"
    and arp: "arp_ok S" "routed n src mac S" "length mac = 6" "length (n_hwaddr (nif S n)) = 6"
    and mtu: "n_mtu (nif S n) = 0 \<or> 1500 \<le> n_mtu (nif S n)" and tx: "tx_ready td b S" and ap: "clear_of (netw S) p [] 14 b"
    and rep: "Pbuf.pool_rep E (netw S) (hand M [p])" and fresh: "p \<notin> dom M"
  shows "\<exists>S' d. icmp_input ops p n S = Some S' \<and> upper S' = (upper S)\<lparr>etharp_cached_entry := d\<rparr>
    \<and> frame_sent td b (eth_frame mac (n_hwaddr (nif S n)) (ip_packet tos ident df 255 IP_PROTO_ICMP 0 own src ([0, code, 0, 0] @ rest))) S S'
    \<and> Pbuf.pool_rep E (netw S') M"
proof -
  let ?h = "pay S p" and ?n = "24 + length rest" and ?req = "[8, code, c1, c2] @ rest" and ?rsp = "[0, code, 0, 0] @ rest"
  have len: "unat (plen (netw S) p) = ?n" using arg_cong [OF c, of length] by (simp add: length_ip_packet)
  have f: "mem_range (mbytes (netw S)) ?h ?n = ip_packet tos ident df ttl IP_PROTO_ICMP ck src own ?req" using c len by simp
  have f': "mem_range (mbytes (netw S)) ?h ?n = ip_packet tos ident df ttl IP_PROTO_ICMP ck src own ?req @ []" using f by simp
  note F = ip_packet_fields [OF f']
  have p0: "p \<noteq> NULL" "p_type (pbufs (netw S) p) = PBUF_POOL" using pk pp by (simp_all add: packet_def pool_pbuf_def)
  define V where "V = S\<lparr>netw := upd_pbuf p (shifted (- int 20)) (netw S)\<rparr>"
  have down: "pbuf_header_st p (- 20) S = (V, 0)"
    using pbuf_header_down_st [OF pk, of 20] len hd by (simp add: V_def)
  have k20: "20 \<le> unat (plen (netw S) p)" using len by simp
  note D = down_packet [OF pk k20]
  have V: "mbytes (netw V) = mbytes (netw S)" "pay V p = ?h + 20" "upper V = upper S" "p_type (pbufs (netw V) p) = PBUF_POOL"
    using p0 by (simp_all add: V_def)
  have cV: "content (netw V) [p] = ?req" and pkV: "packet (pbufs (netw V)) p [p]" and lV: "unat (plen (netw V) p) = 4 + length rest"
    using D c len by (simp_all add: V_def ip_packet_def octets16_def octets32_def)
  have tV: "unat (ptot (netw V) p) = 4 + length rest" using pkV lV by (simp add: packet_def)
  have type: "ld8 V (?h + 20) = ICMP_ECHO"
    using ld8_part [of 20 S ?h ?n 8] by (simp add: f ip_packet_def octets16_def octets32_def ld8_def V(1) ICMP_ECHO_def)
  have "chain (pbufs (netw V)) p [p]" using pkV by (simp add: packet_def)
  from inet_chksum_pbuf_run [OF this] have ckV: "inet_chksum_pbuf p (netw V) = Some 0"
    unfolding cV k by (auto simp: unat_eq_zero)
  have room: "headroom (netw V) p 34" using V hd p0 by (simp add: headroom_def SIZEOF_STRUCT_PBUF_def)
  have echo: "icmp_echo_packet p 20 ?h V = Some (V, Some (p, ?h))"
  proof -
    let ?W = "V\<lparr>netw := upd_pbuf p (shifted 34) (netw V)\<rparr>"
    have "packet (pbufs (netw ?W)) p [p]" "34 \<le> unat (plen (netw ?W) p)"
      using header_packet [OF pkV, of 34] lV l unat_add_int [of 34 "plen (netw V) p"] by simp_all
    then have "pbuf_header_st p (- int 34) ?W = (V, 0)"
      using pbuf_header_down_st [of ?W p 34] V(2) hd by simp
    then show ?thesis using pbuf_header_up_st [OF room] by (simp add: icmp_echo_packet_def)
  qed
  define T where "T = icmp_echo_octets ?h (?h + 20) V"
  have fV: "mem_range (mbytes (netw V)) ?h ?n = ip_packet tos ident df ttl IP_PROTO_ICMP ck src own ?req" using f V(1) by simp
  note O = icmp_echo_octets_run [OF fV, unfolded V(3), OF cur, folded T_def]
  define U where "U = T\<lparr>netw := upd_pbuf p (shifted 20) (netw T)\<rparr>"
  have pT: "pbufs (netw T) = pbufs (netw V)" "pools (netw T) = pools (netw S)" using touches_sel(1,2) [OF O(2)] by (simp_all add: V_def)
  have up: "pbuf_header_st p 20 T = (U, 0)"
    unfolding U_def using room by (intro pbuf_header_up_st) (simp_all add: headroom_def pT)
  have pU: "pbufs (netw U) = pbufs (netw S)" by (simp add: U_def pT V_def)
  have U: "upper U = upper S" "descs U = descs S" "DMATxDescToSet U = DMATxDescToSet S" "pools (netw U) = pools (netw S)"
    using O(3-5) pT(2) by (simp_all add: U_def V_def)
  have cU: "content (netw U) [p] = ip_packet tos ident df 255 IP_PROTO_ICMP 0 own src ?rsp"
  proof -
    have "mbytes (netw U) = mbytes (netw T)" by (simp add: U_def)
    then show ?thesis using O(1) len by (simp add: pU)
  qed
  have regU: "clear_of (netw U) p [] 14 b" using ap by (simp add: clear_of_def region_def pU)
  have arpU: "arp_ok U" "routed n src mac U" using arp(1,2) arp_ok_upper [OF U(1)] by (simp_all add: routed_def U(1))
  have hdU: "headroom (netw U) p 14" using hd p0 by (simp add: headroom_def pU SIZEOF_STRUCT_PBUF_def)
  have txU: "tx_ready td b U" using tx by (simp add: tx_ready_def U)
  have nU: "nif U = nif S" by (simp add: U(1))
  obtain W d where W: "ip_output_if ops p (Some own) None ICMP_TTL 0 IP_PROTO_ICMP n U = Some (W, ERR_OK)"
      "upper W = (upper U)\<lparr>etharp_cached_entry := d\<rparr>"
      "frame_sent td b (eth_frame mac (n_hwaddr (nif S n)) (content (netw U) [p])) U W"
      "touches ({pay U p - 14 ..< pay U p} \<union> {b ..< b + (14 + int (20 + length ?rsp))}) (upd_pbuf p (shifted 14) (netw U)) (netw W)"
    using ip_output_hdrincl_run [OF arpU arp(3) _ _ hdU cU _ _ txU regU, of ops "Some own" ICMP_TTL 0 IP_PROTO_ICMP] arp(4) pk l mtu
    unfolding nU pU by auto
  have pkW: "packet (pbufs (netw W)) p [p]" and ppW: "pool_pbuf (netw W) p" and repW: "Pbuf.pool_rep E (netw W) (hand M [p])"
  proof -
    have b14: "0 \<le> (14 :: int)" "tlen (pbufs (netw U)) [p] + nat 14 < 65536" using len l by (simp_all add: pU)
    show "packet (pbufs (netw W)) p [p]"
      using header_packet(1) [OF _ b14] pk unfolding touches_sel(1) [OF W(4)] pU by simp
    have "unat (plen (netw S) p + 14) = unat (plen (netw S) p) + 14" using unat_add_int [of 14 "plen (netw S) p"] len l by simp
    then have "uint (plen (netw S) p + 14) = uint (plen (netw S) p) + 14" by (simp only: uint_unat)
    then show "pool_pbuf (netw W) p" using pp hd by (simp add: pool_pbuf_def touches_sel(1) [OF W(4)] pU)
    show "Pbuf.pool_rep E (netw W) (hand M [p])" using rep by (simp add: touches_sel(2) [OF W(4)] U(4))
  qed
  obtain N where N: "free_packet p W = Some (W\<lparr>netw := N\<rparr>)" "mheap N = mheap (netw W)" "Pbuf.pool_rep E N M"
    using free_pool_packet [OF pkW ppW repW fresh] by blast
  have "icmp_input ops p n S = Some (W\<lparr>netw := N\<rparr>)"
  proof -
    have "\<not> ptot (netw V) p < 4" "\<not> uint (ptot (netw V) p) < 8" using tV l by (simp_all add: word_less_nat_alt uint_unat)
    moreover have "ICMP_ECHO \<noteq> ICMP_ER" by (simp add: ICMP_ECHO_def ICMP_ER_def)
    ultimately show ?thesis
      using F(2) down type cur own ckV echo up W(1) N(1)
      by (simp add: icmp_input_def Let_def V(2,3) T_def [symmetric] SIZEOF_ICMP_ECHO_HDR_def U(1) O(3))
  qed
  moreover have "frame_sent td b (eth_frame mac (n_hwaddr (nif S n)) (content (netw U) [p])) S (W\<lparr>netw := N\<rparr>)"
    using W(3) by (simp add: frame_sent_def N(2) U(2))
  ultimately show ?thesis using W(2) N(3) U(1) cU by (intro exI [of _ "W\<lparr>netw := N\<rparr>"] exI [of _ d]) simp
qed

subsection \<open>From frame to frame\<close>

text \<open>
  What \<open>ethernet_input\<close> hands to IP when the frame in the pool pbuf \<open>p\<close> holds the IP
  packet \<open>ip\<close>, and the delivery of a datagram for the address of the interface.
\<close>

lemma ethernet_input_ip:
  fixes S :: "'v st"
  assumes pk: "packet (pbufs (netw S)) p [p]" and pp: "pool_pbuf (netw S) p" and fl: "n_flags (nif S n) AND NETIF_FLAG_ETHARP \<noteq> 0"
    and c: "content (netw S) [p] = dmac @ smac @ [0x08, 0x00] @ ip" and m: "length dmac = 6" "length smac = 6" and l: "ip \<noteq> []"
  shows "\<exists>N fl. ethernet_input ops p n S = (ip_input ops p n (S\<lparr>netw := N\<rparr>) \<bind> (\<lambda>S. Some (S, ERR_OK)))
    \<and> N = upd_pbuf p (\<lambda>b. shifted (- int 14) (b\<lparr>p_flags := fl\<rparr>)) (netw S) \<and> fl AND PBUF_FLAG_IS_CUSTOM = p_flags (pbufs (netw S) p) AND PBUF_FLAG_IS_CUSTOM
    \<and> packet (pbufs N) p [p] \<and> pool_pbuf N p \<and> content N [p] = ip"
proof -
  let ?h = "pay S p" and ?n = "14 + length ip"
  have len: "unat (plen (netw S) p) = ?n" using arg_cong [OF c, of length] m by simp
  have f: "mem_range (mbytes (netw S)) ?h ?n = dmac @ smac @ [0x08, 0x00] @ ip" using c len by simp
  have ty: "ld16 S (?h + o_type) = lwip_htons ETHTYPE_IP"
    using ld16_part [of 12 S ?h ?n 8 0] m by (simp add: f offsets load16_def lwip_htons_def ETHTYPE_IP_def)
  define fl' where "fl' = link_flags (ldmac S (?h + o_dest)) (p_flags (pbufs (netw S) p))"
  define V where "V = S\<lparr>netw := upd_pbuf p (\<lambda>b. b\<lparr>p_flags := fl'\<rparr>) (netw S)\<rparr>"
  have V: "pool_pbuf (netw V) p" "packet (pbufs (netw V)) p [p]" "content (netw V) [p] = content (netw S) [p]" "nif V = nif S"
    "plen (netw V) p = plen (netw S) p" "pay V p = ?h"
    using pp pk link_flags_custom by (simp_all add: V_def pool_pbuf_def packet_def fl'_def)
  have k: "14 \<le> unat (plen (netw V) p)" using len V(5) by simp
  note D = down_packet [OF V(2) k]
  have "p + 16 \<le> pay V p" using V(1) by (simp add: pool_pbuf_def)
  moreover have "int 14 \<le> uint (plen (netw V) p)" using k by (simp only: uint_unat)
  moreover have "p \<noteq> NULL" using pk by (simp add: packet_def)
  ultimately have H: "pbuf_header p (- SIZEOF_ETH_HDR) (netw V) = (upd_pbuf p (shifted (- int 14)) (netw V), 0)"
    by (simp add: pbuf_header_down SIZEOF_ETH_HDR_def SIZEOF_STRUCT_PBUF_def)
  let ?N = "upd_pbuf p (\<lambda>b. shifted (- int 14) (b\<lparr>p_flags := fl'\<rparr>)) (netw S)"
  have N: "upd_pbuf p (shifted (- int 14)) (netw V) = ?N" by (simp add: V_def upd_pbuf_def)
  have "\<not> uint (plen (netw S) p) \<le> SIZEOF_ETH_HDR" using len l by (simp add: uint_unat SIZEOF_ETH_HDR_def)
  have "ethernet_input ops p n S = (ip_input ops p n (S\<lparr>netw := ?N\<rparr>) \<bind> (\<lambda>S. Some (S, ERR_OK)))"
  proof -
    have flu: "upd_pbuf p (\<lambda>b. b\<lparr>p_flags := link_flags (ldmac S (?h + o_dest)) (p_flags b)\<rparr>) (netw S) = netw V"
      by (simp add: V_def upd_pbuf_def fl'_def)
    have nv: "S\<lparr>netw := netw V\<rparr> = V" by (simp add: V_def)
    have ov: "V\<lparr>netw := x\<rparr> = S\<lparr>netw := x\<rparr>" for x by (simp add: V_def)
    show ?thesis
      using \<open>\<not> uint (plen (netw S) p) \<le> SIZEOF_ETH_HDR\<close> ty fl H N V(4) by (simp add: ethernet_input_def Let_def flu nv ov)
  qed
  moreover have "pool_pbuf ?N p"
  proof -
    have "unat (plen ?N p) = unat (plen (netw S) p) - 14" using D(3) unfolding N V(5) .
    then have "uint (plen ?N p) = uint (plen (netw S) p) - 14" using len by (simp add: uint_unat of_nat_diff)
    then show ?thesis using V(1) by (simp add: pool_pbuf_def V_def)
  qed
  moreover have "content ?N [p] = ip" using D(2) unfolding N V(3) c using m by simp
  moreover have "packet (pbufs ?N) p [p]" using D(1) unfolding N .
  ultimately show ?thesis
    by (intro exI [of _ ?N] exI [of _ fl']) (simp add: fl'_def link_flags_custom)
qed

text \<open>Delivery of a datagram of this interface: the addresses are noted for the time of the call.\<close>

lemma ip_deliver_run:
  fixes S :: "'w ist" and n h :: ptr
  assumes "raw_pcbs (inet S) = NULL"
  defines "T \<equiv> upd_inet (\<lambda>i. i\<lparr>current_netif := n, current_header := h\<rparr>) S"
  assumes "(if IPH_PROTO h T = IP_PROTO_UDP then udp_input ops p n T
            else if IPH_PROTO h T = IP_PROTO_TCP then tcp_input ops p n T
            else if IPH_PROTO h T = IP_PROTO_ICMP then icmp_input ops p n T else None) = Some V"
  shows "ip_deliver ops p n h S = Some (upd_inet (\<lambda>i. i\<lparr>current_netif := NULL, current_header := NULL,
      current_iphdr_src := IPADDR_ANY, current_iphdr_dest := IPADDR_ANY\<rparr>) V)"
proof -
  have "raw_pcbs (inet T) = NULL" using assms(1) by (simp add: T_def upd_inet_def)
  note r = raw_input_none [OF this, of ops p n]
  show ?thesis
    using r assms(3) by (auto simp: ip_deliver_def T_def [symmetric] Let_def split: if_splits)
qed

lemma upd_inet_sel [simp]:
  "netw (upd_inet f S) = netw S" "descs (upd_inet f S) = descs S" "DMATxDescToSet (upd_inet f S) = DMATxDescToSet S"
  "upper (upd_inet f S) = (upper S)\<lparr>above := f (inet S)\<rparr>"
  by (simp_all add: upd_inet_def)

text \<open>A packet of one pbuf that goes out with its link header in front, and the transmit buffer.\<close>

lemma clear_of_single:
  assumes "{ppay N p - k ..< ppay N p + int (unat (plen N p))} \<inter> {b ..< b + (k + int (unat (plen N p)))} = {}" "0 \<le> k"
  shows "clear_of N p [] k b"
proof -
  have sub: "X \<subseteq> {ppay N p - k ..< ppay N p + int (unat (plen N p))} \<Longrightarrow> X \<inter> {b ..< b + (k + int (unat (plen N p)))} = {}" for X
    using assms(1) by blast
  have "{ppay N p - k ..< ppay N p} \<inter> {b ..< b + (k + int (unat (plen N p)))} = {}" by (rule sub) auto
  moreover have "region N p \<inter> {b ..< b + (k + int (unat (plen N p)))} = {}" using assms(2) by (intro sub) (auto simp: region_def)
  ultimately show ?thesis by (simp only: clear_of_def list.set tlen_simps ball_simps add_0_right)
qed

definition quiet_inet :: "'w inet \<Rightarrow> 'w inet" where
  "quiet_inet i = i\<lparr>current_netif := NULL, current_header := NULL, current_iphdr_src := IPADDR_ANY, current_iphdr_dest := IPADDR_ANY\<rparr>"

text \<open>
  A frame with an IP packet for this interface: what the handler of the protocol is given, and that
  the frame is dealt with when the handler returns.
\<close>

lemma ip_frame_received:
  fixes S :: "'w ist" and n p :: ptr and own src :: u32
  assumes ip: "ip_input aops = ip_receive ops" and raw: "raw_pcbs (inet S) = NULL"
    and n: "n \<noteq> NULL" "n_flags (nif S n) AND NETIF_FLAG_ETHARP \<noteq> 0" "netif_is_up n S" "n_ip_addr (nif S n) = own" "own \<noteq> IPADDR_ANY"
    and src: "unicast src (nif S n)"
    and p: "packet (pbufs (netw S)) p [p]" "pool_pbuf (netw S) p"
    and f: "content (netw S) [p] = dmac @ smac @ [0x08, 0x00] @ ip_packet tos ident df ttl proto ck src own data @ pad"
    and l: "length dmac = 6" "length smac = 6" "20 + length data < 65536"
  shows "\<exists>U. packet (pbufs (netw U)) p [p] \<and> pool_pbuf (netw U) p \<and> pay U p = pay S p + 14
    \<and> content (netw U) [p] = ip_packet tos ident df ttl proto ck src own data
    \<and> mheap (netw U) = mheap (netw S) \<and> pools (netw U) = pools (netw S) \<and> nif U = nif S \<and> descs U = descs S \<and> DMATxDescToSet U = DMATxDescToSet S
    \<and> upper U = (upper S)\<lparr>above := (inet S)\<lparr>current_netif := n, current_header := pay S p + 14, current_iphdr_dest := own, current_iphdr_src := src\<rparr>\<rparr>
    \<and> (\<forall>W. (if proto = IP_PROTO_UDP then udp_input ops p n U else if proto = IP_PROTO_TCP then tcp_input ops p n U
              else if proto = IP_PROTO_ICMP then icmp_input ops p n U else None) = Some W
         \<longrightarrow> ethernet_input aops p n S = Some (upd_inet quiet_inet W, ERR_OK))"
proof -
  have f': "content (netw S) [p] = dmac @ smac @ [0x08, 0x00] @ (ip_packet tos ident df ttl proto ck src own data @ pad)" using f by simp
  have "ip_packet tos ident df ttl proto ck src own data @ pad \<noteq> []" by (simp add: ip_packet_def)
  from ethernet_input_ip [OF p(1,2) n(2) f' l(1,2) this, of aops] obtain N fl where
      eth: "ethernet_input aops p n S = (ip_receive ops p n (S\<lparr>netw := N\<rparr>) \<bind> (\<lambda>S. Some (S, ERR_OK)))"
      and N: "N = upd_pbuf p (\<lambda>b. shifted (- int 14) (b\<lparr>p_flags := fl\<rparr>)) (netw S)" "packet (pbufs N) p [p]" "pool_pbuf N p"
      and c: "content N [p] = ip_packet tos ident df ttl proto ck src own data @ pad"
    unfolding ip by blast
  define V where "V = S\<lparr>netw := N\<rparr>"
  have V: "nif V = nif S" "netw V = N" "upper V = upper S" "descs V = descs S" "DMATxDescToSet V = DMATxDescToSet S" by (simp_all add: V_def)
  define T where "T = upd_inet (\<lambda>i. i\<lparr>current_iphdr_dest := own, current_iphdr_src := src\<rparr>) (V\<lparr>netw := upd_pbuf p (trimmed (20 + length data)) N\<rparr>)"
  have R: "ip_receive ops p n V = ip_deliver ops p n (ppay N p) T" "packet (pbufs (netw T)) p [p]"
      "content (netw T) [p] = ip_packet tos ident df ttl proto ck src own data"
  proof -
    have a: "packet (pbufs (netw V)) p [p]" "p_type (pbufs (netw V) p) = PBUF_POOL" using N(2,3) by (simp_all add: V pool_pbuf_def)
    have b: "content (netw V) [p] = ip_packet tos ident df ttl proto ck src (n_ip_addr (nif V n)) data @ pad" using c by (simp only: V n(4))
    have d: "netif_is_up n V" "n_ip_addr (nif V n) \<noteq> IPADDR_ANY" "unicast src (nif V n)" using n(3-5) src by (simp_all add: V netif_is_up_def)
    note I = ip_receive_run [OF a b n(1) d l(3), unfolded V(1,2) n(4), folded T_def]
    show "ip_receive ops p n V = ip_deliver ops p n (ppay N p) T" "packet (pbufs (netw T)) p [p]"
      "content (netw T) [p] = ip_packet tos ident df ttl proto ck src own data" by (rule I)+
  qed
  have pN: "ppay N p = pay S p + 14" by (simp add: N(1))
  have pT: "pay T p = pay S p + 14" "plen (netw T) p = of_nat (20 + length data)" by (simp_all add: T_def V N(1))
  define U where "U = upd_inet (\<lambda>i. i\<lparr>current_netif := n, current_header := ppay N p\<rparr>) T"
  have U: "netw U = netw T" by (simp add: U_def)
  have "pool_pbuf (netw U) p"
  proof -
    have "20 + length data \<le> unat (plen N p)" using arg_cong [OF c, of length] by (simp add: length_ip_packet)
    moreover have "unat (of_nat (20 + length data) :: u16) = 20 + length data" by (rule unat_of_nat16 [OF l(3)])
    ultimately have "uint (plen (netw T) p) \<le> uint (plen N p)" unfolding pT(2) uint_unat by linarith
    moreover have "p_type (pbufs (netw T) p) = p_type (pbufs N p)" "pref (netw T) p = pref N p" "p_flags (pbufs (netw T) p) = p_flags (pbufs N p)"
        "pay T p = ppay N p" by (simp_all add: T_def)
    ultimately show ?thesis using N(3) by (simp add: pool_pbuf_def U)
  qed
  moreover have "IPH_PROTO (pay S p + 14) U = proto"
    using ip_packet_fields(4) [of U "pay S p + 14" "unat (plen (netw T) p)" tos ident df ttl proto ck src own data "[]"] R(3)
    by (simp add: U pT(1))
  then have "ethernet_input aops p n S = Some (upd_inet quiet_inet W, ERR_OK)"
    if h: "(if proto = IP_PROTO_UDP then udp_input ops p n U else if proto = IP_PROTO_TCP then tcp_input ops p n U
       else if proto = IP_PROTO_ICMP then icmp_input ops p n U else None) = Some W" for W
  proof -
    have "raw_pcbs (inet T) = NULL" using raw by (simp add: T_def V)
    then have "ip_deliver ops p n (ppay N p) T = Some (upd_inet (\<lambda>i. i\<lparr>current_netif := NULL, current_header := NULL,
        current_iphdr_src := IPADDR_ANY, current_iphdr_dest := IPADDR_ANY\<rparr>) W)"
      using h \<open>IPH_PROTO (pay S p + 14) U = proto\<close> by (intro ip_deliver_run) (assumption, simp only: U_def [symmetric] pN [symmetric])
    then show ?thesis using eth R(1) by (simp add: V_def [symmetric] quiet_inet_def [abs_def])
  qed
  ultimately show ?thesis
    using R(2,3) pT(1) by (intro exI [of _ U]) (simp add: U, simp add: U_def T_def V N(1))
qed

text \<open>
  C1: a ping is answered. A frame with an ICMP echo request for the address of the interface,
  whose checksum is right, gives exactly one frame for the host that sent it: the addresses are
  exchanged, the time to live is 255, the type is \<open>echo reply\<close>, the two checksums are 0 for the
  hardware to fill in, and everything else (identification, sequence number, data) is the octets of
  the request. The padding of the frame is not sent back, and the packet is returned to its pool.
\<close>

theorem ping_answered:
  fixes S :: "'w ist" and n p :: ptr and own src :: u32
  assumes ip: "ip_input aops = ip_receive ops" and raw: "raw_pcbs (inet S) = NULL"
    and n: "n \<noteq> NULL" "n_flags (nif S n) AND NETIF_FLAG_ETHARP \<noteq> 0" "netif_is_up n S" "n_ip_addr (nif S n) = own" "unicast own (nif S n)"
    and p: "packet (pbufs (netw S)) p [p]" "pool_pbuf (netw S) p" "Pbuf.pool_rep E (netw S) (hand M [p])" "p \<notin> dom M"
    and f: "content (netw S) [p] = dmac @ smac @ [0x08, 0x00]
        @ ip_packet tos ident df ttl IP_PROTO_ICMP ck src own ([8, code, c1, c2] @ rest) @ pad"
    and l: "length dmac = 6" "length smac = 6" "4 \<le> length rest" "24 + length rest \<le> 1500"
    and k: "rfc_sum ([8, code, c1, c2] @ rest) = 65535"
    and arp: "arp_ok S" "routed n src mac S" "length mac = 6" "length (n_hwaddr (nif S n)) = 6"
    and mtu: "n_mtu (nif S n) = 0 \<or> 1500 \<le> n_mtu (nif S n)"
    and tx: "tx_ready td b S" and ap: "region (netw S) p \<inter> {b ..< b + (38 + int (length rest))} = {}"
  shows "\<exists>S'. ethernet_input aops p n S = Some (S', ERR_OK)
    \<and> frame_sent td b (eth_frame mac (n_hwaddr (nif S n)) (ip_packet tos ident df 255 IP_PROTO_ICMP 0 own src ([0, code, 0, 0] @ rest))) S S'
    \<and> Pbuf.pool_rep E (netw S') M"
proof -
  let ?req = "[8, code, c1, c2] @ rest"
  have un: "own \<noteq> IPADDR_ANY" "\<not> ip4_addr_isbroadcast own (nif S n)" "\<not> ip_addr_ismulticast own" "unicast src (nif S n)"
    using n(5) arp(2) by (simp_all add: unicast_def routed_def)
  have len: "20 + length ?req < 65536" using l by simp
  from ip_frame_received [OF ip raw n(1-4) un(1,4) p(1,2) f l(1,2) len] obtain U where
      U: "packet (pbufs (netw U)) p [p]" "pool_pbuf (netw U) p" "pay U p = pay S p + 14"
        "content (netw U) [p] = ip_packet tos ident df ttl IP_PROTO_ICMP ck src own ?req"
        "mheap (netw U) = mheap (netw S)" "pools (netw U) = pools (netw S)" "nif U = nif S" "descs U = descs S" "DMATxDescToSet U = DMATxDescToSet S"
        "upper U = (upper S)\<lparr>above := (inet S)\<lparr>current_netif := n, current_header := pay S p + 14, current_iphdr_dest := own, current_iphdr_src := src\<rparr>\<rparr>"
      and fin: "\<forall>W. (if IP_PROTO_ICMP = IP_PROTO_UDP then udp_input ops p n U else if IP_PROTO_ICMP = IP_PROTO_TCP then tcp_input ops p n U
              else if IP_PROTO_ICMP = IP_PROTO_ICMP then icmp_input ops p n U else None) = Some W
         \<longrightarrow> ethernet_input aops p n S = Some (upd_inet quiet_inet W, ERR_OK)"
    by (elim exE conjE)
  have tl: "unat (plen (netw U) p) = 24 + length rest" "38 + length rest \<le> unat (plen (netw S) p)"
    using arg_cong [OF U(4), of length] arg_cong [OF f, of length] l(1,2) by (simp_all add: length_ip_packet)
  have clr: "clear_of (netw U) p [] 14 b"
  proof (rule clear_of_single)
    have "pay U p - 14 = pay S p" "pay U p + int (unat (plen (netw U) p)) = pay S p + (38 + int (length rest))"
        "14 + int (unat (plen (netw U) p)) = 38 + int (length rest)"
      unfolding U(3) tl(1) by simp_all
    moreover have "{pay S p ..< pay S p + (38 + int (length rest))} \<subseteq> region (netw S) p"
      using tl(2) unfolding region_def uint_unat by (simp only: ivl_subset) linarith
    ultimately show "{pay U p - 14 ..< pay U p + int (unat (plen (netw U) p))} \<inter> {b ..< b + (14 + int (unat (plen (netw U) p)))} = {}"
      using ap by (simp only:) blast
  qed simp
  have nU: "\<not> ip4_addr_isbroadcast own (nif U n)" "length (n_hwaddr (nif U n)) = 6" "n_mtu (nif U n) = 0 \<or> 1500 \<le> n_mtu (nif U n)"
    unfolding U(7) by (rule un(2), rule arp(4), rule mtu)
  have arpU: "arp_ok U" "routed n src mac U" using arp(1,2) by (simp_all add: arp_ok_def routed_def U(7,10))
  have cur: "current_iphdr_dest (inet U) = own" "current_iphdr_src (inet U) = src" "tx_ready td b U" "Pbuf.pool_rep E (netw U) (hand M [p])" "p + 30 \<le> pay U p"
    using tx p(2,3) by (simp_all add: U tx_ready_def pool_pbuf_def)
  obtain W where W: "icmp_input ops p n U = Some W" "Pbuf.pool_rep E (netw W) M"
      "frame_sent td b (eth_frame mac (n_hwaddr (nif S n)) (ip_packet tos ident df 255 IP_PROTO_ICMP 0 own src ([0, code, 0, 0] @ rest))) U W"
    using icmp_echo_run [OF U(1,2) cur(5) U(4) k l(3,4) cur(1,2) nU(1) un(3) arpU arp(3) nU(2,3) cur(3) clr cur(4) p(4), of ops]
    unfolding U(7) by (elim exE conjE)
  have "ethernet_input aops p n S = Some (upd_inet quiet_inet W, ERR_OK)"
    using fin W(1) by (simp add: ip_consts)
  moreover have "frame_sent td b fr S (upd_inet g W)" if "frame_sent td b fr U W" for fr g
    using that by (simp add: frame_sent_def U(8))
  ultimately show ?thesis using W(2,3) by auto
qed

subsection \<open>Instances\<close>

text \<open>
  An interface that is up, a host of its network in the table, and a frame in a pbuf of the pool.
  The layers above IP and the fragments are functions that do nothing; no raw pcb is open.
\<close>

definition netif1 :: netif where "netif1 = netif0\<lparr>n_flags := 0x33\<rparr>"

definition host_entry :: etharp_entry where
  "host_entry = old_entry\<lparr>e_ctime := 5\<rparr>"

definition no_inet :: "'w \<Rightarrow> 'w inet" where
  "no_inet w = \<lparr>netif_list = 1, netif_next = (\<lambda>_. NULL), netif_default = 1, ip_id = 0, current_netif = NULL, current_header = NULL,
     current_iphdr_src = 0, current_iphdr_dest = 0, raw_pcbs = NULL, raw_at = (\<lambda>_. undefined), transport = w\<rparr>"

definition host_state :: "net \<Rightarrow> 'w \<Rightarrow> 'w ist" where
  "host_state N w = \<lparr>netw = N, descs = (\<lambda>_. \<lparr>Status = 0, ControlBufferSize = 0, Buffer1Addr = 0x1000, Buffer2NextDescAddr = 0x220\<rparr>),
     DMARxDescToGet = 0, DMATxDescToSet = 0x200, DMASR = 0, DMARPDR = 0, DMATPDR = 0, DMARDLAR = 0, DMATDLAR = 0,
     upper = \<lparr>netifs = (\<lambda>_. netif1), arp_table = host_entry # replicate 9 entry0, etharp_cached_entry = 0, above = no_inet w\<rparr>\<rparr>"

definition ip_ops0 :: "'w ip_ops" where
  "ip_ops0 = \<lparr>ip_frag = (\<lambda>p n d S. Some (S, ERR_OK)), ip_reass = (\<lambda>p S. Some (S, NULL)), raw_callback = (\<lambda>c a r p x S. Some (S, 0)),
     udp_input = (\<lambda>p n S. Some S), tcp_input = (\<lambda>p n S. Some S)\<rparr>"

definition arp_ops0 :: "'w ip_ops \<Rightarrow> 'w inet arp_ops" where
  "arp_ops0 ops = \<lparr>ip_input = ip_receive ops, dhcp_arp_reply = (\<lambda>n a S. Some S)\<rparr>"

lemma netif1: "n_flags netif1 AND NETIF_FLAG_ETHARP \<noteq> 0" "n_flags netif1 AND NETIF_FLAG_UP \<noteq> 0" "n_ip_addr netif1 = IP4_ADDR 192 168 1 30"
    "unicast (IP4_ADDR 192 168 1 30) netif1" "unicast (IP4_ADDR 192 168 1 7) netif1" "n_hwaddr netif1 = [2, 0, 0, 1, 2, 3]" "n_mtu netif1 = 1500"
    "next_hop netif1 (IP4_ADDR 192 168 1 7) = IP4_ADDR 192 168 1 7"
  by (simp_all add: netif1_def netif0_def NETIF_FLAG_ETHARP_def NETIF_FLAG_UP_def IPADDR_ANY_def IPADDR_BROADCAST_def IP4_ADDR_def unicast_def
      ip4_addr_isbroadcast_def ip_addr_ismulticast_def lwip_htonl_def NETIF_FLAG_BROADCAST_def ip_addr_netcmp_def next_hop_def ip_addr_islinklocal_def)

lemma host_state_sel [simp]: "netw (host_state N w) = N" "nif (host_state N w) n = netif1" "inet (host_state N w) = no_inet w"
    "raw_pcbs (no_inet w) = NULL"
  by (simp_all add: host_state_def no_inet_def)

lemma host_state_ok: "arp_ok (host_state N w)" "routed 1 (IP4_ADDR 192 168 1 7) [2, 0, 0, 0, 0, 7] (host_state N w)"
    "tx_ready 0x200 0x1000 (host_state N w)" "netif_is_up 1 (host_state N w)"
proof -
  have t: "(host_entry # replicate 9 entry0) ! i = (if i = 0 then host_entry else entry0)" if "i < 10" for i
    using that by (cases i) simp_all
  show "arp_ok (host_state N w)"
    unfolding arp_ok_def tab_ok_def host_state_def by (simp add: ARP_TABLE_SIZE_def t)
      (auto simp: entry_ok_def used_def host_entry_def old_entry_def entry0_def ARP_MAXAGE_def)
  have "table (host_state N w) ! 0 = host_entry" by (simp add: host_state_def)
  then show "routed 1 (IP4_ADDR 192 168 1 7) [2, 0, 0, 0, 0, 7] (host_state N w)"
    using netif1 by (auto simp: routed_def IPADDR_ANY_def IP4_ADDR_def ARP_TABLE_SIZE_def host_entry_def old_entry_def ARP_AGE_REREQUEST_USED_def ARP_MAXAGE_def
        intro!: exI [of _ 0])
  show "tx_ready 0x200 0x1000 (host_state N w)" "netif_is_up 1 (host_state N w)"
    using netif1(2) by (simp_all add: tx_ready_def host_state_def netif_is_up_def)
qed

lemma frame_in_pool:
  fixes fr :: "u8 list"
  assumes l: "length fr \<le> 512"
  shows "\<exists>N p. p \<noteq> NULL \<and> packet (pbufs N) p [p] \<and> pool_pbuf N p \<and> content N [p] = fr \<and> Pbuf.pool_rep pool0 N (hand Map.empty [p])
    \<and> mheap (N :: net) = heap0\<lparr>bytes := put_bytes (ppay N p) fr (bytes heap0)\<rparr> \<and> region N p \<inter> {0x1000 ..< 0x1000 + 7620} = {}"
proof -
  have ul: "unat (of_nat (length fr) :: u16) = length fr" using l by (intro unat_of_nat16) simp
  from pool_alloc_spec [OF pool0(1,2,4), of PBUF_RAW "of_nat (length fr)"] obtain N :: net and p where
      a: "p = NULL \<longleftrightarrow> card (pool0 - dom (Map.empty :: ptr \<rightharpoonup> ptr set)) < pool_need PBUF_RAW (of_nat (length fr))" "mheap N = mheap net0"
        "if p = NULL then Pbuf.pool_rep pool0 N Map.empty else \<exists>ps. packet (pbufs N) p ps \<and> tlen (pbufs N) ps = unat (of_nat (length fr) :: u16)
         \<and> length ps = pool_need PBUF_RAW (of_nat (length fr)) \<and> set ps \<inter> dom (Map.empty :: ptr \<rightharpoonup> ptr set) = {} \<and> (\<forall>x \<in> set ps. pool_pbuf N x) \<and> Pbuf.pool_rep pool0 N (hand Map.empty ps)
         \<and> (\<exists>S'' n. pbuf_free p N = Some (S'', n) \<and> Pbuf.pool_rep pool0 S'' Map.empty)"
    by (elim exE conjE)
  have need: "pool_need PBUF_RAW (of_nat (length fr)) = 1" using l ul
    by (simp add: pool_need_def elems_for_def layer_offset_def LWIP_MEM_ALIGN_SIZE_def PBUF_POOL_BUFSIZE_ALIGNED_def uint_unat)
  then have p0: "p \<noteq> NULL" using a(1) pool0(3) by simp
  then obtain ps where ps: "packet (pbufs N) p ps" "tlen (pbufs N) ps = length fr" "length ps = 1" "\<forall>x \<in> set ps. pool_pbuf N x"
      "Pbuf.pool_rep pool0 N (hand Map.empty ps)"
    using a(3) need ul by auto
  have one: "ps = [p]" using ps(1,3) by (cases ps) (auto simp: packet_def)
  have pl: "unat (plen N p) = length fr" using ps(2) by (simp add: one)
  let ?N = "upd_bytes (put_bytes (ppay N p) fr) N"
  have c: "content ?N [p] = fr" using mem_range_put [of "ppay N p" fr] pl by simp
  have pk: "packet (pbufs ?N) p [p]" "pool_pbuf ?N p" "Pbuf.pool_rep pool0 ?N (hand Map.empty [p])"
    using ps by (simp_all add: one pool_pbuf_def)
  have "p \<in> pool0" using memp_rep_dom [OF ps(5)] by (auto simp: one)
  then have "{p ..< p + 528} \<inter> {0x1000 ..< 0x1000 + 7620} = {}" using eth2_pool(3) by blast
  moreover have "region ?N p \<subseteq> {p ..< p + 528}" using pk(2) by (auto simp: pool_pbuf_def region_def)
  ultimately have "region ?N p \<inter> {0x1000 ..< 0x1000 + 7620} = {}" by blast
  then show ?thesis using c pk p0 a(2) by (intro exI [of _ ?N] exI [of _ p]) (simp add: upd_bytes_def net0_def)
qed

theorem ping_answered_witness:
  "\<exists>N p S'. content N [p] = [2, 0, 0, 1, 2, 3] @ [2, 0, 0, 0, 0, 7] @ [0x08, 0x00]
       @ ip_packet 0 9 True 64 IP_PROTO_ICMP 77 (IP4_ADDR 192 168 1 7) (IP4_ADDR 192 168 1 30) ([8, 0, 0x8F, 0x8E] @ [0, 1, 0, 7, 0x68, 0x69]) @ [0, 0]
    \<and> ethernet_input (arp_ops0 ip_ops0) p 1 (host_state N ()) = Some (S', ERR_OK)
    \<and> mem_range (mbytes (netw S')) 0x1000 44 = eth_frame [2, 0, 0, 0, 0, 7] [2, 0, 0, 1, 2, 3]
        (ip_packet 0 9 True 255 IP_PROTO_ICMP 0 (IP4_ADDR 192 168 1 30) (IP4_ADDR 192 168 1 7) ([0, 0, 0, 0] @ [0, 1, 0, 7, 0x68, 0x69]))"
proof -
  let ?req = "[8, 0, 0x8F, 0x8E] @ [0, 1, 0, 7, 0x68, 0x69] :: u8 list"
  let ?fr = "[2, 0, 0, 1, 2, 3] @ [2, 0, 0, 0, 0, 7] @ [0x08, 0x00]
       @ ip_packet 0 9 True 64 IP_PROTO_ICMP 77 (IP4_ADDR 192 168 1 7) (IP4_ADDR 192 168 1 30) ?req @ [0, 0]"
  have "length ?fr \<le> 512" by (simp add: length_ip_packet)
  from frame_in_pool [OF this] obtain N :: net and p where N: "packet (pbufs N) p [p]" "pool_pbuf N p" "content N [p] = ?fr"
      "Pbuf.pool_rep pool0 N (hand Map.empty [p])" "region N p \<inter> {0x1000 ..< 0x1000 + 7620} = {}"
    by (elim exE conjE)
  let ?S = "host_state N ()"
  have k: "rfc_sum ?req = 65535" by (simp add: rfc_sum_def canon_def)
  have ap: "region N p \<inter> {0x1000 ..< 0x1000 + (38 + int (length [0, 1, 0, 7, 0x68, 0x69 :: u8]))} = {}"
    using N(5) by (auto simp: disjoint_iff)
  have ip: "ip_input (arp_ops0 ip_ops0 :: unit inet arp_ops) = ip_receive ip_ops0" by (simp add: arp_ops0_def)
  note h = host_state_ok [of N "()"]
  from ping_answered [OF ip, of ?S 1 "IP4_ADDR 192 168 1 30" p pool0 Map.empty "[2, 0, 0, 1, 2, 3]" "[2, 0, 0, 0, 0, 7]" 0 9 True 64 77 "IP4_ADDR 192 168 1 7"
      0 "0x8F" "0x8E" "[0, 1, 0, 7, 0x68, 0x69]" "[0, 0]" "[2, 0, 0, 0, 0, 7]" "0x200" "0x1000"]
  have "\<exists>S'. ethernet_input (arp_ops0 ip_ops0) p 1 ?S = Some (S', ERR_OK)
    \<and> frame_sent 0x200 0x1000 (eth_frame [2, 0, 0, 0, 0, 7] (n_hwaddr netif1)
        (ip_packet 0 9 True 255 IP_PROTO_ICMP 0 (IP4_ADDR 192 168 1 30) (IP4_ADDR 192 168 1 7) ([0, 0, 0, 0] @ [0, 1, 0, 7, 0x68, 0x69]))) ?S S'
    \<and> Pbuf.pool_rep pool0 (netw S') Map.empty"
    using h netif1 N(1-4) k ap by simp
  then show ?thesis using N(3) netif1(6) by (auto simp: frame_sent_def eth_frame_def length_ip_packet)
qed

end
