(* ===== verification/Key.thy ===== *)
theory Key
  imports Prelude
begin

text \<open>
  Model of HARDWARE/KEY/key.c: \<open>KEY_Scan\<close> with its static variable \<open>key_up\<close>. The levels of the
  four pins are read twice, before and after the 10 ms against bouncing; KEY0 to KEY2 are low when
  pressed, WK_UP is high. Lemmas: without the continuous mode a key that is held is reported once.
\<close>

record pins =
  KEY0 :: bool
  KEY1 :: bool
  KEY2 :: bool
  WK_UP :: bool

definition some_key :: "pins \<Rightarrow> bool" where
  "some_key P \<longleftrightarrow> \<not> KEY0 P \<or> \<not> KEY1 P \<or> \<not> KEY2 P \<or> WK_UP P"

text \<open>\<open>now\<close> and \<open>after\<close> are the pins before and after the delay; the result is \<open>key_up\<close> and the key.\<close>

definition KEY_Scan :: "u8 \<Rightarrow> pins \<Rightarrow> pins \<Rightarrow> bool \<Rightarrow> bool \<times> u8" where
  "KEY_Scan mode now after key_up =
     (let key_up = (if mode \<noteq> 0 then True else key_up) in
      if key_up \<and> some_key now then
        (False, if \<not> KEY0 after then 1 else if \<not> KEY1 after then 2 else if \<not> KEY2 after then 3 else if WK_UP after then 4 else 0)
      else (if \<not> some_key now then True else key_up, 0))"

text \<open>The keys that a sequence of samples reports.\<close>

fun scans :: "u8 \<Rightarrow> (pins \<times> pins) list \<Rightarrow> bool \<Rightarrow> u8 list" where
  "scans mode [] key_up = []"
| "scans mode ((now, after) # ps) key_up =
     (let (key_up, k) = KEY_Scan mode now after key_up in (if k \<noteq> 0 then [k] else []) @ scans mode ps key_up)"

lemma held_silent: "\<forall>(now, after) \<in> set ps. some_key now \<Longrightarrow> scans 0 ps False = []"
  by (induction ps) (auto simp: KEY_Scan_def)

lemma press_once:
  "\<not> some_key r \<Longrightarrow> some_key now \<Longrightarrow> \<forall>(a, b) \<in> set ps. some_key a
   \<Longrightarrow> scans 0 ((r, r) # (now, after) # ps) up = scans 0 [(now, after)] True"
  using held_silent [of ps] by (simp add: KEY_Scan_def Let_def)

lemma bounce_ignored: "\<not> some_key after \<Longrightarrow> snd (KEY_Scan mode now after up) = 0"
  by (auto simp: KEY_Scan_def some_key_def)

end
