(* ===== verification/Tcp.thy ===== *)
theory Tcp
  imports Udp
begin

text \<open>
  Model of lwip-1.4.1/src/core/tcp.c: the control blocks of TCP, their four lists, the timers, and
  the interface of the application. The control blocks are the record \<open>tcp_pcb\<close>; a listening block
  (\<open>struct tcp_pcb_listen\<close>) has the first fields of it and comes from a pool of its own. Segments
  are the record \<open>tcp_seg\<close>; their contents are packets. The output half of the protocol
  (tcp_out.c) and \<open>tcp_timer_needed\<close> of timers.c are the fields of \<open>tcp_out\<close>, the functions of
  the application those of \<open>tcp_calls\<close>. A callback field is \<open>None\<close> or one of the functions of
  this program that are registered in it. Signed 16-bit fields are words that are read by \<open>sint\<close>.
\<close>

unbundle bit_operations_syntax

subsection \<open>Data\<close>

datatype tcp_state = CLOSED | LISTEN | SYN_SENT | SYN_RCVD | ESTABLISHED | FIN_WAIT_1 | FIN_WAIT_2
  | CLOSE_WAIT | CLOSING | LAST_ACK | TIME_WAIT

datatype tcp_accept_fn = TCP_ACCEPT_NULL | M_TCP_SERVER_ACCEPT
datatype tcp_recv_fn = TCP_RECV_NULL | M_TCP_SERVER_RECV
datatype tcp_sent_fn = M_TCP_SERVER_SENT
datatype tcp_poll_fn = M_TCP_SERVER_POLL
datatype tcp_err_fn = M_TCP_SERVER_ERROR

record tcp_pcb =
  t_local_ip :: u32
  t_remote_ip :: u32
  t_so_options :: u8
  t_tos :: u8
  t_ttl :: u8
  t_next :: ptr
  t_callback_arg :: ptr
  t_accept :: "tcp_accept_fn option"
  t_state :: tcp_state
  t_prio :: u8
  t_local_port :: u16
  t_remote_port :: u16
  t_flags :: u8
  t_polltmr :: u8
  t_pollinterval :: u8
  t_last_timer :: u8
  t_tmr :: u32
  t_rcv_nxt :: u32
  t_rcv_wnd :: u16
  t_rcv_ann_wnd :: u16
  t_rcv_ann_right_edge :: u32
  t_rtime :: u16
  t_mss :: u16
  t_rttest :: u32
  t_rtseq :: u32
  t_sa :: u16
  t_sv :: u16
  t_rto :: u16
  t_nrtx :: u8
  t_dupacks :: u8
  t_lastack :: u32
  t_cwnd :: u16
  t_ssthresh :: u16
  t_snd_nxt :: u32
  t_snd_wl1 :: u32
  t_snd_wl2 :: u32
  t_snd_lbb :: u32
  t_snd_wnd :: u16
  t_snd_wnd_max :: u16
  t_acked :: u16
  t_snd_buf :: u16
  t_snd_queuelen :: u16
  t_unsent_oversize :: u16
  t_unsent :: ptr
  t_unacked :: ptr
  t_refused_data :: ptr
  t_sent :: "tcp_sent_fn option"
  t_recv :: "tcp_recv_fn option"
  t_connected :: "nat option"   \<comment> \<open>no function of this program is registered here\<close>
  t_poll :: "tcp_poll_fn option"
  t_errf :: "tcp_err_fn option"
  t_keep_idle :: u32
  t_persist_cnt :: u8
  t_persist_backoff :: u8
  t_keep_cnt_sent :: u8

record tcp_seg =
  s_next :: ptr
  s_p :: ptr
  s_len :: u16
  s_flags :: u8
  s_tcphdr :: ptr

text \<open>The static variables of tcp_in.c, which hold the segment that is being processed.\<close>

record tcp_rx =
  x_inseg :: tcp_seg
  x_tcphdr :: ptr
  x_iphdr :: ptr
  x_seqno :: u32
  x_ackno :: u32
  x_flags :: u8
  x_tcplen :: u16
  x_recv_flags :: u8
  x_recv_data :: ptr

text \<open>The list of timeouts of timers.c.\<close>

datatype sys_timeout_handler = Tcpip_tcp_timer | Ip_reass_timer | Arp_timer | Dhcp_timer_coarse | Dhcp_timer_fine

record sys_timeo =
  to_next :: ptr
  to_time :: u32
  to_h :: sys_timeout_handler
  to_arg :: ptr

record sys_timers =
  next_timeout :: ptr
  timeouts_last_time :: u32
  tcpip_tcp_timer_active :: bool
  timeo_at :: "ptr \<Rightarrow> sys_timeo"

record 's tcp_layer =
  tcp_port :: u16
  tcp_ticks :: u32
  tcp_bound_pcbs :: ptr
  tcp_listen_pcbs :: ptr
  tcp_active_pcbs :: ptr
  tcp_tw_pcbs :: ptr
  tcp_active_pcbs_changed :: u8
  tcp_timer :: u8
  tcp_timer_ctr :: u8
  next_iss :: u32   \<comment> \<open>the static variable of \<open>tcp_next_iss\<close>\<close>
  tcp_input_pcb :: ptr
  rx :: tcp_rx
  timeouts :: sys_timers
  tcp_at :: "ptr \<Rightarrow> tcp_pcb"
  seg_at :: "ptr \<Rightarrow> tcp_seg"
  serv :: 's

type_synonym 's tst = "'s tcp_layer ust"

record 's tcp_out =
  tcp_output :: "ptr \<Rightarrow> 's tst \<Rightarrow> ('s tst \<times> err_t) option"
  tcp_write :: "ptr \<Rightarrow> ptr \<Rightarrow> u16 \<Rightarrow> u8 \<Rightarrow> 's tst \<Rightarrow> ('s tst \<times> err_t) option"
  tcp_send_fin :: "ptr \<Rightarrow> 's tst \<Rightarrow> ('s tst \<times> err_t) option"
  tcp_enqueue_flags :: "ptr \<Rightarrow> u8 \<Rightarrow> 's tst \<Rightarrow> ('s tst \<times> err_t) option"
  tcp_rst :: "u32 \<Rightarrow> u32 \<Rightarrow> u32 \<Rightarrow> u32 \<Rightarrow> u16 \<Rightarrow> u16 \<Rightarrow> 's tst \<Rightarrow> 's tst option"
  tcp_rexmit_rto :: "ptr \<Rightarrow> 's tst \<Rightarrow> 's tst option"
  tcp_keepalive :: "ptr \<Rightarrow> 's tst \<Rightarrow> 's tst option"
  tcp_zero_window_probe :: "ptr \<Rightarrow> 's tst \<Rightarrow> 's tst option"
  tcp_timer_needed :: "'s tst \<Rightarrow> 's tst"

text \<open>The functions of the application: argument of the block, block, data.\<close>

record 's tcp_calls =
  call_accept :: "ptr \<Rightarrow> ptr \<Rightarrow> err_t \<Rightarrow> 's tst \<Rightarrow> ('s tst \<times> err_t) option"
  call_connected :: "nat \<Rightarrow> ptr \<Rightarrow> ptr \<Rightarrow> err_t \<Rightarrow> 's tst \<Rightarrow> ('s tst \<times> err_t) option"
  call_recv :: "ptr \<Rightarrow> ptr \<Rightarrow> ptr \<Rightarrow> err_t \<Rightarrow> 's tst \<Rightarrow> ('s tst \<times> err_t) option"
  call_sent :: "ptr \<Rightarrow> ptr \<Rightarrow> u16 \<Rightarrow> 's tst \<Rightarrow> ('s tst \<times> err_t) option"
  call_poll :: "ptr \<Rightarrow> ptr \<Rightarrow> 's tst \<Rightarrow> ('s tst \<times> err_t) option"
  call_err :: "ptr \<Rightarrow> err_t \<Rightarrow> 's tst \<Rightarrow> 's tst option"

definition TCP_WND :: int where "TCP_WND = 2 * 1460"
definition TCP_MSS :: int where "TCP_MSS = 1500 - 40"
definition TCP_SND_BUF :: int where "TCP_SND_BUF = 4 * TCP_MSS"
definition TCP_WND_UPDATE_THRESHOLD :: int where "TCP_WND_UPDATE_THRESHOLD = TCP_WND div 4"
definition TCP_TTL :: u8 where "TCP_TTL = 255"
definition TCP_HLEN :: int where "TCP_HLEN = 20"
definition TCP_MAXRTX :: u8 where "TCP_MAXRTX = 12"
definition TCP_SYNMAXRTX :: u8 where "TCP_SYNMAXRTX = 6"
definition TCP_SLOW_INTERVAL :: nat where "TCP_SLOW_INTERVAL = 2 * 250"
definition TCP_FIN_WAIT_TIMEOUT :: nat where "TCP_FIN_WAIT_TIMEOUT = 20000"
definition TCP_SYN_RCVD_TIMEOUT :: nat where "TCP_SYN_RCVD_TIMEOUT = 20000"
definition TCP_MSL :: nat where "TCP_MSL = 60000"
definition TCP_KEEPIDLE_DEFAULT :: u32 where "TCP_KEEPIDLE_DEFAULT = 7200000"
definition TCP_KEEPINTVL_DEFAULT :: u32 where "TCP_KEEPINTVL_DEFAULT = 1000"
definition TCP_KEEPCNT_DEFAULT :: u32 where "TCP_KEEPCNT_DEFAULT = 9"
definition TCP_PRIO_MIN :: u8 where "TCP_PRIO_MIN = 1"
definition TCP_PRIO_NORMAL :: u8 where "TCP_PRIO_NORMAL = 64"
definition TCP_PRIO_MAX :: u8 where "TCP_PRIO_MAX = 127"
definition TCP_LOCAL_PORT_RANGE_START :: u16 where "TCP_LOCAL_PORT_RANGE_START = 0xc000"
definition TCP_LOCAL_PORT_RANGE_END :: u16 where "TCP_LOCAL_PORT_RANGE_END = 0xffff"
definition TF_ACK_DELAY :: u8 where "TF_ACK_DELAY = 0x01"
definition TF_ACK_NOW :: u8 where "TF_ACK_NOW = 0x02"
definition TF_RXCLOSED :: u8 where "TF_RXCLOSED = 0x10"
definition TCP_SYN :: u8 where "TCP_SYN = 0x02"
definition TCP_WRITE_FLAG_COPY :: u8 where "TCP_WRITE_FLAG_COPY = 0x01"
definition SOF_ACCEPTCONN :: u8 where "SOF_ACCEPTCONN = 0x02"
definition SOF_KEEPALIVE :: u8 where "SOF_KEEPALIVE = 0x08"
definition PBUF_FLAG_TCP_FIN :: u8 where "PBUF_FLAG_TCP_FIN = 0x20"
definition tcp_backoff :: "nat list" where "tcp_backoff = [1, 2, 3, 4, 5, 6, 7, 7, 7, 7, 7, 7, 7]"
definition tcp_persist_backoff :: "u8 list" where "tcp_persist_backoff = [3, 6, 12, 24, 48, 96, 120]"

lemmas tcp_consts = TCP_WND_def TCP_MSS_def TCP_SND_BUF_def TCP_WND_UPDATE_THRESHOLD_def TCP_TTL_def TCP_HLEN_def TCP_MAXRTX_def
  TCP_SYNMAXRTX_def TCP_SLOW_INTERVAL_def TCP_FIN_WAIT_TIMEOUT_def TCP_SYN_RCVD_TIMEOUT_def TCP_MSL_def TCP_KEEPIDLE_DEFAULT_def
  TCP_KEEPINTVL_DEFAULT_def TCP_KEEPCNT_DEFAULT_def TCP_PRIO_MIN_def TCP_PRIO_NORMAL_def TCP_PRIO_MAX_def
  TCP_LOCAL_PORT_RANGE_START_def TCP_LOCAL_PORT_RANGE_END_def TF_ACK_DELAY_def TF_ACK_NOW_def TF_RXCLOSED_def TCP_SYN_def
  SOF_ACCEPTCONN_def SOF_KEEPALIVE_def PBUF_FLAG_TCP_FIN_def

definition TCP_SEQ_GEQ :: "u32 \<Rightarrow> u32 \<Rightarrow> bool" where "TCP_SEQ_GEQ a b \<longleftrightarrow> sint (a - b) \<ge> 0"
definition TCP_SEQ_GT :: "u32 \<Rightarrow> u32 \<Rightarrow> bool" where "TCP_SEQ_GT a b \<longleftrightarrow> sint (a - b) > 0"

abbreviation tcp :: "'s tst \<Rightarrow> 's tcp_layer" where "tcp S \<equiv> app (udp S)"
abbreviation tpcb :: "'s tst \<Rightarrow> ptr \<Rightarrow> tcp_pcb" where "tpcb S u \<equiv> tcp_at (tcp S) u"

definition upd_tcp :: "('s tcp_layer \<Rightarrow> 's tcp_layer) \<Rightarrow> 's tst \<Rightarrow> 's tst" where
  "upd_tcp f S = upd_udp (\<lambda>l. l\<lparr>app := f (app l)\<rparr>) S"

definition upd_tpcb :: "ptr \<Rightarrow> (tcp_pcb \<Rightarrow> tcp_pcb) \<Rightarrow> 's tst \<Rightarrow> 's tst" where
  "upd_tpcb u f S = upd_tcp (\<lambda>l. l\<lparr>tcp_at := (tcp_at l)(u := f (tcp_at l u))\<rparr>) S"

definition memp_free_st :: "memp_t \<Rightarrow> ptr \<Rightarrow> 'v st \<Rightarrow> 'v st" where
  "memp_free_st t p S = S\<lparr>netw := (netw S)\<lparr>pools := memp_free t p (pools (netw S))\<rparr>\<rparr>"

definition memp_malloc_st :: "memp_t \<Rightarrow> 'v st \<Rightarrow> 'v st \<times> ptr" where
  "memp_malloc_st t S = (let (P, p) = memp_malloc t (pools (netw S)) in (S\<lparr>netw := (netw S)\<lparr>pools := P\<rparr>\<rparr>, p))"

subsection \<open>The lists of control blocks\<close>

datatype pcb_list = Listening | Bound | Active | Time_Wait

fun list_head :: "pcb_list \<Rightarrow> 's tcp_layer \<Rightarrow> ptr" where
  "list_head Listening l = tcp_listen_pcbs l"
| "list_head Bound l = tcp_bound_pcbs l"
| "list_head Active l = tcp_active_pcbs l"
| "list_head Time_Wait l = tcp_tw_pcbs l"

fun set_head :: "pcb_list \<Rightarrow> ptr \<Rightarrow> 's tcp_layer \<Rightarrow> 's tcp_layer" where
  "set_head Listening p l = l\<lparr>tcp_listen_pcbs := p\<rparr>"
| "set_head Bound p l = l\<lparr>tcp_bound_pcbs := p\<rparr>"
| "set_head Active p l = l\<lparr>tcp_active_pcbs := p\<rparr>"
| "set_head Time_Wait p l = l\<lparr>tcp_tw_pcbs := p\<rparr>"

definition tcp_pcb_lists :: "pcb_list list" where
  "tcp_pcb_lists = [Listening, Bound, Active, Time_Wait]"

definition TCP_REG :: "'s tcp_out \<Rightarrow> pcb_list \<Rightarrow> ptr \<Rightarrow> 's tst \<Rightarrow> 's tst" where
  "TCP_REG io pcbs npcb S =
     (let S = upd_tpcb npcb (\<lambda>b. b\<lparr>t_next := list_head pcbs (tcp S)\<rparr>) S;
          S = upd_tcp (set_head pcbs npcb) S
      in tcp_timer_needed io S)"

partial_function (option) rmv_loop :: "ptr \<Rightarrow> ptr \<Rightarrow> 's tst \<Rightarrow> 's tst option" where
  "rmv_loop npcb tmp S =
     (if tmp \<noteq> NULL then
        (if t_next (tpcb S tmp) = npcb then Some (upd_tpcb tmp (\<lambda>b. b\<lparr>t_next := t_next (tpcb S npcb)\<rparr>) S)
         else rmv_loop npcb (t_next (tpcb S tmp)) S)
      else Some S)"

definition TCP_RMV :: "pcb_list \<Rightarrow> ptr \<Rightarrow> 's tst \<Rightarrow> 's tst option" where
  "TCP_RMV pcbs npcb S = do {
     S \<leftarrow> (if list_head pcbs (tcp S) = npcb
           then Some (upd_tcp (\<lambda>l. set_head pcbs (t_next (tcp_at l (list_head pcbs l))) l) S)
           else rmv_loop npcb (list_head pcbs (tcp S)) S);
     Some (upd_tpcb npcb (\<lambda>b. b\<lparr>t_next := NULL\<rparr>) S) }"

definition set_changed :: "u8 \<Rightarrow> 's tst \<Rightarrow> 's tst" where
  "set_changed v S = upd_tcp (\<lambda>l. l\<lparr>tcp_active_pcbs_changed := v\<rparr>) S"

definition TCP_REG_ACTIVE :: "'s tcp_out \<Rightarrow> ptr \<Rightarrow> 's tst \<Rightarrow> 's tst" where
  "TCP_REG_ACTIVE io npcb S = set_changed 1 (TCP_REG io Active npcb S)"

definition TCP_RMV_ACTIVE :: "ptr \<Rightarrow> 's tst \<Rightarrow> 's tst option" where
  "TCP_RMV_ACTIVE npcb S = do { S \<leftarrow> TCP_RMV Active npcb S; Some (set_changed 1 S) }"

subsection \<open>Segments, and blocks that go away\<close>

definition tcp_seg_free :: "ptr \<Rightarrow> 's tst \<Rightarrow> 's tst option" where
  "tcp_seg_free seg S =
     (if seg \<noteq> NULL then do {
        S \<leftarrow> (if s_p (seg_at (tcp S) seg) \<noteq> NULL then free_packet (s_p (seg_at (tcp S) seg)) S else Some S);
        Some (memp_free_st MEMP_TCP_SEG seg S) }
      else Some S)"

partial_function (option) tcp_segs_free :: "ptr \<Rightarrow> 's tst \<Rightarrow> 's tst option" where
  "tcp_segs_free seg S =
     (if seg \<noteq> NULL then do {
        let nseg = s_next (seg_at (tcp S) seg);
        S \<leftarrow> tcp_seg_free seg S;
        tcp_segs_free nseg S }
      else Some S)"

definition tcp_pcb_purge :: "ptr \<Rightarrow> 's tst \<Rightarrow> 's tst option" where
  "tcp_pcb_purge u S =
     (if t_state (tpcb S u) \<noteq> CLOSED \<and> t_state (tpcb S u) \<noteq> TIME_WAIT \<and> t_state (tpcb S u) \<noteq> LISTEN then do {
        S \<leftarrow> (if t_refused_data (tpcb S u) \<noteq> NULL then do {
                S \<leftarrow> free_packet (t_refused_data (tpcb S u)) S;
                Some (upd_tpcb u (\<lambda>b. b\<lparr>t_refused_data := NULL\<rparr>) S) }
              else Some S);
        let S = upd_tpcb u (\<lambda>b. b\<lparr>t_rtime := - 1\<rparr>) S;
        S \<leftarrow> tcp_segs_free (t_unsent (tpcb S u)) S;
        S \<leftarrow> tcp_segs_free (t_unacked (tpcb S u)) S;
        Some (upd_tpcb u (\<lambda>b. b\<lparr>t_unsent := NULL, t_unacked := NULL, t_unsent_oversize := 0\<rparr>) S) }
      else Some S)"

definition tcp_pcb_remove :: "'s tcp_out \<Rightarrow> pcb_list \<Rightarrow> ptr \<Rightarrow> 's tst \<Rightarrow> 's tst option" where
  "tcp_pcb_remove io pcblist u S = do {
     S \<leftarrow> TCP_RMV pcblist u S;
     S \<leftarrow> tcp_pcb_purge u S;
     S \<leftarrow> (if t_state (tpcb S u) \<noteq> TIME_WAIT \<and> t_state (tpcb S u) \<noteq> LISTEN \<and> t_flags (tpcb S u) AND TF_ACK_DELAY \<noteq> 0 then do {
             let S = upd_tpcb u (\<lambda>b. b\<lparr>t_flags := t_flags b OR TF_ACK_NOW\<rparr>) S;
             (S, err) \<leftarrow> tcp_output io u S;
             Some S }
           else Some S);
     Some (upd_tpcb u (\<lambda>b. b\<lparr>t_state := CLOSED\<rparr>) S) }"

definition TCP_PCB_REMOVE_ACTIVE :: "'s tcp_out \<Rightarrow> ptr \<Rightarrow> 's tst \<Rightarrow> 's tst option" where
  "TCP_PCB_REMOVE_ACTIVE io u S = do { S \<leftarrow> tcp_pcb_remove io Active u S; Some (set_changed 1 S) }"

definition TCP_EVENT_ERR :: "'s tcp_calls \<Rightarrow> tcp_err_fn option \<Rightarrow> ptr \<Rightarrow> err_t \<Rightarrow> 's tst \<Rightarrow> 's tst option" where
  "TCP_EVENT_ERR calls errf arg err S = (case errf of None \<Rightarrow> Some S | Some f \<Rightarrow> call_err calls arg err S)"

definition tcp_abandon :: "'s tcp_out \<Rightarrow> 's tcp_calls \<Rightarrow> ptr \<Rightarrow> bool \<Rightarrow> 's tst \<Rightarrow> 's tst option" where
  "tcp_abandon io calls u reset S =
     (if t_state (tpcb S u) = TIME_WAIT then do {
        S \<leftarrow> tcp_pcb_remove io Time_Wait u S;
        Some (memp_free_st MEMP_TCP_PCB u S) }
      else do {
        let seqno = t_snd_nxt (tpcb S u);
        let ackno = t_rcv_nxt (tpcb S u);
        let errf = t_errf (tpcb S u);
        let errf_arg = t_callback_arg (tpcb S u);
        S \<leftarrow> TCP_PCB_REMOVE_ACTIVE io u S;
        S \<leftarrow> (if t_unacked (tpcb S u) \<noteq> NULL then tcp_segs_free (t_unacked (tpcb S u)) S else Some S);
        S \<leftarrow> (if t_unsent (tpcb S u) \<noteq> NULL then tcp_segs_free (t_unsent (tpcb S u)) S else Some S);
        S \<leftarrow> (if reset then tcp_rst io seqno ackno (t_local_ip (tpcb S u)) (t_remote_ip (tpcb S u)) (t_local_port (tpcb S u)) (t_remote_port (tpcb S u)) S
              else Some S);
        TCP_EVENT_ERR calls errf errf_arg ERR_ABRT (memp_free_st MEMP_TCP_PCB u S) })"

definition tcp_abort :: "'s tcp_out \<Rightarrow> 's tcp_calls \<Rightarrow> ptr \<Rightarrow> 's tst \<Rightarrow> 's tst option" where
  "tcp_abort io calls u S = tcp_abandon io calls u True S"

subsection \<open>Closing\<close>

definition tcp_close_shutdown :: "'s tcp_out \<Rightarrow> ptr \<Rightarrow> bool \<Rightarrow> 's tst \<Rightarrow> ('s tst \<times> err_t) option" where
  "tcp_close_shutdown io u rst_on_unacked_data S =
     (if rst_on_unacked_data \<and> (t_state (tpcb S u) = ESTABLISHED \<or> t_state (tpcb S u) = CLOSE_WAIT)
         \<and> (t_refused_data (tpcb S u) \<noteq> NULL \<or> uint (t_rcv_wnd (tpcb S u)) \<noteq> TCP_WND) then do {
        let b = tpcb S u;
        S \<leftarrow> tcp_rst io (t_snd_nxt b) (t_rcv_nxt b) (t_local_ip b) (t_remote_ip b) (t_local_port b) (t_remote_port b) S;
        S \<leftarrow> tcp_pcb_purge u S;
        S \<leftarrow> TCP_RMV_ACTIVE u S;
        Some (if t_state (tpcb S u) = ESTABLISHED then TCP_REG io Time_Wait u (upd_tpcb u (\<lambda>b. b\<lparr>t_state := TIME_WAIT\<rparr>) S)
              else memp_free_st MEMP_TCP_PCB u S, ERR_OK) }
      else
        let fin = (\<lambda>st. do {
              (S, err) \<leftarrow> tcp_send_fin io u S;
              if err = ERR_OK then do {
                (S, ign) \<leftarrow> tcp_output io u (upd_tpcb u (\<lambda>b. b\<lparr>t_state := st\<rparr>) S);
                Some (S, err) }
              else Some (S, err) })
        in (case t_state (tpcb S u) of
              CLOSED \<Rightarrow> do {
                S \<leftarrow> (if t_local_port (tpcb S u) \<noteq> 0 then TCP_RMV Bound u S else Some S);
                Some (memp_free_st MEMP_TCP_PCB u S, ERR_OK) }
            | LISTEN \<Rightarrow> do {
                S \<leftarrow> tcp_pcb_remove io Listening u S;
                Some (memp_free_st MEMP_TCP_PCB_LISTEN u S, ERR_OK) }
            | SYN_SENT \<Rightarrow> do {
                S \<leftarrow> TCP_PCB_REMOVE_ACTIVE io u S;
                Some (memp_free_st MEMP_TCP_PCB u S, ERR_OK) }
            | SYN_RCVD \<Rightarrow> fin FIN_WAIT_1
            | ESTABLISHED \<Rightarrow> fin FIN_WAIT_1
            | CLOSE_WAIT \<Rightarrow> fin LAST_ACK
            | _ \<Rightarrow> Some (S, ERR_OK)))"

definition tcp_close :: "'s tcp_out \<Rightarrow> ptr \<Rightarrow> 's tst \<Rightarrow> ('s tst \<times> err_t) option" where
  "tcp_close io u S =
     tcp_close_shutdown io u True
       (if t_state (tpcb S u) \<noteq> LISTEN then upd_tpcb u (\<lambda>b. b\<lparr>t_flags := t_flags b OR TF_RXCLOSED\<rparr>) S else S)"

definition tcp_shutdown :: "'s tcp_out \<Rightarrow> ptr \<Rightarrow> bool \<Rightarrow> bool \<Rightarrow> 's tst \<Rightarrow> ('s tst \<times> err_t) option" where
  "tcp_shutdown io u shut_rx shut_tx S =
     (if t_state (tpcb S u) = LISTEN then Some (S, ERR_CONN)
      else
        let S = (if shut_rx then upd_tpcb u (\<lambda>b. b\<lparr>t_flags := t_flags b OR TF_RXCLOSED\<rparr>) S else S) in
        if shut_rx \<and> shut_tx then tcp_close_shutdown io u True S
        else do {
          S \<leftarrow> (if shut_rx \<and> t_refused_data (tpcb S u) \<noteq> NULL then do {
                  S \<leftarrow> free_packet (t_refused_data (tpcb S u)) S;
                  Some (upd_tpcb u (\<lambda>b. b\<lparr>t_refused_data := NULL\<rparr>) S) }
                else Some S);
          if shut_tx then
            (if t_state (tpcb S u) = SYN_RCVD \<or> t_state (tpcb S u) = ESTABLISHED \<or> t_state (tpcb S u) = CLOSE_WAIT
             then tcp_close_shutdown io u shut_rx S else Some (S, ERR_CONN))
          else Some (S, ERR_OK) })"

subsection \<open>Ports, binding and listening\<close>

partial_function (option) tcp_port_used :: "u16 \<Rightarrow> ptr \<Rightarrow> 's tst \<Rightarrow> bool option" where
  "tcp_port_used port u S =
     (if u \<noteq> NULL then (if t_local_port (tpcb S u) = port then Some True else tcp_port_used port (t_next (tpcb S u)) S)
      else Some False)"

fun tcp_lists_use :: "u16 \<Rightarrow> pcb_list list \<Rightarrow> 's tst \<Rightarrow> bool option" where
  "tcp_lists_use port [] S = Some False"
| "tcp_lists_use port (pcbs # ls) S = do {
     used \<leftarrow> tcp_port_used port (list_head pcbs (tcp S)) S;
     if used then Some True else tcp_lists_use port ls S }"

partial_function (option) tcp_port_again :: "u16 \<Rightarrow> 's tst \<Rightarrow> ('s tst \<times> u16) option" where
  "tcp_port_again n S = do {
     let port = (if tcp_port (tcp S) = TCP_LOCAL_PORT_RANGE_END then TCP_LOCAL_PORT_RANGE_START else tcp_port (tcp S) + 1);
     let S = upd_tcp (\<lambda>l. l\<lparr>tcp_port := port\<rparr>) S;
     used \<leftarrow> tcp_lists_use port tcp_pcb_lists S;
     if used then
       (if n + 1 > TCP_LOCAL_PORT_RANGE_END - TCP_LOCAL_PORT_RANGE_START then Some (S, 0) else tcp_port_again (n + 1) S)
     else Some (S, port) }"

definition tcp_new_port :: "'s tst \<Rightarrow> ('s tst \<times> u16) option" where
  "tcp_new_port S = tcp_port_again 0 S"

text \<open>Whether a block of a list is bound to the port and an address that overlaps.\<close>

partial_function (option) tcp_addr_used :: "u32 option \<Rightarrow> u16 \<Rightarrow> ptr \<Rightarrow> 's tst \<Rightarrow> bool option" where
  "tcp_addr_used ipaddr port u S =
     (if u \<noteq> NULL then
        (if t_local_port (tpcb S u) = port \<and>
            (t_local_ip (tpcb S u) = IPADDR_ANY \<or> ip_addr_isany ipaddr \<or> Some (t_local_ip (tpcb S u)) = ipaddr) then Some True
         else tcp_addr_used ipaddr port (t_next (tpcb S u)) S)
      else Some False)"

fun tcp_bind_check :: "u32 option \<Rightarrow> u16 \<Rightarrow> pcb_list list \<Rightarrow> 's tst \<Rightarrow> bool option" where
  "tcp_bind_check ipaddr port [] S = Some False"
| "tcp_bind_check ipaddr port (pcbs # ls) S = do {
     used \<leftarrow> tcp_addr_used ipaddr port (list_head pcbs (tcp S)) S;
     if used then Some True else tcp_bind_check ipaddr port ls S }"

definition tcp_bind :: "'s tcp_out \<Rightarrow> ptr \<Rightarrow> u32 option \<Rightarrow> u16 \<Rightarrow> 's tst \<Rightarrow> ('s tst \<times> err_t) option" where
  "tcp_bind io u ipaddr port S =
     (if t_state (tpcb S u) \<noteq> CLOSED then Some (S, ERR_VAL)
      else do {
        (S, port) \<leftarrow> (if port = 0 then tcp_new_port S else Some (S, port));
        if port = 0 then Some (S, ERR_BUF)
        else do {
          used \<leftarrow> tcp_bind_check ipaddr port tcp_pcb_lists S;
          if used then Some (S, ERR_USE)
          else
            let S = (if \<not> ip_addr_isany ipaddr then upd_tpcb u (\<lambda>b. b\<lparr>t_local_ip := the ipaddr\<rparr>) S else S);
                S = upd_tpcb u (\<lambda>b. b\<lparr>t_local_port := port\<rparr>) S
            in Some (TCP_REG io Bound u S, ERR_OK) } })"

definition tcp_listen_with_backlog :: "'s tcp_out \<Rightarrow> ptr \<Rightarrow> u8 \<Rightarrow> 's tst \<Rightarrow> ('s tst \<times> ptr) option" where
  "tcp_listen_with_backlog io u backlog S =
     (if t_state (tpcb S u) \<noteq> CLOSED then Some (S, NULL)
      else case memp_malloc_st MEMP_TCP_PCB_LISTEN S of (S, l) \<Rightarrow>
        if l = NULL then Some (S, NULL)
        else do {
          let c = tpcb S u;
          let S = upd_tpcb l (\<lambda>b. b\<lparr>t_callback_arg := t_callback_arg c, t_local_port := t_local_port c, t_state := LISTEN, t_prio := t_prio c,
                t_so_options := t_so_options c OR SOF_ACCEPTCONN, t_ttl := t_ttl c, t_tos := t_tos c, t_local_ip := t_local_ip c\<rparr>) S;
          S \<leftarrow> (if t_local_port c \<noteq> 0 then TCP_RMV Bound u S else Some S);
          let S = memp_free_st MEMP_TCP_PCB u S;
          let S = upd_tpcb l (\<lambda>b. b\<lparr>t_accept := Some TCP_ACCEPT_NULL\<rparr>) S;
          Some (TCP_REG io Listening l S, l) })"

subsection \<open>The receive window\<close>

definition tcp_update_rcv_ann_wnd :: "ptr \<Rightarrow> 's tst \<Rightarrow> 's tst \<times> u32" where
  "tcp_update_rcv_ann_wnd u S =
     (let b = tpcb S u;
          new_right_edge = t_rcv_nxt b + ucast (t_rcv_wnd b) in
      if TCP_SEQ_GEQ new_right_edge (t_rcv_ann_right_edge b + word_of_int (min (TCP_WND div 2) (uint (t_mss b)))) then
        (upd_tpcb u (\<lambda>b. b\<lparr>t_rcv_ann_wnd := t_rcv_wnd b\<rparr>) S, new_right_edge - t_rcv_ann_right_edge b)
      else
        (upd_tpcb u (\<lambda>b. b\<lparr>t_rcv_ann_wnd := (if TCP_SEQ_GT (t_rcv_nxt b) (t_rcv_ann_right_edge b) then 0
             else ucast (t_rcv_ann_right_edge b - t_rcv_nxt b))\<rparr>) S, 0))"

definition tcp_ack_now :: "ptr \<Rightarrow> 's tst \<Rightarrow> 's tst" where
  "tcp_ack_now u S = upd_tpcb u (\<lambda>b. b\<lparr>t_flags := t_flags b OR TF_ACK_NOW\<rparr>) S"

definition tcp_recved :: "'s tcp_out \<Rightarrow> ptr \<Rightarrow> u16 \<Rightarrow> 's tst \<Rightarrow> 's tst option" where
  "tcp_recved io u len S =
     (let S = upd_tpcb u (\<lambda>b. b\<lparr>t_rcv_wnd := t_rcv_wnd b + len\<rparr>) S;
          S = (if uint (t_rcv_wnd (tpcb S u)) > TCP_WND then upd_tpcb u (\<lambda>b. b\<lparr>t_rcv_wnd := word_of_int TCP_WND\<rparr>) S else S);
          (S, wnd_inflation) = tcp_update_rcv_ann_wnd u S
      in if sint wnd_inflation \<ge> TCP_WND_UPDATE_THRESHOLD then do {
           (S, err) \<leftarrow> tcp_output io u (tcp_ack_now u S);
           Some S }
         else Some S)"

subsection \<open>New blocks\<close>

definition tcp_next_iss :: "'s tst \<Rightarrow> 's tst \<times> u32" where
  "tcp_next_iss S =
     (let S = upd_tcp (\<lambda>l. l\<lparr>next_iss := next_iss l + tcp_ticks l\<rparr>) S in (S, next_iss (tcp S)))"

text \<open>The oldest block in TIME-WAIT, and the oldest active one of the lowest priority up to \<open>prio\<close>.\<close>

partial_function (option) oldest_timewait :: "ptr \<Rightarrow> u32 \<Rightarrow> ptr \<Rightarrow> 's tst \<Rightarrow> ptr option" where
  "oldest_timewait u inactivity inactive S =
     (if u \<noteq> NULL then
        (if tcp_ticks (tcp S) - t_tmr (tpcb S u) \<ge> inactivity
         then oldest_timewait (t_next (tpcb S u)) (tcp_ticks (tcp S) - t_tmr (tpcb S u)) u S
         else oldest_timewait (t_next (tpcb S u)) inactivity inactive S)
      else Some inactive)"

definition tcp_kill_timewait :: "'s tcp_out \<Rightarrow> 's tcp_calls \<Rightarrow> 's tst \<Rightarrow> 's tst option" where
  "tcp_kill_timewait io calls S = do {
     inactive \<leftarrow> oldest_timewait (tcp_tw_pcbs (tcp S)) 0 NULL S;
     if inactive \<noteq> NULL then tcp_abort io calls inactive S else Some S }"

partial_function (option) oldest_prio :: "u8 \<Rightarrow> ptr \<Rightarrow> u32 \<Rightarrow> ptr \<Rightarrow> u8 \<Rightarrow> 's tst \<Rightarrow> ptr option" where
  "oldest_prio prio u inactivity inactive mprio S =
     (if u \<noteq> NULL then
        (if t_prio (tpcb S u) \<le> prio \<and> t_prio (tpcb S u) \<le> mprio \<and> tcp_ticks (tcp S) - t_tmr (tpcb S u) \<ge> inactivity
         then oldest_prio prio (t_next (tpcb S u)) (tcp_ticks (tcp S) - t_tmr (tpcb S u)) u (t_prio (tpcb S u)) S
         else oldest_prio prio (t_next (tpcb S u)) inactivity inactive mprio S)
      else Some inactive)"

definition tcp_kill_prio :: "'s tcp_out \<Rightarrow> 's tcp_calls \<Rightarrow> u8 \<Rightarrow> 's tst \<Rightarrow> 's tst option" where
  "tcp_kill_prio io calls prio S = do {
     inactive \<leftarrow> oldest_prio prio (tcp_active_pcbs (tcp S)) 0 NULL TCP_PRIO_MAX S;
     if inactive \<noteq> NULL then tcp_abort io calls inactive S else Some S }"

text \<open>A block of zeros, as \<open>memset\<close> leaves it.\<close>

definition tcp_pcb_zero :: tcp_pcb where
  "tcp_pcb_zero = \<lparr>t_local_ip = 0, t_remote_ip = 0, t_so_options = 0, t_tos = 0, t_ttl = 0, t_next = NULL, t_callback_arg = NULL,
     t_accept = None, t_state = CLOSED, t_prio = 0, t_local_port = 0, t_remote_port = 0, t_flags = 0, t_polltmr = 0, t_pollinterval = 0,
     t_last_timer = 0, t_tmr = 0, t_rcv_nxt = 0, t_rcv_wnd = 0, t_rcv_ann_wnd = 0, t_rcv_ann_right_edge = 0, t_rtime = 0, t_mss = 0,
     t_rttest = 0, t_rtseq = 0, t_sa = 0, t_sv = 0, t_rto = 0, t_nrtx = 0, t_dupacks = 0, t_lastack = 0, t_cwnd = 0, t_ssthresh = 0,
     t_snd_nxt = 0, t_snd_wl1 = 0, t_snd_wl2 = 0, t_snd_lbb = 0, t_snd_wnd = 0, t_snd_wnd_max = 0, t_acked = 0, t_snd_buf = 0,
     t_snd_queuelen = 0, t_unsent_oversize = 0, t_unsent = NULL, t_unacked = NULL, t_refused_data = NULL, t_sent = None, t_recv = None,
     t_connected = None, t_poll = None, t_errf = None, t_keep_idle = 0, t_persist_cnt = 0, t_persist_backoff = 0, t_keep_cnt_sent = 0\<rparr>"

definition tcp_pcb_init :: "u8 \<Rightarrow> u32 \<Rightarrow> u32 \<Rightarrow> u8 \<Rightarrow> tcp_pcb" where
  "tcp_pcb_init prio iss ticks ctr =
     tcp_pcb_zero\<lparr>t_prio := prio, t_snd_buf := word_of_int TCP_SND_BUF, t_snd_queuelen := 0, t_rcv_wnd := word_of_int TCP_WND,
       t_rcv_ann_wnd := word_of_int TCP_WND, t_tos := 0, t_ttl := TCP_TTL, t_mss := (if TCP_MSS > 536 then 536 else word_of_int TCP_MSS),
       t_rto := of_nat (3000 div TCP_SLOW_INTERVAL), t_sa := 0, t_sv := of_nat (3000 div TCP_SLOW_INTERVAL), t_rtime := - 1, t_cwnd := 1,
       t_snd_wl2 := iss, t_snd_nxt := iss, t_lastack := iss, t_snd_lbb := iss, t_tmr := ticks, t_last_timer := ctr, t_polltmr := 0,
       t_recv := Some TCP_RECV_NULL, t_keep_idle := TCP_KEEPIDLE_DEFAULT, t_keep_cnt_sent := 0\<rparr>"

definition tcp_alloc :: "'s tcp_out \<Rightarrow> 's tcp_calls \<Rightarrow> u8 \<Rightarrow> 's tst \<Rightarrow> ('s tst \<times> ptr) option" where
  "tcp_alloc io calls prio S = do {
     let (S, u) = memp_malloc_st MEMP_TCP_PCB S;
     (S, u) \<leftarrow> (if u = NULL then do {
                  S \<leftarrow> tcp_kill_timewait io calls S;
                  let (S, u) = memp_malloc_st MEMP_TCP_PCB S;
                  if u = NULL then do {
                    S \<leftarrow> tcp_kill_prio io calls prio S;
                    Some (memp_malloc_st MEMP_TCP_PCB S) }
                  else Some (S, u) }
                else Some (S, u));
     if u \<noteq> NULL then
       let (S, iss) = tcp_next_iss S
       in Some (upd_tpcb u (\<lambda>_. tcp_pcb_init prio iss (tcp_ticks (tcp S)) (tcp_timer_ctr (tcp S))) S, u)
     else Some (S, NULL) }"

definition tcp_new :: "'s tcp_out \<Rightarrow> 's tcp_calls \<Rightarrow> 's tst \<Rightarrow> ('s tst \<times> ptr) option" where
  "tcp_new io calls S = tcp_alloc io calls TCP_PRIO_NORMAL S"

definition tcp_setprio :: "ptr \<Rightarrow> u8 \<Rightarrow> 's tst \<Rightarrow> 's tst" where
  "tcp_setprio u prio S = upd_tpcb u (\<lambda>b. b\<lparr>t_prio := prio\<rparr>) S"

definition tcp_arg :: "ptr \<Rightarrow> ptr \<Rightarrow> 's tst \<Rightarrow> 's tst" where
  "tcp_arg u arg S = upd_tpcb u (\<lambda>b. b\<lparr>t_callback_arg := arg\<rparr>) S"

definition tcp_recv :: "ptr \<Rightarrow> tcp_recv_fn option \<Rightarrow> 's tst \<Rightarrow> 's tst" where
  "tcp_recv u recv S = upd_tpcb u (\<lambda>b. b\<lparr>t_recv := recv\<rparr>) S"

definition tcp_sent :: "ptr \<Rightarrow> tcp_sent_fn option \<Rightarrow> 's tst \<Rightarrow> 's tst" where
  "tcp_sent u sent S = upd_tpcb u (\<lambda>b. b\<lparr>t_sent := sent\<rparr>) S"

definition tcp_err :: "ptr \<Rightarrow> tcp_err_fn option \<Rightarrow> 's tst \<Rightarrow> 's tst" where
  "tcp_err u err S = upd_tpcb u (\<lambda>b. b\<lparr>t_errf := err\<rparr>) S"

definition tcp_accept :: "ptr \<Rightarrow> tcp_accept_fn option \<Rightarrow> 's tst \<Rightarrow> 's tst" where
  "tcp_accept u accept S = upd_tpcb u (\<lambda>b. b\<lparr>t_accept := accept\<rparr>) S"

definition tcp_poll :: "ptr \<Rightarrow> tcp_poll_fn option \<Rightarrow> u8 \<Rightarrow> 's tst \<Rightarrow> 's tst" where
  "tcp_poll u poll interval S = upd_tpcb u (\<lambda>b. b\<lparr>t_poll := poll, t_pollinterval := interval\<rparr>) S"

definition tcp_eff_send_mss :: "u16 \<Rightarrow> u32 \<Rightarrow> 's tst \<Rightarrow> u16 option" where
  "tcp_eff_send_mss sendmss addr S = do {
     outif \<leftarrow> ip_route addr S;
     Some (if outif \<noteq> NULL \<and> n_mtu (nif S outif) \<noteq> 0
           then min sendmss (n_mtu (nif S outif) - word_of_int IP_HLEN - word_of_int TCP_HLEN) else sendmss) }"

definition tcp_connect :: "'s tcp_out \<Rightarrow> ptr \<Rightarrow> u32 option \<Rightarrow> u16 \<Rightarrow> nat option \<Rightarrow> 's tst \<Rightarrow> ('s tst \<times> err_t) option" where
  "tcp_connect io u ipaddr port connected S =
     (if t_state (tpcb S u) \<noteq> CLOSED then Some (S, ERR_ISCONN)
      else case ipaddr of None \<Rightarrow> Some (S, ERR_VAL)
      | Some dest \<Rightarrow> do {
          let S = upd_tpcb u (\<lambda>b. b\<lparr>t_remote_ip := dest, t_remote_port := port\<rparr>) S;
          netif \<leftarrow> (if t_local_ip (tpcb S u) = IPADDR_ANY then ip_route dest S else Some NULL);
          if t_local_ip (tpcb S u) = IPADDR_ANY \<and> netif = NULL then Some (S, ERR_RTE)
          else do {
            let S = (if t_local_ip (tpcb S u) = IPADDR_ANY then upd_tpcb u (\<lambda>b. b\<lparr>t_local_ip := n_ip_addr (nif S netif)\<rparr>) S else S);
            let old_local_port = t_local_port (tpcb S u);
            S \<leftarrow> (if old_local_port = 0 then do {
                    (S, p) \<leftarrow> tcp_new_port S;
                    Some (upd_tpcb u (\<lambda>b. b\<lparr>t_local_port := p\<rparr>) S) }
                  else Some S);
            if t_local_port (tpcb S u) = 0 then Some (S, ERR_BUF)
            else do {
              let (S, iss) = tcp_next_iss S;
              let S = upd_tpcb u (\<lambda>b. b\<lparr>t_rcv_nxt := 0, t_snd_nxt := iss, t_lastack := iss - 1, t_snd_lbb := iss - 1,
                    t_rcv_wnd := word_of_int TCP_WND, t_rcv_ann_wnd := word_of_int TCP_WND, t_rcv_ann_right_edge := 0,
                    t_snd_wnd := word_of_int TCP_WND, t_mss := (if TCP_MSS > 536 then 536 else word_of_int TCP_MSS)\<rparr>) S;
              mss \<leftarrow> tcp_eff_send_mss (t_mss (tpcb S u)) dest S;
              let S = upd_tpcb u (\<lambda>b. b\<lparr>t_mss := mss, t_cwnd := 1, t_ssthresh := mss * 10, t_connected := connected\<rparr>) S;
              (S, ret) \<leftarrow> tcp_enqueue_flags io u TCP_SYN S;
              if ret = ERR_OK then do {
                let S = upd_tpcb u (\<lambda>b. b\<lparr>t_state := SYN_SENT\<rparr>) S;
                S \<leftarrow> (if old_local_port \<noteq> 0 then TCP_RMV Bound u S else Some S);
                (S, ign) \<leftarrow> tcp_output io u (TCP_REG_ACTIVE io u S);
                Some (S, ret) }
              else Some (S, ret) } } })"

subsection \<open>Callbacks and timers\<close>

definition tcp_recv_null :: "'s tcp_out \<Rightarrow> ptr \<Rightarrow> ptr \<Rightarrow> err_t \<Rightarrow> 's tst \<Rightarrow> ('s tst \<times> err_t) option" where
  "tcp_recv_null io u p err S =
     (if p \<noteq> NULL then do {
        S \<leftarrow> tcp_recved io u (ptot (netw S) p) S;
        S \<leftarrow> free_packet p S;
        Some (S, ERR_OK) }
      else if err = ERR_OK then tcp_close io u S
      else Some (S, ERR_OK))"

definition TCP_EVENT_RECV :: "'s tcp_out \<Rightarrow> 's tcp_calls \<Rightarrow> ptr \<Rightarrow> ptr \<Rightarrow> err_t \<Rightarrow> 's tst \<Rightarrow> ('s tst \<times> err_t) option" where
  "TCP_EVENT_RECV io calls u p err S =
     (case t_recv (tpcb S u) of
        Some M_TCP_SERVER_RECV \<Rightarrow> call_recv calls (t_callback_arg (tpcb S u)) u p err S
      | _ \<Rightarrow> tcp_recv_null io u p err S)"

definition TCP_EVENT_CLOSED :: "'s tcp_out \<Rightarrow> 's tcp_calls \<Rightarrow> ptr \<Rightarrow> 's tst \<Rightarrow> ('s tst \<times> err_t) option" where
  "TCP_EVENT_CLOSED io calls u S =
     (case t_recv (tpcb S u) of None \<Rightarrow> Some (S, ERR_OK)
      | Some M_TCP_SERVER_RECV \<Rightarrow> call_recv calls (t_callback_arg (tpcb S u)) u NULL ERR_OK S
      | Some TCP_RECV_NULL \<Rightarrow> tcp_recv_null io u NULL ERR_OK S)"

definition TCP_EVENT_POLL :: "'s tcp_calls \<Rightarrow> ptr \<Rightarrow> 's tst \<Rightarrow> ('s tst \<times> err_t) option" where
  "TCP_EVENT_POLL calls u S =
     (case t_poll (tpcb S u) of None \<Rightarrow> Some (S, ERR_OK) | Some f \<Rightarrow> call_poll calls (t_callback_arg (tpcb S u)) u S)"

definition tcp_process_refused_data :: "'s tcp_out \<Rightarrow> 's tcp_calls \<Rightarrow> ptr \<Rightarrow> 's tst \<Rightarrow> ('s tst \<times> err_t) option" where
  "tcp_process_refused_data io calls u S = do {
     let refused_data = t_refused_data (tpcb S u);
     let refused_flags = p_flags (pbufs (netw S) refused_data);
     let S = upd_tpcb u (\<lambda>b. b\<lparr>t_refused_data := NULL\<rparr>) S;
     (S, err) \<leftarrow> TCP_EVENT_RECV io calls u refused_data ERR_OK S;
     if err = ERR_OK then
       (if refused_flags AND PBUF_FLAG_TCP_FIN \<noteq> 0 then do {
          let S = (if uint (t_rcv_wnd (tpcb S u)) \<noteq> TCP_WND then upd_tpcb u (\<lambda>b. b\<lparr>t_rcv_wnd := t_rcv_wnd b + 1\<rparr>) S else S);
          (S, err) \<leftarrow> TCP_EVENT_CLOSED io calls u S;
          Some (S, if err = ERR_ABRT then ERR_ABRT else ERR_OK) }
        else Some (S, ERR_OK))
     else if err = ERR_ABRT then Some (S, ERR_ABRT)
     else Some (upd_tpcb u (\<lambda>b. b\<lparr>t_refused_data := refused_data\<rparr>) S, ERR_OK) }"

text \<open>
  The loop of \<open>tcp_fasttmr\<close>; a changed list starts it again. The code does not go on to the next
  block when it meets one that it has seen in this round.
\<close>

partial_function (option) fast_loop :: "'s tcp_out \<Rightarrow> 's tcp_calls \<Rightarrow> ptr \<Rightarrow> 's tst \<Rightarrow> 's tst option" where
  "fast_loop io calls u S =
     (if u = NULL then Some S
      else if t_last_timer (tpcb S u) \<noteq> tcp_timer_ctr (tcp S) then do {
        let S = upd_tpcb u (\<lambda>b. b\<lparr>t_last_timer := tcp_timer_ctr (tcp S)\<rparr>) S;
        S \<leftarrow> (if t_flags (tpcb S u) AND TF_ACK_DELAY \<noteq> 0 then do {
                (S, ign) \<leftarrow> tcp_output io u (tcp_ack_now u S);
                Some (upd_tpcb u (\<lambda>b. b\<lparr>t_flags := t_flags b AND NOT (TF_ACK_DELAY OR TF_ACK_NOW)\<rparr>) S) }
              else Some S);
        let nu = t_next (tpcb S u);
        if t_refused_data (tpcb S u) \<noteq> NULL then do {
          (S, ign) \<leftarrow> tcp_process_refused_data io calls u (set_changed 0 S);
          if tcp_active_pcbs_changed (tcp S) \<noteq> 0 then fast_loop io calls (tcp_active_pcbs (tcp S)) S
          else fast_loop io calls nu S }
        else fast_loop io calls nu S }
      else fast_loop io calls u S)"

definition tcp_fasttmr :: "'s tcp_out \<Rightarrow> 's tcp_calls \<Rightarrow> 's tst \<Rightarrow> 's tst option" where
  "tcp_fasttmr io calls S =
     (let S = upd_tcp (\<lambda>l. l\<lparr>tcp_timer_ctr := tcp_timer_ctr l + 1\<rparr>) S
      in fast_loop io calls (tcp_active_pcbs (tcp S)) S)"


text \<open>The retransmission timer of an active block ran out.\<close>

definition slow_rexmit :: "'s tcp_out \<Rightarrow> ptr \<Rightarrow> 's tst \<Rightarrow> 's tst option" where
  "slow_rexmit io u S = do {
     let b = tpcb S u;
     rto \<leftarrow> (if t_state b = SYN_SENT then Some (t_rto b)
             else if unat (t_nrtx b) < length tcp_backoff
             then Some (word_of_int ((sint (t_sa b) div 8 + sint (t_sv b)) * 2 ^ (tcp_backoff ! unat (t_nrtx b)))) else None);
     let ssthresh = drop_bit 1 (min (t_cwnd b) (t_snd_wnd b));
     let twice = 2 * uint (t_mss b);
     tcp_rexmit_rto io u (upd_tpcb u (\<lambda>b. b\<lparr>t_rto := rto, t_rtime := 0,
        t_ssthresh := (if uint ssthresh < twice then word_of_int twice else ssthresh), t_cwnd := t_mss b\<rparr>) S) }"

text \<open>The timers of one active block: the new state, and whether the block is to be removed.\<close>

definition slow_retries :: "'s tcp_out \<Rightarrow> ptr \<Rightarrow> 's tst \<Rightarrow> ('s tst \<times> bool) option" where
  "slow_retries io u S =
     (let b = tpcb S u in
      if t_state b = SYN_SENT \<and> t_nrtx b = TCP_SYNMAXRTX \<or> t_nrtx b = TCP_MAXRTX then Some (S, True)
      else if t_persist_backoff b > 0 then
        (let S = upd_tpcb u (\<lambda>b. b\<lparr>t_persist_cnt := t_persist_cnt b + 1\<rparr>) S;
             k = unat (t_persist_backoff b) - 1
         in if k < length tcp_persist_backoff then
              (if t_persist_cnt (tpcb S u) \<ge> tcp_persist_backoff ! k then do {
                 S \<leftarrow> tcp_zero_window_probe io u (upd_tpcb u (\<lambda>b. b\<lparr>t_persist_cnt := 0,
                        t_persist_backoff := (if unat (t_persist_backoff b) < length tcp_persist_backoff then t_persist_backoff b + 1 else t_persist_backoff b)\<rparr>) S);
                 Some (S, False) }
               else Some (S, False))
            else None)
      else
        (let S = (if sint (t_rtime b) \<ge> 0 then upd_tpcb u (\<lambda>b. b\<lparr>t_rtime := t_rtime b + 1\<rparr>) S else S)
         in if t_unacked (tpcb S u) \<noteq> NULL \<and> sint (t_rtime (tpcb S u)) \<ge> sint (t_rto (tpcb S u))
            then do { S \<leftarrow> slow_rexmit io u S; Some (S, False) } else Some (S, False)))"

definition elapsed :: "ptr \<Rightarrow> 's tst \<Rightarrow> nat" where
  "elapsed u S = unat (tcp_ticks (tcp S) - t_tmr (tpcb S u))"

definition fin_wait_stuck :: "ptr \<Rightarrow> 's tst \<Rightarrow> bool" where
  "fin_wait_stuck u S \<longleftrightarrow> t_state (tpcb S u) = FIN_WAIT_2 \<and> t_flags (tpcb S u) AND TF_RXCLOSED \<noteq> 0
     \<and> elapsed u S > TCP_FIN_WAIT_TIMEOUT div TCP_SLOW_INTERVAL"

definition slow_timeouts :: "ptr \<Rightarrow> 's tst \<Rightarrow> bool" where
  "slow_timeouts u S \<longleftrightarrow>
     t_state (tpcb S u) = SYN_RCVD \<and> elapsed u S > TCP_SYN_RCVD_TIMEOUT div TCP_SLOW_INTERVAL
     \<or> t_state (tpcb S u) = LAST_ACK \<and> elapsed u S > 2 * TCP_MSL div TCP_SLOW_INTERVAL"

text \<open>Keep-alive: the state, and whether the connection is dead and to be reset.\<close>

definition slow_keepalive :: "'s tcp_out \<Rightarrow> ptr \<Rightarrow> 's tst \<Rightarrow> ('s tst \<times> bool) option" where
  "slow_keepalive io u S =
     (let b = tpcb S u in
      if t_so_options b AND SOF_KEEPALIVE \<noteq> 0 \<and> (t_state b = ESTABLISHED \<or> t_state b = CLOSE_WAIT) then
        (if elapsed u S > unat (t_keep_idle b + TCP_KEEPCNT_DEFAULT * TCP_KEEPINTVL_DEFAULT) div TCP_SLOW_INTERVAL then Some (S, True)
         else if elapsed u S > unat (t_keep_idle b + ucast (t_keep_cnt_sent b) * TCP_KEEPINTVL_DEFAULT) div TCP_SLOW_INTERVAL then do {
           S \<leftarrow> tcp_keepalive io u S;
           Some (upd_tpcb u (\<lambda>b. b\<lparr>t_keep_cnt_sent := t_keep_cnt_sent b + 1\<rparr>) S, False) }
         else Some (S, False))
      else Some (S, False))"

definition unlink_pcb :: "pcb_list \<Rightarrow> ptr \<Rightarrow> ptr \<Rightarrow> 's tst \<Rightarrow> 's tst" where
  "unlink_pcb pcbs prev u S =
     (if prev \<noteq> NULL then upd_tpcb prev (\<lambda>b. b\<lparr>t_next := t_next (tpcb S u)\<rparr>) S
      else upd_tcp (set_head pcbs (t_next (tpcb S u))) S)"

partial_function (option) slow_loop :: "'s tcp_out \<Rightarrow> 's tcp_calls \<Rightarrow> ptr \<Rightarrow> ptr \<Rightarrow> 's tst \<Rightarrow> 's tst option" where
  "slow_loop io calls prev u S =
     (if u = NULL then Some S
      else if t_last_timer (tpcb S u) = tcp_timer_ctr (tcp S) then slow_loop io calls prev (t_next (tpcb S u)) S
      else do {
        let S = upd_tpcb u (\<lambda>b. b\<lparr>t_last_timer := tcp_timer_ctr (tcp S)\<rparr>) S;
        (S, tired) \<leftarrow> slow_retries io u S;
        let stuck = fin_wait_stuck u S;
        (S, dead) \<leftarrow> slow_keepalive io u S;
        if tired \<or> stuck \<or> dead \<or> slow_timeouts u S then do {
          S \<leftarrow> tcp_pcb_purge u S;
          let S = unlink_pcb Active prev u S;
          let b = tpcb S u;
          S \<leftarrow> (if dead then tcp_rst io (t_snd_nxt b) (t_rcv_nxt b) (t_local_ip b) (t_remote_ip b) (t_local_port b) (t_remote_port b) S
                else Some S);
          let b = tpcb S u;
          S \<leftarrow> TCP_EVENT_ERR calls (t_errf b) (t_callback_arg b) ERR_ABRT (set_changed 0 (memp_free_st MEMP_TCP_PCB u S));
          if tcp_active_pcbs_changed (tcp S) \<noteq> 0 then slow_loop io calls NULL (tcp_active_pcbs (tcp S)) S
          else slow_loop io calls prev (t_next b) S }
        else do {
          let nu = t_next (tpcb S u);
          let S = upd_tpcb u (\<lambda>b. b\<lparr>t_polltmr := t_polltmr b + 1\<rparr>) S;
          if t_polltmr (tpcb S u) \<ge> t_pollinterval (tpcb S u) then do {
            let S = set_changed 0 (upd_tpcb u (\<lambda>b. b\<lparr>t_polltmr := 0\<rparr>) S);
            (S, err) \<leftarrow> TCP_EVENT_POLL calls u S;
            if tcp_active_pcbs_changed (tcp S) \<noteq> 0 then slow_loop io calls NULL (tcp_active_pcbs (tcp S)) S
            else do {
              S \<leftarrow> (if err = ERR_OK then do { (S, ign) \<leftarrow> tcp_output io u S; Some S } else Some S);
              slow_loop io calls u nu S } }
          else slow_loop io calls u nu S } })"

partial_function (option) timewait_loop :: "ptr \<Rightarrow> ptr \<Rightarrow> 's tst \<Rightarrow> 's tst option" where
  "timewait_loop prev u S =
     (if u = NULL then Some S
      else if elapsed u S > 2 * TCP_MSL div TCP_SLOW_INTERVAL then do {
        S \<leftarrow> tcp_pcb_purge u S;
        let S = unlink_pcb Time_Wait prev u S;
        let nu = t_next (tpcb S u);
        timewait_loop prev nu (memp_free_st MEMP_TCP_PCB u S) }
      else timewait_loop u (t_next (tpcb S u)) S)"

definition tcp_slowtmr :: "'s tcp_out \<Rightarrow> 's tcp_calls \<Rightarrow> 's tst \<Rightarrow> 's tst option" where
  "tcp_slowtmr io calls S = do {
     let S = upd_tcp (\<lambda>l. l\<lparr>tcp_ticks := tcp_ticks l + 1, tcp_timer_ctr := tcp_timer_ctr l + 1\<rparr>) S;
     S \<leftarrow> slow_loop io calls NULL (tcp_active_pcbs (tcp S)) S;
     timewait_loop NULL (tcp_tw_pcbs (tcp S)) S }"

definition tcp_tmr :: "'s tcp_out \<Rightarrow> 's tcp_calls \<Rightarrow> 's tst \<Rightarrow> 's tst option" where
  "tcp_tmr io calls S = do {
     S \<leftarrow> tcp_fasttmr io calls S;
     let S = upd_tcp (\<lambda>l. l\<lparr>tcp_timer := tcp_timer l + 1\<rparr>) S;
     if tcp_timer (tcp S) AND 1 \<noteq> 0 then tcp_slowtmr io calls S else Some S }"

end
