(* ===== verification/Tcp_Udp_Server.thy ===== *)
theory Tcp_Udp_Server
  imports Tcp Linked_List Ip_Addr Key
begin

text \<open>
  Model of LWIP/lwip_app/tcp_udp_server/tcp_udp_server.c, the server. Its state is the last layer of
  the stack: the list of clients (theory Linked_List) with the other fields of \<open>TcpClientInfo\<close>, the
  control blocks of the two UDP ports, and the buffer of \<open>ipaddr_ntoa\<close>. A \<open>TcpClientInfo\<close> is an
  object from \<open>mem_malloc\<close> to \<open>mem_free\<close>: outside that time its node is no object of the list memory,
  and an access to it is \<open>None\<close>. The addresses that the linker gives to static objects and string
  literals are the record \<open>image\<close>. The output half of TCP is the parameter \<open>tcp_out\<close>,
  \<open>lwip_periodic_handle\<close> and the pins are parameters of the main loop. Printing on the serial
  line has no effect on the state, but for the buffer of \<open>ipaddr_ntoa\<close>.
\<close>

unbundle bit_operations_syntax

subsection \<open>Data\<close>

record image =
  m_tcpClientList :: ptr
  m_udpInfos :: ptr
  sprintBuff :: ptr
  hello_tcp :: ptr       \<comment> \<open>Hello TCP, with CR and LF\<close>
  hello_udp0 :: ptr      \<comment> \<open>Hello from udp 0, with CR and LF\<close>
  hello_another :: ptr   \<comment> \<open>Hello from another udp, with CR and LF\<close>
  hello_unknown :: ptr   \<comment> \<open>Hello from unknown udp, with CR and LF\<close>

record server =
  clients :: list_mem
  info_pcb :: "ptr \<Rightarrow> ptr"
  info_sendBuf :: "ptr \<Rightarrow> ptr"
  udp_info_pcb :: "nat \<Rightarrow> ptr"
  ntoa_str :: "u8 list"

type_synonym sst = "server tst"

definition SIZEOF_TcpClientInfo :: int where "SIZEOF_TcpClientInfo = 16"
definition SIZEOF_UdpInfo :: int where "SIZEOF_UdpInfo = 8"
definition TCP_SERVER_PORT :: u16 where "TCP_SERVER_PORT = 8088"
definition UDP_PORT0 :: u16 where "UDP_PORT0 = 1234"
definition UDP_PORT1 :: u16 where "UDP_PORT1 = 1235"

abbreviation srv :: "sst \<Rightarrow> server" where "srv S \<equiv> serv (tcp S)"

definition upd_srv :: "(server \<Rightarrow> server) \<Rightarrow> sst \<Rightarrow> sst" where
  "upd_srv f S = upd_tcp (\<lambda>l. l\<lparr>serv := f (serv l)\<rparr>) S"

text \<open>An access through a pointer to a \<open>TcpClientInfo\<close>.\<close>

definition live_info :: "ptr \<Rightarrow> sst \<Rightarrow> bool" where
  "live_info info S \<longleftrightarrow> nodes (clients (srv S)) info \<noteq> None"

definition get_pcb :: "ptr \<Rightarrow> sst \<Rightarrow> ptr option" where
  "get_pcb info S = (if live_info info S then Some (info_pcb (srv S) info) else None)"

definition get_sendBuf :: "ptr \<Rightarrow> sst \<Rightarrow> ptr option" where
  "get_sendBuf info S = (if live_info info S then Some (info_sendBuf (srv S) info) else None)"

definition set_sendBuf :: "ptr \<Rightarrow> ptr \<Rightarrow> sst \<Rightarrow> sst option" where
  "set_sendBuf info p S =
     (if live_info info S then Some (upd_srv (\<lambda>v. v\<lparr>info_sendBuf := (info_sendBuf v)(info := p)\<rparr>) S) else None)"

text \<open>
  \<open>mem_malloc(sizeof(*info))\<close> and \<open>mem_free(info)\<close>. The fields of a new object are not initialised;
  the links, given here as null, are stored before they are read.
\<close>

definition info_malloc :: "sst \<Rightarrow> (sst \<times> ptr) option" where
  "info_malloc S = do {
     (H, p) \<leftarrow> mem_malloc SIZEOF_TcpClientInfo (mheap (netw S));
     let S = S\<lparr>netw := (netw S)\<lparr>mheap := H\<rparr>\<rparr>;
     Some (if p = NULL then S
           else upd_srv (\<lambda>v. v\<lparr>clients := (clients v)\<lparr>nodes := (nodes (clients v))(p \<mapsto> \<lparr>prev = NULL, nxt = NULL\<rparr>)\<rparr>\<rparr>) S, p) }"

definition info_free :: "ptr \<Rightarrow> sst \<Rightarrow> sst" where
  "info_free info S =
     (let S = S\<lparr>netw := (netw S)\<lparr>mheap := mem_free info (mheap (netw S))\<rparr>\<rparr>
      in upd_srv (\<lambda>v. v\<lparr>clients := (clients v)\<lparr>nodes := (nodes (clients v))(info := None)\<rparr>\<rparr>) S)"

definition on_clients :: "(list_mem \<Rightarrow> list_mem option) \<Rightarrow> sst \<Rightarrow> sst option" where
  "on_clients f S = do { c \<leftarrow> f (clients (srv S)); Some (upd_srv (\<lambda>v. v\<lparr>clients := c\<rparr>) S) }"

definition client_remove :: "image \<Rightarrow> ptr \<Rightarrow> sst \<Rightarrow> sst option" where
  "client_remove im info = on_clients (\<lambda>c. do { (c, r) \<leftarrow> list_remove (m_tcpClientList im) info c; Some c })"

subsection \<open>Sending\<close>

partial_function (option) send_loop :: "server tcp_out \<Rightarrow> ptr \<Rightarrow> err_t \<Rightarrow> sst \<Rightarrow> sst option" where
  "send_loop io info wr_err S = do {
     p \<leftarrow> get_sendBuf info S;
     u \<leftarrow> get_pcb info S;
     if wr_err = ERR_OK \<and> p \<noteq> NULL \<and> plen (netw S) p \<le> t_snd_buf (tpcb S u) then do {
       (S, wr_err) \<leftarrow> tcp_write io u (pay S p) (plen (netw S) p) TCP_WRITE_FLAG_COPY S;
       S \<leftarrow> (if wr_err = ERR_OK then do {
               let len = plen (netw S) p;
               let q = pnx (netw S) p;
               S \<leftarrow> set_sendBuf info q S;
               let S = (if q \<noteq> NULL then S\<lparr>netw := pbuf_ref q (netw S)\<rparr> else S);
               S \<leftarrow> free_packet p S;
               u \<leftarrow> get_pcb info S;
               tcp_recved io u len S }
             else if wr_err = ERR_MEM then set_sendBuf info p S
             else Some S);
       u \<leftarrow> get_pcb info S;
       (S, ign) \<leftarrow> tcp_output io u S;
       send_loop io info wr_err S }
     else Some S }"

definition tcp_sendBuf :: "server tcp_out \<Rightarrow> ptr \<Rightarrow> sst \<Rightarrow> sst option" where
  "tcp_sendBuf io info S = send_loop io info ERR_OK S"

definition tcp_sendData :: "server tcp_out \<Rightarrow> ptr \<Rightarrow> ptr \<Rightarrow> int \<Rightarrow> sst \<Rightarrow> sst option" where
  "tcp_sendData io info data len S = do {
     (N, p) \<leftarrow> pbuf_alloc PBUF_TRANSPORT (word_of_int len) PBUF_POOL (netw S);
     S \<leftarrow> set_sendBuf info p (S\<lparr>netw := N\<rparr>);
     (N, ign) \<leftarrow> pbuf_take p data (word_of_int len) (netw S);
     tcp_sendBuf io info (S\<lparr>netw := N\<rparr>) }"

subsection \<open>Callbacks\<close>

text \<open>Printing an address goes through the buffer of \<open>ipaddr_ntoa\<close>.\<close>

definition print_addr :: "ptr \<Rightarrow> sst \<Rightarrow> sst" where
  "print_addr u S = upd_srv (\<lambda>v. v\<lparr>ntoa_str := fst (ipaddr_ntoa (t_remote_ip (tpcb S u)) (ntoa_str v))\<rparr>) S"

definition m_tcp_server_accept :: "image \<Rightarrow> ptr \<Rightarrow> ptr \<Rightarrow> err_t \<Rightarrow> sst \<Rightarrow> (sst \<times> err_t) option" where
  "m_tcp_server_accept im arg clientPcb err S = do {
     let S = tcp_setprio clientPcb TCP_PRIO_MIN (print_addr clientPcb S);
     (S, info) \<leftarrow> info_malloc S;
     if info = NULL then Some (S, ERR_MEM)
     else do {
       let S = upd_srv (\<lambda>v. v\<lparr>info_pcb := (info_pcb v)(info := clientPcb), info_sendBuf := (info_sendBuf v)(info := NULL)\<rparr>) S;
       S \<leftarrow> on_clients (list_append (m_tcpClientList im) info) S;
       let S = tcp_arg clientPcb info S;
       let S = tcp_recv clientPcb (Some M_TCP_SERVER_RECV) S;
       let S = tcp_err clientPcb (Some M_TCP_SERVER_ERROR) S;
       let S = tcp_poll clientPcb (Some M_TCP_SERVER_POLL) 1 S;
       let S = tcp_sent clientPcb (Some M_TCP_SERVER_SENT) S;
       Some (S, ERR_OK)
     } }"

definition m_tcp_server_recv :: "image \<Rightarrow> server tcp_out \<Rightarrow> ptr \<Rightarrow> ptr \<Rightarrow> ptr \<Rightarrow> err_t \<Rightarrow> sst \<Rightarrow> (sst \<times> err_t) option" where
  "m_tcp_server_recv im io arg clientPcb p err S =
     (if p = NULL then do {
        S \<leftarrow> client_remove im arg (print_addr clientPcb S);
        (S, ign) \<leftarrow> tcp_close io clientPcb S;
        Some (S, ERR_OK) }
      else do {
        len \<leftarrow> strlen (hello_tcp im) 0 (netw S);
        S \<leftarrow> tcp_sendData io arg (hello_tcp im) len S;
        S \<leftarrow> tcp_recved io clientPcb (ptot (netw S) p) S;
        S \<leftarrow> free_packet p S;
        Some (S, ERR_OK) })"

definition m_tcp_server_error :: "image \<Rightarrow> ptr \<Rightarrow> err_t \<Rightarrow> sst \<Rightarrow> sst option" where
  "m_tcp_server_error im arg err S =
     (if arg \<noteq> NULL then do { S \<leftarrow> client_remove im arg S; Some (info_free arg S) } else Some S)"

definition m_tcp_server_sent :: "server tcp_out \<Rightarrow> ptr \<Rightarrow> ptr \<Rightarrow> u16 \<Rightarrow> sst \<Rightarrow> (sst \<times> err_t) option" where
  "m_tcp_server_sent io arg u len S = do {
     p \<leftarrow> get_sendBuf arg S;
     S \<leftarrow> (if p \<noteq> NULL then tcp_sendBuf io arg S else Some S);
     Some (S, ERR_OK) }"

text \<open>The poll function aborts with the error callback of the block, which is the one above.\<close>

definition err_calls :: "image \<Rightarrow> server tcp_calls" where
  "err_calls im = \<lparr>call_accept = (\<lambda>_ _ _ _. None), call_connected = (\<lambda>_ _ _ _ _. None), call_recv = (\<lambda>_ _ _ _ _. None), call_sent = (\<lambda>_ _ _ _. None), call_poll = (\<lambda>_ _ _. None),
     call_err = m_tcp_server_error im\<rparr>"

definition m_tcp_server_poll :: "image \<Rightarrow> server tcp_out \<Rightarrow> ptr \<Rightarrow> ptr \<Rightarrow> sst \<Rightarrow> (sst \<times> err_t) option" where
  "m_tcp_server_poll im io arg u S =
     (if arg = NULL then do { S \<leftarrow> tcp_abort io (err_calls im) u S; Some (S, ERR_ABRT) } else Some (S, ERR_OK))"

definition server_calls :: "image \<Rightarrow> server tcp_out \<Rightarrow> server tcp_calls" where
  "server_calls im io = \<lparr>call_accept = m_tcp_server_accept im, call_connected = (\<lambda>_ _ _ _ _. None), call_recv = m_tcp_server_recv im io, call_sent = m_tcp_server_sent io,
     call_poll = m_tcp_server_poll im io, call_err = m_tcp_server_error im\<rparr>"

definition m_udp_demo_recv :: "image \<Rightarrow> server tcp_layer udp_layer ip_ops \<Rightarrow> ptr \<Rightarrow> ptr \<Rightarrow> ptr \<Rightarrow> u32 \<Rightarrow> u16 \<Rightarrow> sst \<Rightarrow> sst option" where
  "m_udp_demo_recv im ops arg upcb p addr port S =
     (if p = NULL then Some (udp_disconnect upcb S)
      else do {
        let dataToSend = (if arg = m_udpInfos im then hello_udp0 im
              else if arg = m_udpInfos im + SIZEOF_UdpInfo then hello_another im else hello_unknown im);
        len \<leftarrow> strlen dataToSend 0 (netw S);
        (N, bufToSend) \<leftarrow> pbuf_alloc PBUF_TRANSPORT (word_of_int len) PBUF_POOL (netw S);
        let S = S\<lparr>netw := N\<rparr>;
        S \<leftarrow> (if bufToSend \<noteq> NULL then do {
                let S = S\<lparr>netw := upd_pbuf bufToSend (\<lambda>b. b\<lparr>p_payload := dataToSend\<rparr>) (netw S)\<rparr>;
                (S, ign) \<leftarrow> udp_sendto ops upcb bufToSend addr port S;
                free_packet bufToSend S }
              else Some S);
        free_packet p S })"

subsection \<open>The server\<close>

definition udp_port_of :: "nat \<Rightarrow> u16" where
  "udp_port_of i = [UDP_PORT0, UDP_PORT1] ! i"

text \<open>Binding the UDP ports: whether all went well, and the state.\<close>

fun bind_udps :: "image \<Rightarrow> nat list \<Rightarrow> sst \<Rightarrow> (sst \<times> bool) option" where
  "bind_udps im [] S = Some (S, True)"
| "bind_udps im (i # ks) S =
     (case udp_new S of (S, u) \<Rightarrow>
        let S = upd_srv (\<lambda>v. v\<lparr>udp_info_pcb := (udp_info_pcb v)(i := u)\<rparr>) S in
        if u = NULL then Some (S, False)
        else do {
          (S, err) \<leftarrow> udp_bind u IPADDR_ANY (udp_port_of i) S;
          if err \<noteq> ERR_OK then Some (S, False)
          else bind_udps im ks (udp_recv u (Some M_UDP_DEMO_RECV) (m_udpInfos im + SIZEOF_UdpInfo * int i) S) })"

text \<open>
  \<open>tcp_udp_test\<close> up to its endless loop: the state, the listening block, and whether the loop is
  entered. A listening block that cannot be made is not noticed: the store through the null pointer
  is \<open>None\<close>.
\<close>

definition tcp_udp_start :: "image \<Rightarrow> server tcp_out \<Rightarrow> sst \<Rightarrow> (sst \<times> ptr \<times> bool) option" where
  "tcp_udp_start im io S = do {
     S \<leftarrow> on_clients (list_init (m_tcpClientList im)) S;
     (S, tcp) \<leftarrow> tcp_new io (server_calls im io) S;
     if tcp = NULL then Some (S, NULL, False)
     else do {
       (S, err) \<leftarrow> tcp_bind io tcp (Some IPADDR_ANY) TCP_SERVER_PORT S;
       if err \<noteq> ERR_OK then Some (S, NULL, False)
       else do {
         (S, conn) \<leftarrow> tcp_listen_with_backlog io tcp 0xff S;
         if conn = NULL then None
         else do {
           let S = tcp_accept conn (Some M_TCP_SERVER_ACCEPT) S;
           (S, ok) \<leftarrow> bind_udps im [0, 1] S;
           Some (S, conn, ok)
         } } } }"

fun decimal :: "nat \<Rightarrow> u8 list" where
  "decimal n = (if n < 10 then [of_nat (48 + n)] else decimal (n div 10) @ [of_nat (48 + n mod 10)])"

definition ascii :: "string \<Rightarrow> u8 list" where "ascii s = map (\<lambda>c. of_char c) s"

text \<open>The message for a client that KEY0 sends: \<open>sprintf\<close> into the buffer of 128 octets.\<close>

definition addr_line :: "u8 list \<Rightarrow> u16 \<Rightarrow> u8 list" where
  "addr_line addr port = ascii ''Your addr is '' @ addr @ ascii '':'' @ decimal (unat port) @ [13, 10]"

definition tell_client :: "image \<Rightarrow> server tcp_out \<Rightarrow> ptr \<Rightarrow> sst \<Rightarrow> sst option" where
  "tell_client im io node S = do {
     u \<leftarrow> get_pcb node S;
     let (str, ok) = ipaddr_ntoa (t_remote_ip (tpcb S u)) (ntoa_str (srv S));
     let S = upd_srv (\<lambda>v. v\<lparr>ntoa_str := str\<rparr>) S;
     let S = S\<lparr>netw := upd_bytes (put_bytes (sprintBuff im) (addr_line (cstring str) (t_remote_port (tpcb S u)) @ [0])) (netw S)\<rparr>;
     len \<leftarrow> strlen (sprintBuff im) 0 (netw S);
     tcp_sendData io node (sprintBuff im) len S }"

partial_function (option) tell_clients :: "image \<Rightarrow> server tcp_out \<Rightarrow> ptr \<Rightarrow> sst \<Rightarrow> sst option" where
  "tell_clients im io node S =
     (if node = m_tcpClientList im then Some S
      else do {
        S \<leftarrow> tell_client im io node S;
        d \<leftarrow> nodes (clients (srv S)) node;
        tell_clients im io (nxt d) S })"

text \<open>One round of the endless loop, with the key that \<open>KEY_Scan\<close> reports.\<close>

definition KEY0_PRES :: u8 where "KEY0_PRES = 1"

definition server_round :: "image \<Rightarrow> server tcp_out \<Rightarrow> (sst \<Rightarrow> sst option) \<Rightarrow> u8 \<Rightarrow> sst \<Rightarrow> sst option" where
  "server_round im io periodic key S = do {
     S \<leftarrow> (if key = KEY0_PRES then do {
             n \<leftarrow> list_size (m_tcpClientList im) (clients (srv S));
             if n = 0 then Some S
             else do {
               d \<leftarrow> nodes (clients (srv S)) (m_tcpClientList im);
               tell_clients im io (nxt d) S } }
           else Some S);
     periodic S }"

fun server_rounds :: "image \<Rightarrow> server tcp_out \<Rightarrow> (sst \<Rightarrow> sst option) \<Rightarrow> (pins \<times> pins) list \<Rightarrow> bool \<Rightarrow> sst \<Rightarrow> sst option" where
  "server_rounds im io periodic [] key_up S = Some S"
| "server_rounds im io periodic ((now, after) # ps) key_up S =
     (let (key_up, key) = KEY_Scan 0 now after key_up in
      do { S \<leftarrow> server_round im io periodic key S; server_rounds im io periodic ps key_up S })"

text \<open>
  \<open>m_tcp_server_remove_timewait\<close>, called only behind the endless loop: waits until no connection is
  active, then releases the blocks in TIME-WAIT.
\<close>

partial_function (option) wait_inactive :: "(sst \<Rightarrow> sst option) \<Rightarrow> sst \<Rightarrow> sst option" where
  "wait_inactive periodic S =
     (if tcp_active_pcbs (tcp S) \<noteq> NULL then do { S \<leftarrow> periodic S; wait_inactive periodic S } else Some S)"

partial_function (option) release_timewait :: "ptr \<Rightarrow> sst \<Rightarrow> sst option" where
  "release_timewait u S =
     (if u \<noteq> NULL then do {
        S \<leftarrow> tcp_pcb_purge u S;
        let nu = t_next (tpcb S u);
        let S = upd_tcp (\<lambda>l. l\<lparr>tcp_tw_pcbs := nu\<rparr>) S;
        release_timewait nu (memp_free_st MEMP_TCP_PCB u S) }
      else Some S)"

definition m_tcp_server_remove_timewait :: "(sst \<Rightarrow> sst option) \<Rightarrow> sst \<Rightarrow> sst option" where
  "m_tcp_server_remove_timewait periodic S = do {
     S \<leftarrow> wait_inactive periodic S;
     release_timewait (tcp_tw_pcbs (tcp S)) S }"

end
