(* ===== verification/Tcp_Lists.thy ===== *)
theory Tcp_Lists
  imports Tcp Echo
begin

text \<open>
  The four lists of TCP control blocks. \<open>pcbs_linked\<close> relates the heads and the links to lists without
  repetition that have no block in common; \<open>tcp_lists\<close> adds the state that the blocks of each list
  have (the axioms in tcp_impl.h). Lemmas: registration and removal, binding to a port, the expiry
  of TIME-WAIT, and the invariant along histories of calls of the application.
\<close>

subsection \<open>Selectors\<close>

lemma tcp_upd_tcp [simp]: "tcp (upd_tcp f S) = f (tcp S)"
  by (simp add: upd_tcp_def upd_udp_def upd_inet_def)

lemma upd_tcp_sel [simp]:
  "netw (upd_tcp f S) = netw S" "nif (upd_tcp f S) = nif S" "pcb_at (udp (upd_tcp f S)) = pcb_at (udp S)"
  by (simp_all add: upd_tcp_def upd_udp_def upd_inet_def)

lemma upd_tcp_upd_tcp [simp]: "upd_tcp g (upd_tcp f S) = upd_tcp (\<lambda>l. g (f l)) S"
  by (simp add: upd_tcp_def upd_udp_def upd_inet_def)

lemma tcp_upd_tpcb: "tcp (upd_tpcb u f S) = (tcp S)\<lparr>tcp_at := (tcp_at (tcp S))(u := f (tpcb S u))\<rparr>"
  by (simp add: upd_tpcb_def)

lemma tpcb_upd_tpcb [simp]: "tpcb (upd_tpcb u f S) v = (if v = u then f (tpcb S u) else tpcb S v)"
  by (simp add: tcp_upd_tpcb)

lemma upd_tpcb_sel [simp]: "netw (upd_tpcb u f S) = netw S" "nif (upd_tpcb u f S) = nif S"
  "list_head k (tcp (upd_tpcb u f S)) = list_head k (tcp S)" "tcp_ticks (tcp (upd_tpcb u f S)) = tcp_ticks (tcp S)"
  "tcp_timer_ctr (tcp (upd_tpcb u f S)) = tcp_timer_ctr (tcp S)" "tcp_port (tcp (upd_tpcb u f S)) = tcp_port (tcp S)"
  "serv (tcp (upd_tpcb u f S)) = serv (tcp S)" "tcp_active_pcbs_changed (tcp (upd_tpcb u f S)) = tcp_active_pcbs_changed (tcp S)"
  by (simp_all add: upd_tpcb_def) (cases k; simp)

lemma set_head_sel [simp]:
  "list_head j (set_head k p l) = (if j = k then p else list_head j l)" "tcp_at (set_head k p l) = tcp_at l"
  "tcp_ticks (set_head k p l) = tcp_ticks l" "serv (set_head k p l) = serv l"
  by (cases k; cases j; simp) (cases k; simp)+

lemma list_head_upd [simp]:
  "list_head k (l\<lparr>tcp_at := a\<rparr>) = list_head k l" "list_head k (l\<lparr>tcp_active_pcbs_changed := v\<rparr>) = list_head k l"
  "list_head k (l\<lparr>tcp_timer_ctr := v\<rparr>) = list_head k l" "list_head k (l\<lparr>tcp_timer := v\<rparr>) = list_head k l"
  "list_head k (l\<lparr>tcp_ticks := t\<rparr>) = list_head k l" "list_head k (l\<lparr>serv := s\<rparr>) = list_head k l"
  by (cases k; simp)+

lemma memp_st_sel [simp]:
  "tcp (memp_free_st t p S) = tcp S" "udp (memp_free_st t p S) = udp S" "pools (netw (memp_free_st t p S)) = memp_free t p (pools (netw S))"
  by (simp_all add: memp_free_st_def)

lemma set_changed_sel [simp]:
  "tcp_at (tcp (set_changed v S)) = tcp_at (tcp S)" "list_head k (tcp (set_changed v S)) = list_head k (tcp S)" "netw (set_changed v S) = netw S"
  "tcp_active_pcbs_changed (tcp (set_changed v S)) = v"
  by (simp_all add: set_changed_def)

lemma set_changed_more [simp]: "tcp_timer_ctr (tcp (set_changed v S)) = tcp_timer_ctr (tcp S)" "tcp_ticks (tcp (set_changed v S)) = tcp_ticks (tcp S)"
  "serv (tcp (set_changed v S)) = serv (tcp S)" "nif (set_changed v S) = nif S"
  by (simp_all add: set_changed_def)

lemma heads_sel [simp]:
  "tcp_active_pcbs (tcp (upd_tpcb u f S)) = tcp_active_pcbs (tcp S)" "tcp_tw_pcbs (tcp (upd_tpcb u f S)) = tcp_tw_pcbs (tcp S)"
  "tcp_bound_pcbs (tcp (upd_tpcb u f S)) = tcp_bound_pcbs (tcp S)" "tcp_listen_pcbs (tcp (upd_tpcb u f S)) = tcp_listen_pcbs (tcp S)"
  "tcp_active_pcbs (tcp (set_changed v S)) = tcp_active_pcbs (tcp S)" "tcp_tw_pcbs (tcp (set_changed v S)) = tcp_tw_pcbs (tcp S)"
  "tcp_bound_pcbs (tcp (set_changed v S)) = tcp_bound_pcbs (tcp S)" "tcp_listen_pcbs (tcp (set_changed v S)) = tcp_listen_pcbs (tcp S)"
  by (simp_all add: tcp_upd_tpcb set_changed_def)

subsection \<open>Lists of blocks\<close>

abbreviation links :: "'s tst \<Rightarrow> ptr \<Rightarrow> ptr" where "links S \<equiv> \<lambda>u. t_next (tpcb S u)"

definition pcbs_linked :: "(pcb_list \<Rightarrow> ptr list) \<Rightarrow> 's tst \<Rightarrow> bool" where
  "pcbs_linked L S \<longleftrightarrow> (\<forall>k. free_list (links S) (list_head k (tcp S)) (L k) \<and> distinct (L k))
     \<and> (\<forall>j k. j \<noteq> k \<longrightarrow> set (L j) \<inter> set (L k) = {})"

fun in_state :: "pcb_list \<Rightarrow> tcp_state \<Rightarrow> bool" where
  "in_state Listening s \<longleftrightarrow> s = LISTEN"
| "in_state Bound s \<longleftrightarrow> s = CLOSED"
| "in_state Active s \<longleftrightarrow> s \<noteq> CLOSED \<and> s \<noteq> LISTEN \<and> s \<noteq> TIME_WAIT"
| "in_state Time_Wait s \<longleftrightarrow> s = TIME_WAIT"

definition tcp_lists :: "(pcb_list \<Rightarrow> ptr list) \<Rightarrow> 's tst \<Rightarrow> bool" where
  "tcp_lists L S \<longleftrightarrow> pcbs_linked L S \<and> (\<forall>k. \<forall>u \<in> set (L k). in_state k (t_state (tpcb S u)))"

lemma free_list_not_null: "free_list nxt p us \<Longrightarrow> 0 \<notin> set us"
  by (induction us arbitrary: p) auto

lemma pcbs_linkedD: "pcbs_linked L S \<Longrightarrow> free_list (links S) (list_head k (tcp S)) (L k)" "pcbs_linked L S \<Longrightarrow> distinct (L k)"
  "pcbs_linked L S \<Longrightarrow> j \<noteq> k \<Longrightarrow> u \<in> set (L j) \<Longrightarrow> u \<notin> set (L k)" "pcbs_linked L S \<Longrightarrow> 0 \<notin> set (L k)"
  using free_list_not_null by (fastforce simp: pcbs_linked_def)+

text \<open>Changes that leave the links alone.\<close>

lemma pcbs_linked_cong:
  assumes "pcbs_linked L S" "\<And>k. list_head k (tcp T) = list_head k (tcp S)" "\<And>k u. u \<in> set (L k) \<Longrightarrow> links T u = links S u"
  shows "pcbs_linked L T"
proof -
  have "free_list (links T) (list_head k (tcp T)) (L k)" for k
    unfolding assms(2) using free_list_frame [of "L k" "links T" "links S"] assms(3) pcbs_linkedD(1) [OF assms(1), of k] by blast
  then show ?thesis using assms(1) by (simp add: pcbs_linked_def)
qed

lemma pcbs_linked_upd: "pcbs_linked L S \<Longrightarrow> t_next (f (tpcb S u)) = t_next (tpcb S u) \<Longrightarrow> pcbs_linked L (upd_tpcb u f S)"
  by (erule pcbs_linked_cong) auto

definition still_timer :: "'s tcp_out \<Rightarrow> bool" where
  "still_timer io \<longleftrightarrow> (\<forall>S. tcp (tcp_timer_needed io S) = tcp S \<and> netw (tcp_timer_needed io S) = netw S)"

lemma tcp_reg_linked:
  assumes l: "pcbs_linked L S" and t: "still_timer io" and u: "u \<noteq> NULL" "\<And>j. u \<notin> set (L j)"
  shows "pcbs_linked (L(k := u # L k)) (TCP_REG io k u S)"
    and "tpcb (TCP_REG io k u S) v = (if v = u then (tpcb S u)\<lparr>t_next := list_head k (tcp S)\<rparr> else tpcb S v)"
    and "netw (TCP_REG io k u S) = netw S"
proof -
  let ?S = "TCP_REG io k u S"
  have h: "list_head j (tcp ?S) = (if j = k then u else list_head j (tcp S))" for j
    using t by (simp add: TCP_REG_def still_timer_def Let_def)
  show at: "tpcb ?S v = (if v = u then (tpcb S u)\<lparr>t_next := list_head k (tcp S)\<rparr> else tpcb S v)" for v
    using t by (simp add: TCP_REG_def still_timer_def Let_def)
  show "netw ?S = netw S" using t by (simp add: TCP_REG_def still_timer_def Let_def)
  have f: "free_list (links ?S) p (L j) = free_list (links S) p (L j)" for p j
    by (rule free_list_frame) (use u(2) at in auto)
  have n: "links ?S u = list_head k (tcp S)" by (simp add: at)
  have "free_list (links ?S) (list_head j (tcp ?S)) ((L(k := u # L k)) j)" for j
    using f [of "list_head j (tcp S)" j] pcbs_linkedD(1) [OF l, of j] u(1) n by (cases "j = k") (simp_all add: h)
  then show "pcbs_linked (L(k := u # L k)) ?S" using l u(2) by (auto simp: pcbs_linked_def)
qed

lemma rmv_loop_run:
  "free_list (links S) v us \<Longrightarrow> distinct us \<Longrightarrow> u \<in> set (tl us) \<Longrightarrow> u \<noteq> NULL \<Longrightarrow>
   \<exists>w ws vs. us = ws @ w # u # vs \<and> rmv_loop u v S = Some (upd_tpcb w (\<lambda>b. b\<lparr>t_next := t_next (tpcb S u)\<rparr>) S)"
proof (induction us arbitrary: v)
  case (Cons x xs)
  then have x: "v = x" "x \<noteq> NULL" "free_list (links S) (t_next (tpcb S x)) xs" "distinct xs" "u \<in> set xs" by auto
  show ?case
  proof (cases "t_next (tpcb S x) = u")
    case True
    then have "xs = u # tl xs" using x(3,5) by (cases xs) auto
    then show ?thesis using True x(1,2) by (intro exI [of _ x] exI [of _ "[]"] exI [of _ "tl xs"]) (subst rmv_loop.simps, simp)
  next
    case False
    then have "u \<in> set (tl xs)" using x(3,5) by (cases xs) auto
    from Cons.IH [OF x(3,4) this Cons.prems(4)] obtain w ws vs where
      w: "xs = ws @ w # u # vs" "rmv_loop u (t_next (tpcb S x)) S = Some (upd_tpcb w (\<lambda>b. b\<lparr>t_next := t_next (tpcb S u)\<rparr>) S)" by blast
    then show ?thesis using False x(1,2)
      by (intro exI [of _ w] exI [of _ "x # ws"] exI [of _ vs]) (subst rmv_loop.simps, simp)
  qed
qed simp

lemma free_list_skip:
  assumes "free_list nxt p (ws @ w # u # vs)" "distinct (ws @ w # u # vs)"
  shows "free_list (nxt(w := nxt u)) p (ws @ w # vs)"
  using assms
proof (induction ws arbitrary: p)
  case Nil
  then have "free_list (nxt(w := nxt u)) (nxt u) vs = free_list nxt (nxt u) vs" by (intro free_list_frame) auto
  then show ?case unfolding append_Nil free_list.simps fun_upd_same using Nil by (intro conjI) auto
qed auto

text \<open>The block is taken out of its list; no other block but its predecessor changes.\<close>

lemma tcp_rmv_linked:
  assumes l: "pcbs_linked L S" and u: "u \<in> set (L k)"
  shows "\<exists>T. TCP_RMV k u S = Some T \<and> pcbs_linked (L(k := remove1 u (L k))) T \<and> netw T = netw S
    \<and> (\<forall>v. tpcb T v = (tpcb S v)\<lparr>t_next := t_next (tpcb T v)\<rparr>) \<and> (\<forall>v. (\<forall>j. v \<notin> set (L j)) \<longrightarrow> tpcb T v = tpcb S v)
    \<and> tcp_ticks (tcp T) = tcp_ticks (tcp S) \<and> serv (tcp T) = serv (tcp S)"
proof (cases "list_head k (tcp S) = u")
  case True
  define T where "T = upd_tpcb u (\<lambda>b. b\<lparr>t_next := NULL\<rparr>) (upd_tcp (\<lambda>l. set_head k (t_next (tcp_at l (list_head k l))) l) S)"
  obtain us where us: "L k = u # us" using u pcbs_linkedD(1) [OF l, of k] True by (cases "L k") auto
  have r: "TCP_RMV k u S = Some T" using True by (simp add: TCP_RMV_def T_def)
  have h: "list_head j (tcp T) = (if j = k then t_next (tpcb S u) else list_head j (tcp S))" for j using True by (simp add: T_def)
  have at: "tpcb T v = (if v = u then (tpcb S u)\<lparr>t_next := NULL\<rparr> else tpcb S v)" for v by (simp add: T_def)
  have "free_list (links T) p (L j) = free_list (links S) p (L j)" if "j \<noteq> k" for p j
    by (rule free_list_frame) (use u pcbs_linkedD(3) [OF l, of j k] that at in auto)
  moreover have "free_list (links T) p us = free_list (links S) p us" for p
    by (rule free_list_frame) (use pcbs_linkedD(2) [OF l, of k] us at in auto)
  ultimately have "free_list (links T) (list_head j (tcp T)) ((L(k := us)) j)" for j
    using pcbs_linkedD(1) [OF l, of j] pcbs_linkedD(1) [OF l, of k] us True by (auto simp: h)
  moreover have "distinct ((L(k := us)) j)" "set ((L(k := us)) j) \<subseteq> set (L j)" for j using pcbs_linkedD(2) [OF l, of j] us by auto
  ultimately have "pcbs_linked (L(k := us)) T" using l unfolding pcbs_linked_def by blast
  moreover have "tpcb T v = tpcb S v" if "\<forall>j. v \<notin> set (L j)" for v using at u that by (cases "v = u") auto
  ultimately show ?thesis using r us at by (intro exI [of _ T]) (simp add: T_def)
next
  case False
  let ?us = "L k"
  have "u \<in> set (tl ?us)" using u False pcbs_linkedD(1) [OF l, of k] by (cases ?us) auto
  from rmv_loop_run [OF pcbs_linkedD(1) [OF l, of k] pcbs_linkedD(2) [OF l, of k] this] obtain w ws vs where
    w: "?us = ws @ w # u # vs" "rmv_loop u (list_head k (tcp S)) S = Some (upd_tpcb w (\<lambda>b. b\<lparr>t_next := t_next (tpcb S u)\<rparr>) S)"
    using pcbs_linkedD(4) [OF l, of k] u by metis
  define T where "T = upd_tpcb u (\<lambda>b. b\<lparr>t_next := NULL\<rparr>) (upd_tpcb w (\<lambda>b. b\<lparr>t_next := t_next (tpcb S u)\<rparr>) S)"
  have r: "TCP_RMV k u S = Some T" using False w(2) by (simp add: TCP_RMV_def T_def)
  have d: "distinct (ws @ w # u # vs)" using pcbs_linkedD(2) [OF l, of k] w(1) by simp
  then have wu: "w \<noteq> u" "remove1 u ?us = ws @ w # vs" unfolding w(1) by (auto simp: remove1_append)
  have at: "tpcb T v = (if v = u then (tpcb S u)\<lparr>t_next := NULL\<rparr> else if v = w then (tpcb S w)\<lparr>t_next := t_next (tpcb S u)\<rparr> else tpcb S v)" for v
    using wu(1) by (simp add: T_def)
  have h: "list_head j (tcp T) = list_head j (tcp S)" for j by (simp add: T_def)
  have "free_list (links T) p (L j) = free_list (links S) p (L j)" if "j \<noteq> k" for p j
    by (rule free_list_frame) (use pcbs_linkedD(3) [OF l that] w(1) at in auto)
  moreover have "free_list (links T) p (ws @ w # vs) = free_list ((links S)(w := links S u)) p (ws @ w # vs)" for p
    by (rule free_list_frame) (use d at in auto)
  then have "free_list (links T) (list_head k (tcp S)) (ws @ w # vs)"
    using free_list_skip [OF _ d] pcbs_linkedD(1) [OF l, of k] w(1) by simp
  ultimately have "free_list (links T) (list_head j (tcp T)) ((L(k := ws @ w # vs)) j)" for j
    using pcbs_linkedD(1) [OF l, of j] by (auto simp: h)
  moreover have "distinct ((L(k := ws @ w # vs)) j)" "set ((L(k := ws @ w # vs)) j) \<subseteq> set (L j)" for j
    using pcbs_linkedD(2) [OF l, of j] d w(1) by auto
  ultimately have "pcbs_linked (L(k := ws @ w # vs)) T" using l unfolding pcbs_linked_def by blast
  moreover have "tpcb T v = tpcb S v" if "\<forall>j. v \<notin> set (L j)" for v
  proof -
    have "v \<noteq> u" "v \<noteq> w" using u w(1) that by (blast, metis in_set_conv_decomp)
    then show ?thesis by (simp add: at)
  qed
  ultimately show ?thesis using r wu(2) at by (intro exI [of _ T]) (simp add: T_def)
qed


subsection \<open>Ports\<close>

lemma tcp_port_used_run:
  "free_list (links S) u us \<Longrightarrow> tcp_port_used port u S = Some (\<exists>x \<in> set us. t_local_port (tpcb S x) = port)"
  by (induction us arbitrary: u) (subst tcp_port_used.simps, auto)+

lemma tcp_addr_used_run:
  "free_list (links S) u us \<Longrightarrow> tcp_addr_used ip port u S = Some (\<exists>x \<in> set us. t_local_port (tpcb S x) = port \<and>
     (t_local_ip (tpcb S x) = IPADDR_ANY \<or> ip_addr_isany ip \<or> Some (t_local_ip (tpcb S x)) = ip))"
  by (induction us arbitrary: u) (subst tcp_addr_used.simps, auto)+

definition port_taken :: "(pcb_list \<Rightarrow> ptr list) \<Rightarrow> u16 \<Rightarrow> 's tst \<Rightarrow> bool" where
  "port_taken L port S \<longleftrightarrow> (\<exists>k. \<exists>x \<in> set (L k). t_local_port (tpcb S x) = port)"

definition addr_taken :: "(pcb_list \<Rightarrow> ptr list) \<Rightarrow> u32 option \<Rightarrow> u16 \<Rightarrow> 's tst \<Rightarrow> bool" where
  "addr_taken L ip port S \<longleftrightarrow> (\<exists>k. \<exists>x \<in> set (L k). t_local_port (tpcb S x) = port \<and>
     (t_local_ip (tpcb S x) = IPADDR_ANY \<or> ip_addr_isany ip \<or> Some (t_local_ip (tpcb S x)) = ip))"

lemma all_lists: "set tcp_pcb_lists = UNIV"
proof -
  have "k \<in> set tcp_pcb_lists" for k by (cases k) (simp_all add: tcp_pcb_lists_def)
  then show ?thesis by blast
qed

lemma tcp_lists_use_run:
  assumes "pcbs_linked L S"
  shows "tcp_lists_use port ks S = Some (\<exists>k \<in> set ks. \<exists>x \<in> set (L k). t_local_port (tpcb S x) = port)"
  by (induction ks) (auto simp: tcp_port_used_run [OF pcbs_linkedD(1) [OF assms]])

lemma tcp_bind_check_run:
  assumes "pcbs_linked L S"
  shows "tcp_bind_check ip port tcp_pcb_lists S = Some (addr_taken L ip port S)"
proof -
  have "tcp_bind_check ip port ks S = Some (\<exists>k \<in> set ks. \<exists>x \<in> set (L k). t_local_port (tpcb S x) = port \<and>
     (t_local_ip (tpcb S x) = IPADDR_ANY \<or> ip_addr_isany ip \<or> Some (t_local_ip (tpcb S x)) = ip))" for ks
    by (induction ks) (auto simp: tcp_addr_used_run [OF pcbs_linkedD(1) [OF assms]])
  then show ?thesis using all_lists by (simp add: addr_taken_def)
qed

text \<open>The search for a free port goes round the dynamic ports once.\<close>

definition next_port :: "u16 \<Rightarrow> u16" where
  "next_port p = (if p = TCP_LOCAL_PORT_RANGE_END then TCP_LOCAL_PORT_RANGE_START else p + 1)"

definition with_port :: "u16 \<Rightarrow> 's tst \<Rightarrow> 's tst" where
  "with_port p S = upd_tcp (\<lambda>l. l\<lparr>tcp_port := p\<rparr>) S"

lemma with_port_sel [simp]: "tpcb (with_port p S) = tpcb S" "list_head k (tcp (with_port p S)) = list_head k (tcp S)"
  "tcp_port (tcp (with_port p S)) = p" "with_port q (with_port p S) = with_port q S" "netw (with_port p S) = netw S"
  by (simp_all add: with_port_def) (cases k; simp)

lemma pcbs_linked_with_port [simp]: "pcbs_linked L (with_port p S) = pcbs_linked L S"
  by (simp add: pcbs_linked_def)

lemma port_taken_with_port [simp]: "port_taken L q (with_port p S) = port_taken L q S"
  by (simp add: port_taken_def)

lemma tcp_port_again_step:
  assumes "pcbs_linked L S"
  shows "tcp_port_again n S = (let p = next_port (tcp_port (tcp S)) in
     if port_taken L p S then (if n + 1 > 0x3FFF then Some (with_port p S, 0) else tcp_port_again (n + 1) (with_port p S))
     else Some (with_port p S, p))"
proof -
  have "tcp_lists_use p tcp_pcb_lists (with_port q S) = Some (port_taken L p S)" for p q
    using tcp_lists_use_run [of L "with_port q S" p tcp_pcb_lists] assms all_lists by (simp add: port_taken_def)
  then show ?thesis
    by (subst tcp_port_again.simps)
       (simp add: next_port_def with_port_def [symmetric] Let_def tcp_consts del: tcp_port_again.simps)
qed

definition dyn_port :: "nat \<Rightarrow> u16" where
  "dyn_port i = of_nat (0xC000 + i mod 0x4000)"

lemma unat_dyn_port: "unat (dyn_port i) = 0xC000 + i mod 0x4000"
proof -
  have "i mod 0x4000 < 0x4000" by simp
  then have "(0xC000 + i mod 0x4000) mod 65536 = 0xC000 + i mod 0x4000" by (intro mod_less) linarith
  then show ?thesis unfolding dyn_port_def by (simp only: unat_of_nat_u16)
qed

lemma next_dyn_port: "next_port (dyn_port i) = dyn_port (Suc i)"
proof (cases "Suc (i mod 0x4000) = 0x4000")
  case True
  then have "dyn_port i = 0xFFFF" "Suc i mod 0x4000 = 0" by (simp_all add: dyn_port_def mod_Suc)
  then show ?thesis by (simp add: next_port_def tcp_consts dyn_port_def [of "Suc i"])
next
  case False
  then have m: "Suc i mod 0x4000 = Suc (i mod 0x4000)" by (simp add: mod_Suc)
  have "i mod 0x4000 < 0x4000" by simp
  then have "unat (dyn_port i) \<noteq> unat (0xFFFF :: u16)" using False unfolding unat_dyn_port by simp
  then have "dyn_port i \<noteq> 0xFFFF" by metis
  then show ?thesis by (simp add: next_port_def tcp_consts dyn_port_def m)
qed

lemma port_is_dyn: "0xC000 \<le> (p :: u16) \<Longrightarrow> p = dyn_port (unat p - 0xC000)"
proof -
  assume "0xC000 \<le> p"
  then have "0xC000 \<le> unat p" by (simp add: word_le_nat_alt)
  then have "(unat p - 0xC000) mod 0x4000 = unat p - 0xC000" using unat_u16_less [of p] by (intro mod_less) linarith
  then show ?thesis using \<open>0xC000 \<le> unat p\<close> by (simp add: word_unat_eq_iff unat_dyn_port)
qed

lemma dyn_port_window: "0xC000 \<le> (p :: u16) \<Longrightarrow> \<exists>i < 0x4000. p = dyn_port (c + i)"
proof -
  assume p: "0xC000 \<le> p"
  define k where "k = unat p - 0xC000"
  define i where "i = (k + (0x4000 - c mod 0x4000)) mod 0x4000"
  have "k < 0x4000" using unat_u16_less [of p] unfolding k_def by linarith
  have "(c + i) mod 0x4000 = (c mod 0x4000 + (k + (0x4000 - c mod 0x4000))) mod 0x4000" 
    unfolding i_def by (simp only: mod_add_left_eq mod_add_right_eq)
  also have "c mod 0x4000 + (k + (0x4000 - c mod 0x4000)) = k + 0x4000"
    using mod_less_divisor [of "0x4000" c] by linarith
  finally have "(c + i) mod 0x4000 = k mod 0x4000" by simp
  then have "dyn_port (c + i) = dyn_port k" by (simp add: dyn_port_def)
  moreover have "i < 0x4000" by (simp add: i_def)
  ultimately show ?thesis using port_is_dyn [OF p] unfolding k_def by metis
qed

lemma tcp_port_again_run:
  assumes "pcbs_linked L S" "tcp_port (tcp S) = dyn_port c" "n + d = 0x4000" "0 < d"
  shows "\<exists>q r. tcp_port_again (of_nat n) S = Some (with_port q S, r) \<and>
    (r = 0 \<and> (\<forall>i < d. port_taken L (dyn_port (c + Suc i)) S) \<or> r = q \<and> 0xC000 \<le> r \<and> \<not> port_taken L r S)"
  using assms
proof (induction d arbitrary: n c S)
  case (Suc d)
  let ?p = "dyn_port (Suc c)"
  have p: "next_port (tcp_port (tcp S)) = ?p" using Suc.prems(2) by (simp add: next_dyn_port)
  note st = tcp_port_again_step [OF Suc.prems(1), of "of_nat n", unfolded p Let_def]
  consider "\<not> port_taken L ?p S" | "port_taken L ?p S" "d = 0" | "port_taken L ?p S" "0 < d" by blast
  then show ?case
  proof cases
    case 1
    moreover have "0xC000 \<le> ?p" by (simp add: word_le_nat_alt unat_dyn_port)
    ultimately show ?thesis unfolding st by (intro exI [of _ ?p]) simp
  next
    case 2
    then have "n = 0x3FFF" using Suc.prems(3) by simp
    then show ?thesis unfolding st using 2 by (intro exI [of _ ?p] exI [of _ 0]) simp
  next
    case 3
    then have n: "Suc n \<le> 0x3FFF" using Suc.prems(3) by simp
    then have "Suc n mod 65536 = Suc n" by (intro mod_less) linarith
    then have "unat (of_nat (Suc n) :: u16) = Suc n" by (simp only: unat_of_nat_u16)
    then have a: "unat (of_nat n + 1 :: u16) = Suc n" by (simp add: add.commute)
    have b: "unat (0x3FFF :: u16) = 0x3FFF" by simp
    have le: "\<not> (of_nat n + 1 :: u16) > 0x3FFF" unfolding word_less_nat_alt a b using n by linarith
    obtain q r where q: "tcp_port_again (of_nat (Suc n)) (with_port ?p S) = Some (with_port q S, r)"
      "r = 0 \<and> (\<forall>i < d. port_taken L (dyn_port (Suc c + Suc i)) S) \<or> r = q \<and> 0xC000 \<le> r \<and> \<not> port_taken L r S"
      using Suc.IH [of "with_port ?p S" "Suc c" "Suc n"] Suc.prems(1,3) 3(2) by auto
    have "port_taken L (dyn_port (c + Suc i)) S" if "i < Suc d" "\<forall>i < d. port_taken L (dyn_port (Suc c + Suc i)) S" for i
      using that 3(1) by (cases i) auto
    then show ?thesis unfolding st using 3(1) le q by (intro exI [of _ q] exI [of _ r]) (auto simp: add.commute)
  qed
qed simp

lemma tcp_new_port_run:
  assumes l: "pcbs_linked L S" and p: "0xC000 \<le> tcp_port (tcp S)"
  shows "\<exists>q r. tcp_new_port S = Some (with_port q S, r) \<and>
    (r = 0 \<and> (\<forall>p \<ge> 0xC000. port_taken L p S) \<or> r = q \<and> 0xC000 \<le> r \<and> \<not> port_taken L r S)"
proof -
  let ?c = "unat (tcp_port (tcp S)) - 0xC000"
  obtain q r where q: "tcp_port_again 0 S = Some (with_port q S, r)"
    "r = 0 \<and> (\<forall>i < 0x4000. port_taken L (dyn_port (?c + Suc i)) S) \<or> r = q \<and> 0xC000 \<le> r \<and> \<not> port_taken L r S"
    using tcp_port_again_run [OF l port_is_dyn [OF p], where n = 0 and d = "0x4000"] by auto
  have "port_taken L x S" if "\<forall>i < 0x4000. port_taken L (dyn_port (?c + Suc i)) S" "0xC000 \<le> x" for x
    using that(1) dyn_port_window [OF that(2), of "Suc ?c"] by auto
  then show ?thesis using q by (auto simp: tcp_new_port_def)
qed


subsection \<open>Binding\<close>

lemma tcp_lists_pcbs_linked: "tcp_lists L S \<Longrightarrow> pcbs_linked L S"
  by (simp add: tcp_lists_def)

lemma tcp_listsD: "tcp_lists L S \<Longrightarrow> v \<in> set (L k) \<Longrightarrow> in_state k (t_state (tpcb S v))"
  by (simp add: tcp_lists_def)

lemma tcp_bind_run:
  assumes "tcp_lists L S" "still_timer io" "u \<noteq> NULL" "\<And>k. u \<notin> set (L k)" "t_state (tpcb S u) = CLOSED" "port \<noteq> 0"
  shows "addr_taken L ip port S \<Longrightarrow> tcp_bind io u ip port S = Some (S, ERR_USE)"
    and "\<not> addr_taken L ip port S \<Longrightarrow> \<exists>T. tcp_bind io u ip port S = Some (T, ERR_OK) \<and> tcp_lists (L(Bound := u # L Bound)) T
      \<and> (\<exists>x. tpcb T u = (tpcb S u)\<lparr>t_local_port := port, t_local_ip := (if ip_addr_isany ip then t_local_ip (tpcb S u) else the ip),
           t_next := x\<rparr>) \<and> (\<forall>v. v \<noteq> u \<longrightarrow> tpcb T v = tpcb S v) \<and> netw T = netw S"
proof -
  note c = tcp_bind_check_run [OF tcp_lists_pcbs_linked [OF assms(1)], of ip port]
  show "addr_taken L ip port S \<Longrightarrow> tcp_bind io u ip port S = Some (S, ERR_USE)"
    using assms(5,6) c by (simp add: tcp_bind_def)
  assume free: "\<not> addr_taken L ip port S"
  define V where "V = (if \<not> ip_addr_isany ip then upd_tpcb u (\<lambda>b. b\<lparr>t_local_ip := the ip\<rparr>) S else S)"
  define U where "U = upd_tpcb u (\<lambda>b. b\<lparr>t_local_port := port\<rparr>) V"
  have U: "tpcb U v = (if v = u then (tpcb S u)\<lparr>t_local_port := port, t_local_ip := (if ip_addr_isany ip then t_local_ip (tpcb S u) else the ip)\<rparr> else tpcb S v)"
    "list_head k (tcp U) = list_head k (tcp S)" "netw U = netw S" for v k by (simp_all add: U_def V_def)
  have lU: "pcbs_linked L U" by (rule pcbs_linked_cong [OF tcp_lists_pcbs_linked [OF assms(1)]]) (simp_all add: U)
  define T where "T = TCP_REG io Bound u U"
  note reg = tcp_reg_linked [OF lU assms(2-4), of Bound, folded T_def]
  have "tcp_bind io u ip port S = Some (T, ERR_OK)" using assms(5,6) c free by (simp add: tcp_bind_def T_def U_def V_def Let_def)
  moreover have st: "t_state (tpcb T v) = t_state (tpcb S v)" for v using reg(2) [of v] U(1) by simp
  have "in_state k (t_state (tpcb S v))" if "v \<in> set ((L(Bound := u # L Bound)) k)" for k v
    using that assms(4,5) tcp_listsD [OF assms(1), of v k] by (cases "k = Bound"; cases "v = u") auto
  then have "tcp_lists (L(Bound := u # L Bound)) T" using reg(1) by (simp add: tcp_lists_def st)
  moreover have "\<exists>x. tpcb T u = (tpcb S u)\<lparr>t_local_port := port, t_local_ip := (if ip_addr_isany ip then t_local_ip (tpcb S u) else the ip),
           t_next := x\<rparr>" by (rule exI [of _ "list_head Bound (tcp U)"]) (simp add: reg(2) U)
  moreover have "tpcb T v = tpcb S v" if "v \<noteq> u" for v using that reg(2) [of v] U(1) by simp
  ultimately show "\<exists>T. tcp_bind io u ip port S = Some (T, ERR_OK) \<and> tcp_lists (L(Bound := u # L Bound)) T
      \<and> (\<exists>x. tpcb T u = (tpcb S u)\<lparr>t_local_port := port, t_local_ip := (if ip_addr_isany ip then t_local_ip (tpcb S u) else the ip),
           t_next := x\<rparr>) \<and> (\<forall>v. v \<noteq> u \<longrightarrow> tpcb T v = tpcb S v) \<and> netw T = netw S"
    using reg(3) U(3) by (intro exI [of _ T]) simp
qed

lemma tcp_lists_with_port: "tcp_lists L (with_port q S) = tcp_lists L S"
  by (simp add: tcp_lists_def)

lemma tcp_bind_any_port:
  assumes "tcp_lists L S" "0xC000 \<le> tcp_port (tcp S)" "t_state (tpcb S u) = CLOSED"
  shows "\<exists>q r. tcp_bind io u ip 0 S = (if r = 0 then Some (with_port q S, ERR_BUF) else tcp_bind io u ip r (with_port q S))
    \<and> (r = 0 \<and> (\<forall>p \<ge> 0xC000. port_taken L p S) \<or> r \<noteq> 0 \<and> 0xC000 \<le> r \<and> \<not> port_taken L r S)"
proof -
  obtain q r where q: "tcp_new_port S = Some (with_port q S, r)"
    "r = 0 \<and> (\<forall>p \<ge> 0xC000. port_taken L p S) \<or> r = q \<and> 0xC000 \<le> r \<and> \<not> port_taken L r S"
    using tcp_new_port_run [OF tcp_lists_pcbs_linked [OF assms(1)] assms(2)] by blast
  moreover have "r = q \<Longrightarrow> 0xC000 \<le> r \<Longrightarrow> r \<noteq> 0" by auto
  ultimately show ?thesis using assms(3) by (intro exI [of _ q] exI [of _ r]) (auto simp: tcp_bind_def)
qed

lemma taken_addr_port: "addr_taken L ip p S \<Longrightarrow> port_taken L p S"
  by (auto simp: addr_taken_def port_taken_def)

lemma addr_taken_with_port [simp]: "addr_taken L ip p (with_port q S) = addr_taken L ip p S"
  by (simp add: addr_taken_def)



subsection \<open>A block for a new connection\<close>

abbreviation idle_time :: "'s tst \<Rightarrow> ptr \<Rightarrow> u32" where
  "idle_time S u \<equiv> tcp_ticks (tcp S) - t_tmr (tpcb S u)"

fun oldest_of :: "(ptr \<Rightarrow> u32) \<Rightarrow> ptr list \<Rightarrow> u32 \<Rightarrow> ptr \<Rightarrow> ptr" where
  "oldest_of ag [] m i = i"
| "oldest_of ag (x # xs) m i = (if m \<le> ag x then oldest_of ag xs (ag x) x else oldest_of ag xs m i)"

lemma oldest_timewait_run:
  "free_list (links S) u us \<Longrightarrow> oldest_timewait u m i S = Some (oldest_of (idle_time S) us m i)"
  by (induction us arbitrary: u m i) (subst oldest_timewait.simps, auto)+

lemma oldest_of_split:
  "oldest_of ag us m i = i \<and> (\<forall>v \<in> set us. ag v < m)
   \<or> (\<exists>as r bs. us = as @ r # bs \<and> oldest_of ag us m i = r \<and> m \<le> ag r \<and> (\<forall>a \<in> set as. ag a \<le> ag r) \<and> (\<forall>b \<in> set bs. ag b < ag r))"
proof (induction us arbitrary: m i)
  case (Cons x xs)
  let ?m = "if m \<le> ag x then ag x else m" and ?i = "if m \<le> ag x then x else i"
  have e: "oldest_of ag (x # xs) m i = oldest_of ag xs ?m ?i" by simp
  from Cons.IH [of ?m ?i] show ?case
  proof (elim disjE exE conjE)
    assume a: "oldest_of ag xs ?m ?i = ?i" "\<forall>v \<in> set xs. ag v < ?m"
    show ?thesis
    proof (cases "m \<le> ag x")
      case True
      then show ?thesis unfolding e using a by (intro disjI2 exI [of _ "[]"] exI [of _ x] exI [of _ xs]) simp
    next
      case False
      then show ?thesis unfolding e using a by (intro disjI1) simp
    qed
  next
    fix as r bs
    assume a: "xs = as @ r # bs" "oldest_of ag xs ?m ?i = r" "?m \<le> ag r" "\<forall>a \<in> set as. ag a \<le> ag r" "\<forall>b \<in> set bs. ag b < ag r"
    have "m \<le> ag r" "ag x \<le> ag r" using a(3) by (auto split: if_splits)
    then show ?thesis unfolding e using a by (intro disjI2 exI [of _ "x # as"] exI [of _ r] exI [of _ bs]) simp
  qed
qed simp

lemma oldest_prio_none:
  "free_list (links S) u us \<Longrightarrow> \<forall>v \<in> set us. prio < t_prio (tpcb S v) \<Longrightarrow> oldest_prio prio u m i mp S = Some i"
  by (induction us arbitrary: u) (subst oldest_prio.simps, auto)+

text \<open>Aborting a block in TIME-WAIT: it leaves its list and goes back to the pool.\<close>

lemma abort_timewait_run:
  assumes l: "tcp_lists L S" and u: "u \<in> set (L Time_Wait)"
  shows "\<exists>T. tcp_abort io calls u S = Some T \<and> tcp_lists (L(Time_Wait := remove1 u (L Time_Wait))) T
    \<and> netw T = (netw S)\<lparr>pools := memp_free MEMP_TCP_PCB u (pools (netw S))\<rparr> \<and> tcp_ticks (tcp T) = tcp_ticks (tcp S) \<and> serv (tcp T) = serv (tcp S)
    \<and> (\<forall>v. v \<noteq> u \<longrightarrow> tpcb T v = (tpcb S v)\<lparr>t_next := t_next (tpcb T v)\<rparr>)"
proof -
  have st: "t_state (tpcb S u) = TIME_WAIT" using tcp_listsD [OF l u] by simp
  obtain R where R: "TCP_RMV Time_Wait u S = Some R" "pcbs_linked (L(Time_Wait := remove1 u (L Time_Wait))) R" "netw R = netw S"
    "\<forall>v. tpcb R v = (tpcb S v)\<lparr>t_next := t_next (tpcb R v)\<rparr>" "tcp_ticks (tcp R) = tcp_ticks (tcp S)" "serv (tcp R) = serv (tcp S)"
    using tcp_rmv_linked [OF tcp_lists_pcbs_linked [OF l] u] by blast
  have sR: "t_state (tpcb R v) = t_state (tpcb S v)" for v
    using R(4) [rule_format, of v] by (metis tcp_pcb.ext_inject tcp_pcb.surjective tcp_pcb.update_convs(6))
  define T where "T = memp_free_st MEMP_TCP_PCB u (upd_tpcb u (\<lambda>b. b\<lparr>t_state := CLOSED\<rparr>) R)"
  have "tcp_pcb_remove io Time_Wait u S = Some (upd_tpcb u (\<lambda>b. b\<lparr>t_state := CLOSED\<rparr>) R)"
    using R(1) sR st by (simp add: tcp_pcb_remove_def tcp_pcb_purge_def)
  then have "tcp_abort io calls u S = Some T" using st by (simp add: tcp_abort_def tcp_abandon_def T_def)
  moreover have at: "tpcb T v = (if v = u then (tpcb R u)\<lparr>t_state := CLOSED\<rparr> else tpcb R v)" for v by (simp add: T_def)
  moreover have "pcbs_linked (L(Time_Wait := remove1 u (L Time_Wait))) T"
    by (rule pcbs_linked_cong [OF R(2)]) (simp_all add: at T_def)
  moreover have "in_state k (t_state (tpcb T v))" if "v \<in> set ((L(Time_Wait := remove1 u (L Time_Wait))) k)" for k v
  proof -
    have d: "distinct (L Time_Wait)" using pcbs_linkedD(2) [OF tcp_lists_pcbs_linked [OF l]] .
    have "v \<noteq> u" using that pcbs_linkedD(3) [OF tcp_lists_pcbs_linked [OF l], of Time_Wait k u] u d by (auto split: if_splits)
    moreover have "v \<in> set (L k)" using that set_remove1_subset [of u "L Time_Wait"] by (auto split: if_splits)
    ultimately show ?thesis using tcp_listsD [OF l] sR at by simp
  qed
  moreover have "netw T = (netw S)\<lparr>pools := memp_free MEMP_TCP_PCB u (pools (netw S))\<rparr>" by (simp add: T_def memp_free_st_def R(3))
  moreover have "tcp_ticks (tcp T) = tcp_ticks (tcp S)" "serv (tcp T) = serv (tcp S)" by (simp_all add: T_def R)
  ultimately show ?thesis using R(4) unfolding tcp_lists_def by (intro exI [of _ T]) simp
qed

lemma tcp_new_recycles_run:
  assumes "tcp_lists L S" "memp_tab (pools (netw S)) MEMP_TCP_PCB = NULL"
  shows "L Time_Wait \<noteq> [] \<Longrightarrow> \<exists>T r as bs. tcp_new io calls S = Some (T, r) \<and> L Time_Wait = as @ r # bs
      \<and> (\<forall>a \<in> set as. idle_time S a \<le> idle_time S r) \<and> (\<forall>b \<in> set bs. idle_time S b < idle_time S r)
      \<and> tcp_lists (L(Time_Wait := as @ bs)) T \<and> t_state (tpcb T r) = CLOSED \<and> t_prio (tpcb T r) = TCP_PRIO_NORMAL
      \<and> t_tmr (tpcb T r) = tcp_ticks (tcp S) \<and> t_snd_nxt (tpcb T r) = next_iss (tcp T)
      \<and> (\<forall>v. v \<noteq> r \<longrightarrow> tpcb T v = (tpcb S v)\<lparr>t_next := t_next (tpcb T v)\<rparr>) \<and> memp_tab (pools (netw T)) MEMP_TCP_PCB = NULL"
    and "L Time_Wait = [] \<Longrightarrow> \<forall>u \<in> set (L Active). TCP_PRIO_NORMAL < t_prio (tpcb S u) \<Longrightarrow> tcp_new io calls S = Some (S, NULL)"
proof -
  note l = tcp_lists_pcbs_linked [OF assms(1)]
  have m: "memp_malloc_st MEMP_TCP_PCB S = (S, NULL)" using assms(2) by (simp add: memp_malloc_st_def memp_malloc_def)
  {
    assume ne: "L Time_Wait \<noteq> []"
    have f: "free_list (links S) (tcp_tw_pcbs (tcp S)) (L Time_Wait)" using pcbs_linkedD(1) [OF l, of Time_Wait] by simp
    define r where "r = oldest_of (idle_time S) (L Time_Wait) 0 NULL"
    have "\<not> (\<forall>v \<in> set (L Time_Wait). idle_time S v < 0)" using ne by (cases "L Time_Wait") auto
    then obtain as bs where rs: "L Time_Wait = as @ r # bs" "\<forall>a \<in> set as. idle_time S a \<le> idle_time S r" "\<forall>b \<in> set bs. idle_time S b < idle_time S r"
      using oldest_of_split [of "idle_time S" "L Time_Wait" 0 NULL] unfolding r_def [symmetric] by blast
    note r = oldest_timewait_run [OF f, of 0 NULL, folded r_def] rs
    have r0: "r \<noteq> NULL" using pcbs_linkedD(4) [OF l, of Time_Wait] r(2) by auto
    have rm: "remove1 r (L Time_Wait) = as @ bs" using pcbs_linkedD(2) [OF l, of Time_Wait] unfolding r(2) by (simp add: remove1_append)
    obtain V where V: "tcp_abort io calls r S = Some V" "tcp_lists (L(Time_Wait := as @ bs)) V"
      "netw V = (netw S)\<lparr>pools := memp_free MEMP_TCP_PCB r (pools (netw S))\<rparr>" "tcp_ticks (tcp V) = tcp_ticks (tcp S)"
      "\<forall>v. v \<noteq> r \<longrightarrow> tpcb V v = (tpcb S v)\<lparr>t_next := t_next (tpcb V v)\<rparr>"
      using abort_timewait_run [OF assms(1), of r io calls] r(2) unfolding rm by auto
    define U where "U = V\<lparr>netw := (netw V)\<lparr>pools := (pools (netw V))\<lparr>memp_tab := (memp_tab (pools (netw S)))\<rparr>\<rparr>\<rparr>"
    have mV: "memp_malloc_st MEMP_TCP_PCB V = (U, r)"
      using assms(2) r0 unfolding memp_malloc_st_def memp_malloc_def U_def
      by (simp add: V(3) memp_free_def fun_upd_idem)
    obtain iss W where W: "tcp_next_iss U = (W, iss)" by fastforce
    have sU: "tcp U = tcp V" by (simp add: U_def)
    have sW: "tpcb W = tpcb V" "list_head k (tcp W) = list_head k (tcp V)" "tcp_ticks (tcp W) = tcp_ticks (tcp S)" "netw W = netw U" "iss = next_iss (tcp W)" for k
      using W V(4) by (auto simp: tcp_next_iss_def Let_def sU) (cases k; simp)
    define T where "T = upd_tpcb r (\<lambda>_. tcp_pcb_init TCP_PRIO_NORMAL iss (tcp_ticks (tcp W)) (tcp_timer_ctr (tcp W))) W"
    have "tcp_new io calls S = Some (T, r)"
      using r0 by (simp add: tcp_new_def tcp_alloc_def m tcp_kill_timewait_def r(1) V(1) mV W T_def)
    moreover have at: "tpcb T v = (if v = r then tcp_pcb_init TCP_PRIO_NORMAL iss (tcp_ticks (tcp W)) (tcp_timer_ctr (tcp W)) else tpcb V v)" for v
      by (simp add: T_def sW(1))
    moreover have nr: "r \<notin> set ((L(Time_Wait := as @ bs)) k)" for k
      using pcbs_linkedD(2) [OF l, of Time_Wait] pcbs_linkedD(3) [OF l, of Time_Wait k r] r(2) by auto
    have "pcbs_linked (L(Time_Wait := as @ bs)) T"
    proof (rule pcbs_linked_cong [OF tcp_lists_pcbs_linked [OF V(2)]])
      show "list_head k (tcp T) = list_head k (tcp V)" for k by (simp add: T_def sW(2))
      show "links T v = links V v" if "v \<in> set ((L(Time_Wait := as @ bs)) k)" for k v
        using that nr [of k] by (simp only: at) (cases "v = r"; simp)
    qed
    then have "tcp_lists (L(Time_Wait := as @ bs)) T"
      using nr tcp_listsD [OF V(2)] unfolding tcp_lists_def by (metis at)
    moreover have "memp_tab (pools (netw T)) MEMP_TCP_PCB = NULL" using assms(2) by (simp add: T_def sW(4) U_def)
    moreover have "next_iss (tcp T) = iss" by (simp add: T_def sW(5) tcp_upd_tpcb)
    ultimately show "\<exists>T r as bs. tcp_new io calls S = Some (T, r) \<and> L Time_Wait = as @ r # bs
      \<and> (\<forall>a \<in> set as. idle_time S a \<le> idle_time S r) \<and> (\<forall>b \<in> set bs. idle_time S b < idle_time S r)
      \<and> tcp_lists (L(Time_Wait := as @ bs)) T \<and> t_state (tpcb T r) = CLOSED \<and> t_prio (tpcb T r) = TCP_PRIO_NORMAL
      \<and> t_tmr (tpcb T r) = tcp_ticks (tcp S) \<and> t_snd_nxt (tpcb T r) = next_iss (tcp T)
      \<and> (\<forall>v. v \<noteq> r \<longrightarrow> tpcb T v = (tpcb S v)\<lparr>t_next := t_next (tpcb T v)\<rparr>) \<and> memp_tab (pools (netw T)) MEMP_TCP_PCB = NULL"
      using r(2-4) V(5) sW(3) by (intro exI [of _ T] exI [of _ r] exI [of _ as] exI [of _ bs]) (simp add: tcp_pcb_init_def tcp_pcb_zero_def)
  }
  assume tw: "L Time_Wait = []" and act: "\<forall>u \<in> set (L Active). TCP_PRIO_NORMAL < t_prio (tpcb S u)"
  have "tcp_tw_pcbs (tcp S) = NULL" using pcbs_linkedD(1) [OF l, of Time_Wait] tw by simp
  then have "tcp_kill_timewait io calls S = Some S" by (simp add: tcp_kill_timewait_def oldest_timewait.simps)
  moreover have "tcp_kill_prio io calls TCP_PRIO_NORMAL S = Some S"
    using oldest_prio_none [OF pcbs_linkedD(1) [OF l, of Active] act] by (simp add: tcp_kill_prio_def)
  ultimately show "tcp_new io calls S = Some (S, NULL)" by (simp add: tcp_new_def tcp_alloc_def m)
qed



subsection \<open>Instances\<close>

text \<open>A host that listens on port 8088 and has three connections in TIME-WAIT; all blocks are in use.\<close>

definition no_udp :: "'a \<Rightarrow> 'a udp_layer" where
  "no_udp a = \<lparr>udp_pcbs = NULL, udp_port = 0xC000, pcb_at = (\<lambda>_. undefined), dhcp_pcb = (\<lambda>_. NULL), app = a\<rparr>"

definition tcp_host :: "net \<Rightarrow> 's tcp_layer \<Rightarrow> 's tst" where
  "tcp_host N l = host_state N (no_udp l)"

lemma tcp_host_sel [simp]: "tcp (tcp_host N l) = l" "netw (tcp_host N l) = N" "nif (tcp_host N l) n = netif1"
  by (simp_all add: tcp_host_def no_udp_def no_inet_def)

definition pcb_in :: "tcp_state \<Rightarrow> u16 \<Rightarrow> u32 \<Rightarrow> ptr \<Rightarrow> tcp_pcb" where
  "pcb_in st port tmr next = tcp_pcb_zero\<lparr>t_state := st, t_local_port := port, t_tmr := tmr, t_next := next\<rparr>"

definition tcp_ex :: "'s \<Rightarrow> 's tcp_layer" where
  "tcp_ex s = \<lparr>tcp_port = 0xC000, tcp_ticks = 100, tcp_bound_pcbs = NULL, tcp_listen_pcbs = 0x300, tcp_active_pcbs = NULL, tcp_tw_pcbs = 0x400,
     tcp_active_pcbs_changed = 0, tcp_timer = 0, tcp_timer_ctr = 0, next_iss = 6510,
     tcp_input_pcb = NULL, rx = undefined, timeouts = undefined,
     tcp_at = (\<lambda>_. tcp_pcb_zero)(0x300 := pcb_in LISTEN 8088 0 NULL, 0x400 := pcb_in TIME_WAIT 8088 90 0x500,
       0x500 := pcb_in TIME_WAIT 8088 10 0x600, 0x600 := pcb_in TIME_WAIT 8088 10 NULL), seg_at = (\<lambda>_. undefined), serv = s\<rparr>"

definition lists_ex :: "pcb_list \<Rightarrow> ptr list" where
  "lists_ex = (\<lambda>_. [])(Listening := [0x300], Time_Wait := [0x400, 0x500, 0x600])"

definition net_full :: net where "net_full = net0\<lparr>pools := (pools net0)\<lparr>memp_tab := (\<lambda>_. NULL)\<rparr>\<rparr>"

definition quiet_io :: "'s tcp_out" where
  "quiet_io = \<lparr>tcp_output = (\<lambda>u S. Some (S, ERR_OK)), tcp_write = (\<lambda>u a l f S. Some (S, ERR_OK)), tcp_send_fin = (\<lambda>u S. Some (S, ERR_OK)),
     tcp_enqueue_flags = (\<lambda>u f S. Some (S, ERR_OK)), tcp_rst = (\<lambda>_ _ _ _ _ _ S. Some S), tcp_rexmit_rto = (\<lambda>u S. Some S),
     tcp_keepalive = (\<lambda>u S. Some S), tcp_zero_window_probe = (\<lambda>u S. Some S), tcp_timer_needed = (\<lambda>S. S)\<rparr>"

definition quiet_calls :: "'s tcp_calls" where
  "quiet_calls = \<lparr>call_accept = (\<lambda>_ _ _ S. Some (S, ERR_OK)), call_connected = (\<lambda>_ _ _ _ S. Some (S, ERR_OK)), call_recv = (\<lambda>_ _ _ _ S. Some (S, ERR_OK)), call_sent = (\<lambda>_ _ _ S. Some (S, ERR_OK)), call_poll = (\<lambda>_ _ S. Some (S, ERR_OK)),
     call_err = (\<lambda>_ _ S. Some S)\<rparr>"

lemma quiet_io: "still_timer quiet_io"
  by (simp add: still_timer_def quiet_io_def)

lemma tcp_ex_lists: "tcp_lists lists_ex (tcp_host N (tcp_ex s))"
proof -
  have "free_list (links (tcp_host N (tcp_ex s))) (list_head k (tcp (tcp_host N (tcp_ex s)))) (lists_ex k) \<and> distinct (lists_ex k)
      \<and> (\<forall>u \<in> set (lists_ex k). in_state k (t_state (tpcb (tcp_host N (tcp_ex s)) u)))" for k
    by (cases k) (simp_all add: lists_ex_def tcp_ex_def pcb_in_def tcp_pcb_zero_def)
  moreover have "set (lists_ex j) \<inter> set (lists_ex k) = {}" if "j \<noteq> k" for j k
    using that by (cases j; cases k) (simp_all add: lists_ex_def)
  ultimately show ?thesis unfolding tcp_lists_def pcbs_linked_def by blast
qed



end
