(* ===== verification/Tcp_Timers.thy ===== *)
theory Tcp_Timers
  imports Tcp_Lists
begin

text \<open>
  The receive window and the timers of TCP: what \<open>tcp_recved\<close> announces, when \<open>tcp_fasttmr\<close> does not
  return, the expiry of TIME-WAIT, and the timers on connections that have nothing to send.
\<close>

unbundle bit_operations_syntax

subsection \<open>The receive window\<close>

lemma upd_tpcb_cong: "f (tpcb S u) = g (tpcb S u) \<Longrightarrow> upd_tpcb u f S = upd_tpcb u g S"
  by (simp add: upd_tpcb_def upd_tcp_def upd_udp_def upd_inet_def)

lemma upd_tpcb_twice: "upd_tpcb u g (upd_tpcb u f S) = upd_tpcb u (\<lambda>b. g (f b)) S"
  by (simp add: upd_tpcb_def)

lemma sint_small: "\<bar>x\<bar> < 2 ^ 31 \<Longrightarrow> sint (word_of_int x :: u32) = x"
  unfolding int_word_sint by (simp add: abs_less_iff)

lemma uint_small: "0 \<le> x \<Longrightarrow> x < 2 ^ 32 \<Longrightarrow> uint (word_of_int x :: u32) = x"
  by (simp add: uint_word_of_int)

definition max_step :: "tcp_pcb \<Rightarrow> int" where "max_step b = min (TCP_WND div 2) (uint (t_mss b))"

text \<open>The announced right edge stays, or it moves on by at least one step (a segment, or half of the window).\<close>

lemma update_ann_run:
  fixes S :: "'s tst" and u :: ptr
  defines "b \<equiv> tpcb S u"
  assumes w: "uint (t_rcv_wnd b) \<le> TCP_WND" and d: "uint (t_rcv_ann_right_edge b - t_rcv_nxt b) \<le> TCP_WND"
  shows "\<exists>a i. tcp_update_rcv_ann_wnd u S = (upd_tpcb u (\<lambda>b. b\<lparr>t_rcv_ann_wnd := a\<rparr>) S, word_of_int i)
    \<and> t_rcv_nxt b + ucast a = t_rcv_ann_right_edge b + word_of_int i \<and> uint a \<le> TCP_WND
    \<and> (i = 0 \<or> max_step b \<le> i \<and> i \<le> TCP_WND \<and> a = t_rcv_wnd b)
    \<and> (max_step b \<le> uint (t_rcv_wnd b) - uint (t_rcv_ann_right_edge b - t_rcv_nxt b) \<longrightarrow> a = t_rcv_wnd b)"
proof -
  define e where "e = uint (t_rcv_ann_right_edge b - t_rcv_nxt b)"
  define x where "x = uint (t_rcv_wnd b)"
  have r: "0 \<le> e" "0 \<le> x" "x \<le> 2920" "e \<le> 2920" "0 \<le> max_step b" "max_step b \<le> 1460"
    using w d by (simp_all add: e_def x_def TCP_WND_def max_step_def)
  have E: "t_rcv_ann_right_edge b = t_rcv_nxt b + word_of_int e" by (simp add: e_def)
  have UX: "ucast v = (word_of_int (uint v) :: u32)" for v :: u16
    by (simp add: word_uint_eq_iff uint_word_of_int take_bit_eq_mod unsigned_ucast_eq)
  then have X: "ucast (t_rcv_wnd b) = (word_of_int x :: u32)" by (simp add: x_def)
  have g: "TCP_SEQ_GEQ (t_rcv_nxt b + ucast (t_rcv_wnd b)) (t_rcv_ann_right_edge b + word_of_int (max_step b)) \<longleftrightarrow> max_step b \<le> x - e"
  proof -
    have "t_rcv_nxt b + ucast (t_rcv_wnd b) - (t_rcv_ann_right_edge b + word_of_int (max_step b)) = word_of_int (x - e - max_step b)"
      unfolding E X by (simp add: wi_hom_syms(2))
    moreover have "sint (word_of_int (x - e - max_step b) :: u32) = x - e - max_step b" by (rule sint_small) (use r in \<open>simp add: abs_less_iff\<close>)
    ultimately show ?thesis unfolding TCP_SEQ_GEQ_def by (simp only:) linarith
  qed
  show ?thesis
  proof (cases "max_step b \<le> x - e")
    case True
    have "tcp_update_rcv_ann_wnd u S = (upd_tpcb u (\<lambda>b. b\<lparr>t_rcv_ann_wnd := t_rcv_wnd (tpcb S u)\<rparr>) S, word_of_int (x - e))"
    proof -
      have "tcp_update_rcv_ann_wnd u S = (upd_tpcb u (\<lambda>b. b\<lparr>t_rcv_ann_wnd := t_rcv_wnd b\<rparr>) S, t_rcv_nxt b + ucast (t_rcv_wnd b) - t_rcv_ann_right_edge b)"
        using g True unfolding tcp_update_rcv_ann_wnd_def Let_def max_step_def b_def by simp
      moreover have "t_rcv_nxt b + ucast (t_rcv_wnd b) - t_rcv_ann_right_edge b = word_of_int (x - e)" unfolding E X by (simp add: wi_hom_syms(2))
      moreover have "upd_tpcb u (\<lambda>b. b\<lparr>t_rcv_ann_wnd := t_rcv_wnd b\<rparr>) S = upd_tpcb u (\<lambda>b. b\<lparr>t_rcv_ann_wnd := t_rcv_wnd (tpcb S u)\<rparr>) S"
        by (rule upd_tpcb_cong) simp
      ultimately show ?thesis by simp
    qed
    moreover have "t_rcv_nxt b + ucast (t_rcv_wnd b) = t_rcv_ann_right_edge b + word_of_int (x - e)" unfolding E X by (simp add: wi_hom_syms(2))
    ultimately show ?thesis using True r w by (intro exI [of _ "t_rcv_wnd b"] exI [of _ "x - e"]) (simp add: b_def TCP_WND_def)
  next
    case False
    have "\<not> TCP_SEQ_GT (t_rcv_nxt b) (t_rcv_ann_right_edge b)"
      unfolding TCP_SEQ_GT_def E using sint_small [of "- e"] r by (simp add: word_of_int_minus [symmetric])
    then have "upd_tpcb u (\<lambda>b. b\<lparr>t_rcv_ann_wnd := (if TCP_SEQ_GT (t_rcv_nxt b) (t_rcv_ann_right_edge b) then 0
             else ucast (t_rcv_ann_right_edge b - t_rcv_nxt b))\<rparr>) S
        = upd_tpcb u (\<lambda>b. b\<lparr>t_rcv_ann_wnd := ucast (t_rcv_ann_right_edge (tpcb S u) - t_rcv_nxt (tpcb S u))\<rparr>) S"
      by (intro upd_tpcb_cong) (simp add: b_def)
    then have "tcp_update_rcv_ann_wnd u S = (upd_tpcb u (\<lambda>b. b\<lparr>t_rcv_ann_wnd := ucast (t_rcv_ann_right_edge (tpcb S u) - t_rcv_nxt (tpcb S u))\<rparr>) S, 0)"
      using g False unfolding tcp_update_rcv_ann_wnd_def Let_def max_step_def b_def by simp
    moreover have a: "uint (ucast (t_rcv_ann_right_edge b - t_rcv_nxt b) :: u16) = e"
      unfolding unsigned_ucast_eq take_bit_eq_mod e_def [symmetric] using r by simp
    moreover have "ucast (ucast (t_rcv_ann_right_edge b - t_rcv_nxt b) :: u16) = (word_of_int e :: u32)"
      unfolding UX a ..
    ultimately show ?thesis using False r by (intro exI [of _ "ucast (t_rcv_ann_right_edge b - t_rcv_nxt b)"] exI [of _ 0]) (simp add: b_def E x_def TCP_WND_def e_def)
  qed
qed


definition calls_output :: "'s tcp_out \<Rightarrow> ptr \<Rightarrow> 's tst \<Rightarrow> 's tst option" where
  "calls_output io u S = do { (S, err) \<leftarrow> tcp_output io u (tcp_ack_now u S); Some S }"



subsection \<open>The fast timer\<close>

text \<open>The loop makes no progress on a block that it has already seen.\<close>

lemma fast_loop_stuck:
  assumes "fast_loop io calls u S = Some T"
  shows "\<not> (u \<noteq> NULL \<and> t_last_timer (tpcb S u) = tcp_timer_ctr (tcp S))"
proof (rule fast_loop.raw_induct [OF _ assms, where P = "\<lambda>io calls u S T. \<not> (u \<noteq> NULL \<and> t_last_timer (tpcb S u) = tcp_timer_ctr (tcp S))"])
  fix f :: "'a tcp_out \<Rightarrow> 'a tcp_calls \<Rightarrow> ptr \<Rightarrow> 'a tst \<Rightarrow> 'a tst option" and io :: "'a tcp_out" and calls u S T
  assume ih: "\<And>io calls u S T. f io calls u S = Some T \<Longrightarrow> \<not> (u \<noteq> NULL \<and> t_last_timer (tpcb S u) = tcp_timer_ctr (tcp S))"
  assume e: "(if u = NULL then Some S
      else if t_last_timer (tpcb S u) \<noteq> tcp_timer_ctr (tcp S) then do {
        let S = upd_tpcb u (\<lambda>b. b\<lparr>t_last_timer := tcp_timer_ctr (tcp S)\<rparr>) S;
        S \<leftarrow> (if t_flags (tpcb S u) AND TF_ACK_DELAY \<noteq> 0 then do {
                (S, ign) \<leftarrow> tcp_output io u (tcp_ack_now u S);
                Some (upd_tpcb u (\<lambda>b. b\<lparr>t_flags := t_flags b AND NOT (TF_ACK_DELAY OR TF_ACK_NOW)\<rparr>) S) }
              else Some S);
        let nu = t_next (tpcb S u);
        if t_refused_data (tpcb S u) \<noteq> NULL then do {
          (S, ign) \<leftarrow> tcp_process_refused_data io calls u (set_changed 0 S);
          if tcp_active_pcbs_changed (tcp S) \<noteq> 0 then f io calls (tcp_active_pcbs (tcp S)) S
          else f io calls nu S }
        else f io calls nu S }
      else f io calls u S) = Some T"
  show "\<not> (u \<noteq> NULL \<and> t_last_timer (tpcb S u) = tcp_timer_ctr (tcp S))"
  proof
    assume c: "u \<noteq> NULL \<and> t_last_timer (tpcb S u) = tcp_timer_ctr (tcp S)"
    then have "f io calls u S = Some T" using e by simp
    from ih [OF this] c show False by contradiction
  qed
qed



definition abort_calls :: "'s tcp_calls" where
  "abort_calls = quiet_calls\<lparr>call_recv := (\<lambda>arg u p err S. do { S \<leftarrow> tcp_abort quiet_io quiet_calls u S; Some (S, ERR_ABRT) })\<rparr>"



subsection \<open>The end of TIME-WAIT\<close>

definition waited :: "'s tst \<Rightarrow> ptr \<Rightarrow> bool" where
  "waited S u \<longleftrightarrow> elapsed u S > 240"

lemma unlink_run:
  assumes l: "pcbs_linked L S" and k: "L k = ks @ u # vs" and p: "prev = (if ks = [] then NULL else last ks)"
  shows "pcbs_linked (L(k := ks @ vs)) (unlink_pcb k prev u S)" "netw (unlink_pcb k prev u S) = netw S"
    "tpcb (unlink_pcb k prev u S) v = (if v = prev \<and> ks \<noteq> [] then (tpcb S v)\<lparr>t_next := t_next (tpcb S u)\<rparr> else tpcb S v)"
    "tcp_ticks (tcp (unlink_pcb k prev u S)) = tcp_ticks (tcp S)" "serv (tcp (unlink_pcb k prev u S)) = serv (tcp S)"
proof -
  let ?U = "unlink_pcb k prev u S"
  have f: "free_list (links S) (list_head k (tcp S)) (ks @ u # vs)" "distinct (ks @ u # vs)"
    using pcbs_linkedD(1,2) [OF l, of k] k by simp_all
  have p0: "prev \<noteq> NULL" "prev \<in> set ks" if "ks \<noteq> []"
  proof -
    show "prev \<in> set ks" using that p by simp
    then show "prev \<noteq> NULL" using pcbs_linkedD(4) [OF l, of k] k by auto
  qed
  show at: "tpcb ?U v = (if v = prev \<and> ks \<noteq> [] then (tpcb S v)\<lparr>t_next := t_next (tpcb S u)\<rparr> else tpcb S v)" for v
  proof (cases "ks = []")
    case True
    then show ?thesis using p by (simp add: unlink_pcb_def)
  next
    case False
    then show ?thesis using p0(1) by (simp add: unlink_pcb_def)
  qed
  show "netw ?U = netw S" "tcp_ticks (tcp ?U) = tcp_ticks (tcp S)" "serv (tcp ?U) = serv (tcp S)" by (simp_all add: unlink_pcb_def)
  have h: "list_head j (tcp ?U) = (if j = k \<and> ks = [] then t_next (tpcb S u) else list_head j (tcp S))" for j
  proof (cases "ks = []")
    case True
    then show ?thesis using p by (simp add: unlink_pcb_def)
  next
    case False
    then show ?thesis using p0(1) by (simp add: unlink_pcb_def)
  qed
  have other: "free_list (links ?U) q (L j) = free_list (links S) q (L j)" if "j \<noteq> k" for q j
  proof (rule free_list_frame)
    fix x assume "x \<in> set (L j)"
    then have "x \<notin> set (ks @ u # vs)" using pcbs_linkedD(3) [OF l that] k by metis
    then have "\<not> (x = prev \<and> ks \<noteq> [])" using p0(2) by auto
    then show "links ?U x = links S x" by (simp only: at if_False)
  qed
  have "free_list (links ?U) (list_head k (tcp ?U)) (ks @ vs)"
  proof (cases "ks = []")
    case True
    then have "free_list (links ?U) q vs = free_list (links S) q vs" for q by (intro free_list_frame) (simp add: at)
    then show ?thesis using f(1) True by (simp add: h)
  next
    case False
    then obtain ws where ws: "ks = ws @ [prev]" using p by (metis append_butlast_last_id)
    have d: "distinct (ws @ prev # u # vs)" using f(2) ws by simp
    have "free_list (links ?U) (list_head k (tcp S)) (ws @ prev # vs) = free_list ((links S)(prev := links S u)) (list_head k (tcp S)) (ws @ prev # vs)"
      by (rule free_list_frame) (simp add: at False)
    then show ?thesis using free_list_skip [OF _ d] f(1) ws False by (simp add: h)
  qed
  then have "free_list (links ?U) (list_head j (tcp ?U)) ((L(k := ks @ vs)) j)" for j
    using pcbs_linkedD(1) [OF l, of j] by (cases "j = k") (simp_all add: other h)
  moreover have "distinct ((L(k := ks @ vs)) j)" "set ((L(k := ks @ vs)) j) \<subseteq> set (L j)" for j
    using pcbs_linkedD(2) [OF l, of j] f(2) k by auto
  ultimately show "pcbs_linked (L(k := ks @ vs)) ?U" using l unfolding pcbs_linked_def by blast
qed

lemma timewait_loop_run:
  assumes "pcbs_linked (L(Time_Wait := ks @ us)) S" "\<forall>v \<in> set us. t_state (tpcb S v) = TIME_WAIT"
    "prev = (if ks = [] then NULL else last ks)" "u = (if us = [] then NULL else hd us)"
  shows "\<exists>T. timewait_loop prev u S = Some T \<and> pcbs_linked (L(Time_Wait := ks @ filter (\<lambda>v. \<not> waited S v) us)) T
    \<and> netw T = (netw S)\<lparr>pools := fold (memp_free MEMP_TCP_PCB) (filter (waited S) us) (pools (netw S))\<rparr>
    \<and> (\<forall>v. \<exists>x. tpcb T v = (tpcb S v)\<lparr>t_next := x\<rparr>) \<and> tcp_ticks (tcp T) = tcp_ticks (tcp S) \<and> serv (tcp T) = serv (tcp S)
    \<and> tcp_timer_ctr (tcp T) = tcp_timer_ctr (tcp S) \<and> tcp_timer (tcp T) = tcp_timer (tcp S)"
  using assms
proof (induction us arbitrary: ks prev u S)
  case Nil
  have "\<forall>v. \<exists>x. tpcb S v = (tpcb S v)\<lparr>t_next := x\<rparr>"
  proof
    fix v show "\<exists>x. tpcb S v = (tpcb S v)\<lparr>t_next := x\<rparr>" by (rule exI [of _ "links S v"]) simp
  qed
  moreover have "timewait_loop prev u S = Some S" using Nil(4) by (subst timewait_loop.simps) simp
  ultimately show ?case using Nil(1) by (intro exI [of _ S]) (simp del: fun_upd_apply)
next
  case (Cons x us)
  let ?L = "L(Time_Wait := ks @ x # us)"
  have u: "u = x" "x \<noteq> NULL" using Cons.prems(4) pcbs_linkedD(4) [OF Cons.prems(1), of Time_Wait] by auto
  have "free_list (links S) (links S x) us"
  proof -
    have "free_list (links S) q (ks @ x # us) \<Longrightarrow> free_list (links S) (links S x) us" for q by (induction ks arbitrary: q) auto
    then show ?thesis using pcbs_linkedD(1) [OF Cons.prems(1), of Time_Wait] by simp
  qed
  then have nx: "t_next (tpcb S x) = (if us = [] then NULL else hd us)" by (cases us) auto
  have d: "distinct (ks @ x # us)" using pcbs_linkedD(2) [OF Cons.prems(1), of Time_Wait] by simp
  show ?case
  proof (cases "waited S x")
    case True
    define U where "U = unlink_pcb Time_Wait prev x S"
    have kk: "?L Time_Wait = ks @ x # us" by simp
    note un = unlink_run [OF Cons.prems(1) kk Cons.prems(3), folded U_def]
    define V where "V = memp_free_st MEMP_TCP_PCB x U"
    have V: "tpcb V = tpcb U" "netw V = (netw S)\<lparr>pools := memp_free MEMP_TCP_PCB x (pools (netw S))\<rparr>" "tcp V = tcp U"
      using un(2) by (simp_all add: V_def memp_free_st_def)
    have t: "t_state (tpcb V v) = t_state (tpcb S v)" "elapsed v V = elapsed v S" for v
      using un(3,4) by (simp_all add: V elapsed_def)
    have w: "waited V = waited S" by (simp add: waited_def t fun_eq_iff)
    have pg: "tcp_pcb_purge x S = Some S" using Cons.prems(2) by (simp add: tcp_pcb_purge_def)
    have "x \<notin> set ks" using d by simp
    then have "\<not> (x = prev \<and> ks \<noteq> [])" using Cons.prems(3) last_in_set [of ks] by auto
    then have xU: "tpcb U x = tpcb S x" by (simp only: un(3) if_False)
    have e: "elapsed x S > 2 * TCP_MSL div TCP_SLOW_INTERVAL" using True by (simp add: waited_def tcp_consts)
    have st: "timewait_loop prev u S = timewait_loop prev (t_next (tpcb S x)) V"
      unfolding u(1) by (subst timewait_loop.simps) (simp add: u(2) e pg U_def [symmetric] xU V_def)
    have "pcbs_linked (L(Time_Wait := ks @ us)) V"
      by (rule pcbs_linked_cong [OF un(1) [unfolded fun_upd_upd]]) (simp_all add: V)
    have tw: "\<forall>v \<in> set us. t_state (tpcb V v) = TIME_WAIT" using Cons.prems(2) by (simp add: t)
    obtain T where T: "timewait_loop prev (t_next (tpcb S x)) V = Some T" "pcbs_linked (L(Time_Wait := ks @ filter (\<lambda>v. \<not> waited S v) us)) T"
      "netw T = (netw V)\<lparr>pools := fold (memp_free MEMP_TCP_PCB) (filter (waited S) us) (pools (netw V))\<rparr>"
      "\<forall>v. \<exists>x. tpcb T v = (tpcb V v)\<lparr>t_next := x\<rparr>" "tcp_ticks (tcp T) = tcp_ticks (tcp V)" "serv (tcp T) = serv (tcp V)"
      "tcp_timer_ctr (tcp T) = tcp_timer_ctr (tcp V)" "tcp_timer (tcp T) = tcp_timer (tcp V)"
      using Cons.IH [OF \<open>pcbs_linked (L(Time_Wait := ks @ us)) V\<close> tw Cons.prems(3) nx, unfolded w] by (elim exE conjE)
    have "\<exists>y. tpcb T v = (tpcb S v)\<lparr>t_next := y\<rparr>" for v
    proof -
      obtain y where "tpcb T v = (tpcb V v)\<lparr>t_next := y\<rparr>" using T(4) by blast
      then show ?thesis using un(3) [of v] by (intro exI [of _ y]) (simp add: V)
    qed
    moreover have "tcp_timer_ctr (tcp U) = tcp_timer_ctr (tcp S)" "tcp_timer (tcp U) = tcp_timer (tcp S)"
      by (simp_all add: U_def unlink_pcb_def tcp_upd_tpcb)
    ultimately show ?thesis using T st un(4,5) True by (intro exI [of _ T]) (simp add: V del: fun_upd_apply)
  next
    case False
    have st: "timewait_loop prev u S = timewait_loop x (t_next (tpcb S x)) S"
      using False u by (subst timewait_loop.simps) (simp add: waited_def tcp_consts)
    have "pcbs_linked (L(Time_Wait := (ks @ [x]) @ us)) S" using Cons.prems(1) by (simp del: fun_upd_apply)
    moreover have "\<forall>v \<in> set us. t_state (tpcb S v) = TIME_WAIT" using Cons.prems(2) by simp
    moreover have "x = (if ks @ [x] = [] then NULL else last (ks @ [x]))" by simp
    ultimately have "\<exists>T. timewait_loop x (t_next (tpcb S x)) S = Some T \<and> pcbs_linked (L(Time_Wait := (ks @ [x]) @ filter (\<lambda>v. \<not> waited S v) us)) T
      \<and> netw T = (netw S)\<lparr>pools := fold (memp_free MEMP_TCP_PCB) (filter (waited S) us) (pools (netw S))\<rparr>
      \<and> (\<forall>v. \<exists>x. tpcb T v = (tpcb S v)\<lparr>t_next := x\<rparr>) \<and> tcp_ticks (tcp T) = tcp_ticks (tcp S) \<and> serv (tcp T) = serv (tcp S)
      \<and> tcp_timer_ctr (tcp T) = tcp_timer_ctr (tcp S) \<and> tcp_timer (tcp T) = tcp_timer (tcp S)"
      using nx by (rule Cons.IH)
    then show ?thesis unfolding st using False by (simp del: fun_upd_apply)
  qed
qed


subsection \<open>The timers of an idle server\<close>

text \<open>
  A connection with nothing to send, nothing to be acknowledged and no keep-alive; what \<open>tcp_output\<close>
  does to such a connection, and a poll callback that does nothing for a block with an argument.
\<close>

definition idle_block :: "tcp_pcb \<Rightarrow> bool" where
  "idle_block b \<longleftrightarrow> t_state b = ESTABLISHED \<and> t_unacked b = NULL \<and> t_unsent b = NULL \<and> t_refused_data b = NULL \<and> t_persist_backoff b = 0
     \<and> t_nrtx b \<noteq> TCP_MAXRTX \<and> t_flags b AND TF_ACK_DELAY = 0 \<and> t_flags b AND TF_ACK_NOW = 0 \<and> t_so_options b AND SOF_KEEPALIVE = 0
     \<and> (t_poll b = None \<or> t_callback_arg b \<noteq> NULL)"

definition quiet_output :: "'s tcp_out \<Rightarrow> bool" where
  "quiet_output io \<longleftrightarrow> (\<forall>u S. idle_block (tpcb S u) \<longrightarrow> (\<exists>f. tcp_output io u S = Some (upd_tpcb u f S, ERR_OK)
     \<and> idle_block (f (tpcb S u)) \<and> t_next (f (tpcb S u)) = links S u \<and> t_last_timer (f (tpcb S u)) = t_last_timer (tpcb S u)))"

definition quiet_poll :: "'s tcp_calls \<Rightarrow> bool" where
  "quiet_poll calls \<longleftrightarrow> (\<forall>arg u S. arg \<noteq> NULL \<longrightarrow> call_poll calls arg u S = Some (S, ERR_OK))"

text \<open>The blocks \<open>us\<close> have been seen by a timer and stay idle; nothing else has changed.\<close>

definition kept :: "ptr set \<Rightarrow> 's tst \<Rightarrow> 's tst \<Rightarrow> bool" where
  "kept us S T \<longleftrightarrow> (\<forall>k. list_head k (tcp T) = list_head k (tcp S)) \<and> netw T = netw S \<and> tcp_ticks (tcp T) = tcp_ticks (tcp S)
     \<and> tcp_timer_ctr (tcp T) = tcp_timer_ctr (tcp S) \<and> tcp_timer (tcp T) = tcp_timer (tcp S) \<and> serv (tcp T) = serv (tcp S)
     \<and> (\<forall>v. v \<notin> us \<longrightarrow> tpcb T v = tpcb S v)
     \<and> (\<forall>v \<in> us. idle_block (tpcb T v) \<and> links T v = links S v \<and> t_last_timer (tpcb T v) = tcp_timer_ctr (tcp S))"

lemma kept_none: "kept {} S S"
  by (simp add: kept_def)

lemma kept_trans: "kept us S T \<Longrightarrow> kept vs T U \<Longrightarrow> kept (us \<union> vs) S U"
  unfolding kept_def by (intro conjI allI ballI impI) (metis Un_iff)+

lemma kept_links: "kept us S T \<Longrightarrow> links T v = links S v"
  unfolding kept_def by (cases "v \<in> us") auto

lemma kept_upd:
  assumes "idle_block (f (tpcb S u))" "t_next (f (tpcb S u)) = links S u" "t_last_timer (f (tpcb S u)) = tcp_timer_ctr (tcp S)"
  shows "kept {u} S (upd_tpcb u f S)"
  using assms by (simp add: kept_def tcp_upd_tpcb)

lemma kept_changed: "kept us S T \<Longrightarrow> kept us S (set_changed v T)"
  by (simp add: kept_def set_changed_def)

lemma tcp_timer_changed [simp]: "tcp_timer (tcp (set_changed v S)) = tcp_timer (tcp S)"
  by (simp add: set_changed_def)

lemma fast_loop_idle:
  "free_list (links S) u us \<Longrightarrow> distinct us \<Longrightarrow> \<forall>v \<in> set us. idle_block (tpcb S v) \<and> t_last_timer (tpcb S v) \<noteq> tcp_timer_ctr (tcp S)
   \<Longrightarrow> \<exists>T. fast_loop io calls u S = Some T \<and> kept (set us) S T"
proof (induction us arbitrary: u S)
  case Nil
  then show ?case using kept_none by (subst fast_loop.simps) auto
next
  case (Cons x us)
  define V where "V = upd_tpcb x (\<lambda>b. b\<lparr>t_last_timer := tcp_timer_ctr (tcp S)\<rparr>) S"
  have x: "u = x" "x \<noteq> NULL" "free_list (links S) (links S x) us" "x \<notin> set us" "distinct us" using Cons.prems(1,2) by auto
  have ix: "idle_block (tpcb S x)" "t_last_timer (tpcb S x) \<noteq> tcp_timer_ctr (tcp S)" using Cons.prems(3) by auto
  have k: "kept {x} S V" unfolding V_def by (rule kept_upd) (use ix(1) in \<open>simp_all add: idle_block_def\<close>)
  have st: "fast_loop io calls u S = fast_loop io calls (links S x) V"
    using x(1,2) ix by (subst fast_loop.simps) (simp add: V_def [symmetric], simp add: V_def idle_block_def Let_def)
  have "free_list (links V) (links S x) us = free_list (links S) (links S x) us"
    by (rule free_list_frame) (rule kept_links [OF k])
  moreover have "idle_block (tpcb V v) \<and> t_last_timer (tpcb V v) \<noteq> tcp_timer_ctr (tcp V)" if "v \<in> set us" for v
    using Cons.prems(3) that x(4) k by (auto simp: kept_def V_def)
  ultimately obtain T where T: "fast_loop io calls (links S x) V = Some T" "kept (set us) V T"
    using Cons.IH [of V "links S x"] x(3,5) by blast
  then show ?case using st kept_trans [OF k T(2)] by auto
qed

lemma slow_step_idle:
  assumes q: "quiet_output io" "quiet_poll calls" and u: "u \<noteq> NULL" and i: "idle_block (tpcb S u)" "t_last_timer (tpcb S u) \<noteq> tcp_timer_ctr (tcp S)"
  shows "\<exists>T. kept {u} S T \<and> slow_loop io calls prev u S = slow_loop io calls u (links S u) T"
proof -
  define A where "A = upd_tpcb u (\<lambda>b. b\<lparr>t_last_timer := tcp_timer_ctr (tcp S)\<rparr>) S"
  define B where "B = (if sint (t_rtime (tpcb S u)) \<ge> 0 then upd_tpcb u (\<lambda>b. b\<lparr>t_rtime := t_rtime b + 1\<rparr>) A else A)"
  define C where "C = upd_tpcb u (\<lambda>b. b\<lparr>t_polltmr := t_polltmr b + 1\<rparr>) B"
  define D where "D = set_changed 0 (upd_tpcb u (\<lambda>b. b\<lparr>t_polltmr := 0\<rparr>) C)"
  have iA: "idle_block (tpcb A u)" "tpcb A u = (tpcb S u)\<lparr>t_last_timer := tcp_timer_ctr (tcp S)\<rparr>" using i(1) by (simp_all add: A_def idle_block_def)
  have r: "slow_retries io u A = Some (B, False)"
    using iA by (auto simp: slow_retries_def idle_block_def B_def Let_def)
  have iB: "idle_block (tpcb B u)" "kept {u} S B"
  proof -
    show "idle_block (tpcb B u)" using iA by (simp add: B_def idle_block_def)
    show "kept {u} S B" unfolding B_def A_def upd_tpcb_twice using i(1) by (auto intro!: kept_upd simp: idle_block_def)
  qed
  have n: "\<not> fin_wait_stuck u B" "\<not> slow_timeouts u B" "slow_keepalive io u B = Some (B, False)"
    using iB(1) by (simp_all add: fin_wait_stuck_def slow_timeouts_def slow_keepalive_def idle_block_def)
  have l: "links B u = links S u" by (rule kept_links [OF iB(2)])
  have kC: "kept {u} S C" "idle_block (tpcb C u)"
  proof -
    have "kept {u} B C" unfolding C_def by (rule kept_upd) (use iB in \<open>auto simp: idle_block_def kept_def\<close>)
    from kept_trans [OF iB(2) this] show "kept {u} S C" by simp
    then show "idle_block (tpcb C u)" by (simp add: kept_def)
  qed
  have st: "slow_loop io calls prev u S = (if t_polltmr (tpcb C u) \<ge> t_pollinterval (tpcb C u) then do {
            (S', err) \<leftarrow> TCP_EVENT_POLL calls u D;
            if tcp_active_pcbs_changed (tcp S') \<noteq> 0 then slow_loop io calls NULL (tcp_active_pcbs (tcp S')) S'
            else do {
              S' \<leftarrow> (if err = ERR_OK then do { (S', ign) \<leftarrow> tcp_output io u S'; Some S' } else Some S');
              slow_loop io calls u (links S u) S' } }
          else slow_loop io calls u (links S u) C)"
    using u i(2) by (subst slow_loop.simps) (simp add: A_def [symmetric] r n l C_def [symmetric] D_def [symmetric])
  show ?thesis
  proof (cases "t_polltmr (tpcb C u) \<ge> t_pollinterval (tpcb C u)")
    case False
    then show ?thesis using st kC(1) by auto
  next
    case True
    have kD: "kept {u} S D"
    proof -
      have "kept {u} C (upd_tpcb u (\<lambda>b. b\<lparr>t_polltmr := 0\<rparr>) C)" by (rule kept_upd) (use kC in \<open>auto simp: idle_block_def kept_def\<close>)
      from kept_trans [OF kC(1) this] show ?thesis unfolding D_def by (intro kept_changed) simp
    qed
    then have iD: "idle_block (tpcb D u)" "t_last_timer (tpcb D u) = tcp_timer_ctr (tcp D)" by (auto simp: kept_def)
    have p: "TCP_EVENT_POLL calls u D = Some (D, ERR_OK)"
      using q(2) iD(1) by (auto simp: TCP_EVENT_POLL_def quiet_poll_def idle_block_def split: option.split)
    obtain f where f: "tcp_output io u D = Some (upd_tpcb u f D, ERR_OK)" "idle_block (f (tpcb D u))" "t_next (f (tpcb D u)) = links D u"
      "t_last_timer (f (tpcb D u)) = t_last_timer (tpcb D u)" using q(1) iD(1) unfolding quiet_output_def by blast
    have "kept {u} D (upd_tpcb u f D)" by (rule kept_upd) (use f iD in simp_all)
    from kept_trans [OF kD this] have "kept {u} S (upd_tpcb u f D)" by simp
    moreover have "tcp_active_pcbs_changed (tcp D) = 0" by (simp add: D_def)
    ultimately show ?thesis using True st p f(1) by auto
  qed
qed

lemma slow_loop_idle:
  assumes q: "quiet_output io" "quiet_poll calls"
  shows "free_list (links S) u us \<Longrightarrow> distinct us \<Longrightarrow> \<forall>v \<in> set us. idle_block (tpcb S v) \<and> t_last_timer (tpcb S v) \<noteq> tcp_timer_ctr (tcp S)
   \<Longrightarrow> \<exists>T. slow_loop io calls prev u S = Some T \<and> kept (set us) S T"
proof (induction us arbitrary: prev u S)
  case Nil
  then show ?case using kept_none by (subst slow_loop.simps) auto
next
  case (Cons x us)
  have x: "u = x" "x \<noteq> NULL" "free_list (links S) (links S x) us" "x \<notin> set us" "distinct us" using Cons.prems(1,2) by auto
  obtain V where V: "kept {x} S V" "slow_loop io calls prev u S = slow_loop io calls x (links S x) V"
    using slow_step_idle [OF q x(2), of S prev] Cons.prems(3) x(1) by auto
  have "free_list (links V) (links S x) us = free_list (links S) (links S x) us"
    by (rule free_list_frame) (rule kept_links [OF V(1)])
  moreover have "idle_block (tpcb V v) \<and> t_last_timer (tpcb V v) \<noteq> tcp_timer_ctr (tcp V)" if "v \<in> set us" for v
    using Cons.prems(3) that x(4) V(1) by (auto simp: kept_def)
  ultimately obtain T where T: "slow_loop io calls x (links S x) V = Some T" "kept (set us) V T"
    using Cons.IH [of V "links S x" x] x(3,5) by blast
  then show ?case using V(2) kept_trans [OF V(1) T(2)] by auto
qed


definition idle_server :: "(pcb_list \<Rightarrow> ptr list) \<Rightarrow> 's tst \<Rightarrow> bool" where
  "idle_server L S \<longleftrightarrow> tcp_lists L S
     \<and> (\<forall>u \<in> set (L Active). idle_block (tpcb S u) \<and> t_last_timer (tpcb S u) \<noteq> tcp_timer_ctr (tcp S) + 1)"

lemma tcp_lists_kept:
  assumes "tcp_lists L S" "kept (set (L Active)) S T"
  shows "tcp_lists L T"
proof -
  have "t_state (tpcb T v) = t_state (tpcb S v)" if "v \<notin> set (L Active)" for v using assms(2) that by (simp add: kept_def)
  moreover have "in_state Active (t_state (tpcb T v))" if "v \<in> set (L Active)" for v using assms(2) that by (auto simp: kept_def idle_block_def)
  ultimately have "in_state k (t_state (tpcb T v))" if "v \<in> set (L k)" for k v
    using tcp_listsD [OF assms(1) that] that by (cases "v \<in> set (L Active)") (metis pcbs_linkedD(3) tcp_lists_pcbs_linked assms(1))+
  moreover have "pcbs_linked L T"
    by (rule pcbs_linked_cong [OF tcp_lists_pcbs_linked [OF assms(1)]]) (use assms(2) kept_links in \<open>auto simp: kept_def\<close>)
  ultimately show ?thesis by (simp add: tcp_lists_def)
qed

lemma keptD: assumes "kept us S T"
  shows "netw T = netw S" "tcp_ticks (tcp T) = tcp_ticks (tcp S)" "tcp_timer_ctr (tcp T) = tcp_timer_ctr (tcp S)" "tcp_timer (tcp T) = tcp_timer (tcp S)"
    "serv (tcp T) = serv (tcp S)" "v \<notin> us \<Longrightarrow> tpcb T v = tpcb S v" "v \<in> us \<Longrightarrow> idle_block (tpcb T v)"
    "v \<in> us \<Longrightarrow> t_last_timer (tpcb T v) = tcp_timer_ctr (tcp S)"
  using assms by (simp_all add: kept_def)

lemma kept_idle_server:
  assumes "tcp_lists L S" "kept (set (L Active)) S T"
  shows "idle_server L T"
proof -
  have "idle_block (tpcb T v) \<and> t_last_timer (tpcb T v) \<noteq> tcp_timer_ctr (tcp T) + 1" if "v \<in> set (L Active)" for v
    using keptD(3) [OF assms(2)] keptD(7,8) [OF assms(2) that] by simp
  then show ?thesis using tcp_lists_kept [OF assms] by (simp add: idle_server_def)
qed

lemma tcp_lists_same:
  "tcp_lists L S \<Longrightarrow> tcp_at (tcp T) = tcp_at (tcp S) \<Longrightarrow> (\<And>k. list_head k (tcp T) = list_head k (tcp S)) \<Longrightarrow> tcp_lists L T"
  by (simp add: tcp_lists_def pcbs_linked_def)

lemma fasttmr_idle:
  assumes "idle_server L S"
  shows "\<exists>T. tcp_fasttmr io calls S = Some T \<and> idle_server L T \<and> netw T = netw S \<and> tcp_ticks (tcp T) = tcp_ticks (tcp S)
    \<and> tcp_timer (tcp T) = tcp_timer (tcp S) \<and> serv (tcp T) = serv (tcp S) \<and> (\<forall>v. v \<notin> set (L Active) \<longrightarrow> tpcb T v = tpcb S v)"
proof -
  define V where "V = upd_tcp (\<lambda>l. l\<lparr>tcp_timer_ctr := tcp_timer_ctr l + 1\<rparr>) S"
  have V: "tcp_at (tcp V) = tcp_at (tcp S)" "list_head k (tcp V) = list_head k (tcp S)" "tcp_timer_ctr (tcp V) = tcp_timer_ctr (tcp S) + 1" for k
    by (simp_all add: V_def)
  have l: "tcp_lists L V" by (rule tcp_lists_same [of L S]) (use assms V in \<open>simp_all add: idle_server_def\<close>)
  have i: "\<forall>v \<in> set (L Active). idle_block (tpcb V v) \<and> t_last_timer (tpcb V v) \<noteq> tcp_timer_ctr (tcp V)"
    using assms V by (simp add: idle_server_def)
  obtain T where T: "fast_loop io calls (tcp_active_pcbs (tcp V)) V = Some T" "kept (set (L Active)) V T"
    using fast_loop_idle [OF pcbs_linkedD(1) [OF tcp_lists_pcbs_linked [OF l], of Active] pcbs_linkedD(2) [OF tcp_lists_pcbs_linked [OF l]] i, of io calls]
    by auto
  have st: "tcp_fasttmr io calls S = fast_loop io calls (tcp_active_pcbs (tcp V)) V" by (simp add: tcp_fasttmr_def V_def Let_def)
  have V2: "netw V = netw S" "tcp_ticks (tcp V) = tcp_ticks (tcp S)" "tcp_timer (tcp V) = tcp_timer (tcp S)" "serv (tcp V) = serv (tcp S)"
    by (simp_all add: V_def)
  show ?thesis
    by (intro exI [of _ T] conjI allI impI) (use T(1) kept_idle_server [OF l T(2)] keptD [OF T(2)] V(1) V2 in \<open>simp_all add: st\<close>)
qed

definition still_waiting :: "'s tst \<Rightarrow> ptr \<Rightarrow> bool" where
  "still_waiting S u \<longleftrightarrow> unat (idle_time S u + 1) \<le> 240"

lemma slowtmr_idle:
  assumes s: "idle_server L S" and q: "quiet_output io" "quiet_poll calls"
  shows "\<exists>T. tcp_slowtmr io calls S = Some T \<and> idle_server (L(Time_Wait := filter (still_waiting S) (L Time_Wait))) T
    \<and> netw T = (netw S)\<lparr>pools := fold (memp_free MEMP_TCP_PCB) (filter (\<lambda>v. \<not> still_waiting S v) (L Time_Wait)) (pools (netw S))\<rparr>
    \<and> tcp_ticks (tcp T) = tcp_ticks (tcp S) + 1 \<and> tcp_timer (tcp T) = tcp_timer (tcp S) \<and> serv (tcp T) = serv (tcp S)
    \<and> (\<forall>v. v \<notin> set (L Active) \<longrightarrow> (\<exists>x. tpcb T v = (tpcb S v)\<lparr>t_next := x\<rparr>))"
proof -
  define V where "V = upd_tcp (\<lambda>l. l\<lparr>tcp_ticks := tcp_ticks l + 1, tcp_timer_ctr := tcp_timer_ctr l + 1\<rparr>) S"
  have V: "tcp_at (tcp V) = tcp_at (tcp S)" "list_head k (tcp V) = list_head k (tcp S)" "tcp_timer_ctr (tcp V) = tcp_timer_ctr (tcp S) + 1"
    "tcp_ticks (tcp V) = tcp_ticks (tcp S) + 1" "netw V = netw S" "tcp_timer (tcp V) = tcp_timer (tcp S)" "serv (tcp V) = serv (tcp S)" for k
    by (simp_all add: V_def)
  have l: "tcp_lists L V" by (rule tcp_lists_same [of L S]) (use s V in \<open>simp_all add: idle_server_def\<close>)
  note pl = tcp_lists_pcbs_linked [OF l]
  have i: "\<forall>v \<in> set (L Active). idle_block (tpcb V v) \<and> t_last_timer (tpcb V v) \<noteq> tcp_timer_ctr (tcp V)"
    using s V by (simp add: idle_server_def)
  obtain W where W: "slow_loop io calls NULL (tcp_active_pcbs (tcp V)) V = Some W" "kept (set (L Active)) V W"
    using slow_loop_idle [OF q pcbs_linkedD(1) [OF pl, of Active] pcbs_linkedD(2) [OF pl] i, of NULL] by auto
  note lW = tcp_lists_kept [OF l W(2)]
  have tw: "v \<notin> set (L Active)" if "v \<in> set (L Time_Wait)" for v using pcbs_linkedD(3) [OF pl _ that, of Active] by simp
  have same: "tpcb W v = tpcb S v" if "v \<notin> set (L Active)" for v using keptD(6) [OF W(2) that] V(1) by simp
  have ws: "waited W v \<longleftrightarrow> \<not> still_waiting S v" if "v \<in> set (L Time_Wait)" for v
  proof -
    have "tcp_ticks (tcp W) = tcp_ticks (tcp S) + 1" using keptD(2) [OF W(2)] V(4) by simp
    then have "elapsed v W = unat (idle_time S v + 1)" using same [OF tw [OF that]] by (simp add: elapsed_def algebra_simps)
    then show ?thesis by (simp add: waited_def still_waiting_def not_le)
  qed
  have fl: "filter (waited W) (L Time_Wait) = filter (\<lambda>v. \<not> still_waiting S v) (L Time_Wait)"
    "filter (\<lambda>v. \<not> waited W v) (L Time_Wait) = filter (still_waiting S) (L Time_Wait)"
    using ws by (auto intro!: filter_cong)
  have h1: "tcp_tw_pcbs (tcp W) = (if L Time_Wait = [] then NULL else hd (L Time_Wait))"
    using pcbs_linkedD(1) [OF tcp_lists_pcbs_linked [OF lW], of Time_Wait] by (cases "L Time_Wait") auto
  have h2: "pcbs_linked (L(Time_Wait := [] @ L Time_Wait)) W" using tcp_lists_pcbs_linked [OF lW] by simp
  have h3: "NULL = (if ([] :: ptr list) = [] then NULL else last [])" by simp
  have h4: "\<forall>v \<in> set (L Time_Wait). t_state (tpcb W v) = TIME_WAIT" using tcp_listsD [OF lW, of _ Time_Wait] by simp
  obtain T where T: "timewait_loop NULL (tcp_tw_pcbs (tcp W)) W = Some T"
      "pcbs_linked (L(Time_Wait := [] @ filter (\<lambda>v. \<not> waited W v) (L Time_Wait))) T"
      "netw T = (netw W)\<lparr>pools := fold (memp_free MEMP_TCP_PCB) (filter (waited W) (L Time_Wait)) (pools (netw W))\<rparr>"
      "\<forall>v. \<exists>x. tpcb T v = (tpcb W v)\<lparr>t_next := x\<rparr>" "tcp_ticks (tcp T) = tcp_ticks (tcp W)" "serv (tcp T) = serv (tcp W)"
      "tcp_timer_ctr (tcp T) = tcp_timer_ctr (tcp W)" "tcp_timer (tcp T) = tcp_timer (tcp W)"
    using timewait_loop_run [OF h2 h4 h3 h1] by (elim exE conjE)
  have sel: "t_state (tpcb T v) = t_state (tpcb W v)" "idle_block (tpcb T v) = idle_block (tpcb W v)" "t_last_timer (tpcb T v) = t_last_timer (tpcb W v)" for v
  proof -
    obtain x where "tpcb T v = (tpcb W v)\<lparr>t_next := x\<rparr>" using T(4) by blast
    then show "t_state (tpcb T v) = t_state (tpcb W v)" "idle_block (tpcb T v) = idle_block (tpcb W v)" "t_last_timer (tpcb T v) = t_last_timer (tpcb W v)"
      by (simp_all add: idle_block_def)
  qed
  have "tcp_slowtmr io calls S = Some T" unfolding tcp_slowtmr_def Let_def V_def [symmetric] by (simp add: W(1) T(1))
  moreover have "idle_server (L(Time_Wait := filter (still_waiting S) (L Time_Wait))) T"
  proof -
    have "in_state k (t_state (tpcb T v))" if "v \<in> set ((L(Time_Wait := filter (still_waiting S) (L Time_Wait))) k)" for k v
      using that tcp_listsD [OF lW, of v k] by (auto simp: sel split: if_splits)
    then have "tcp_lists (L(Time_Wait := filter (still_waiting S) (L Time_Wait))) T" using T(2) unfolding fl append_Nil tcp_lists_def by blast
    moreover have "idle_block (tpcb T v) \<and> t_last_timer (tpcb T v) \<noteq> tcp_timer_ctr (tcp T) + 1" if "v \<in> set (L Active)" for v
      using kept_idle_server [OF l W(2)] that unfolding idle_server_def sel T(7) by blast
    ultimately show ?thesis unfolding idle_server_def by simp
  qed
  moreover have "\<exists>x. tpcb T v = (tpcb S v)\<lparr>t_next := x\<rparr>" if "v \<notin> set (L Active)" for v using T(4) same [OF that] by metis
  moreover have "netw W = netw S" "tcp_ticks (tcp W) = tcp_ticks (tcp S) + 1" "tcp_timer (tcp W) = tcp_timer (tcp S)" "serv (tcp W) = serv (tcp S)"
    using keptD [OF W(2)] V by simp_all
  ultimately show ?thesis using T(3,5,6,8) by (intro exI [of _ T] conjI allI impI) (simp_all add: fl del: fun_upd_apply)
qed


text \<open>Any number of calls of \<open>tcp_tmr\<close>, one every 250 ms.\<close>

fun tmr_times :: "'s tcp_out \<Rightarrow> 's tcp_calls \<Rightarrow> nat \<Rightarrow> 's tst \<Rightarrow> 's tst option" where
  "tmr_times io calls 0 S = Some S"
| "tmr_times io calls (Suc n) S = do { S \<leftarrow> tmr_times io calls n S; tcp_tmr io calls S }"

definition odd_tick :: "'s tst \<Rightarrow> nat" where "odd_tick S = unat (tcp_timer (tcp S)) mod 2"

lemma unat_and_1: "unat ((t :: u8) AND 1) = unat t mod 2"
  by (simp add: and_one_eq unat_mod)

lemma odd_next: "unat (t + 1 :: u8) mod 2 = 1 - unat t mod 2"
  by (simp add: unat_word_ariths mod_mod_cancel) presburger

lemma tcp_tmr_idle:
  assumes s: "idle_server L S" and q: "quiet_output io" "quiet_poll calls"
  shows "\<exists>T. tcp_tmr io calls S = Some T \<and> odd_tick T = 1 - odd_tick S \<and> serv (tcp T) = serv (tcp S)
    \<and> (\<forall>v. v \<notin> set (L Active) \<longrightarrow> (\<exists>x. tpcb T v = (tpcb S v)\<lparr>t_next := x\<rparr>))
    \<and> (if odd_tick S = 0 then idle_server (L(Time_Wait := filter (still_waiting S) (L Time_Wait))) T \<and> tcp_ticks (tcp T) = tcp_ticks (tcp S) + 1
         \<and> netw T = (netw S)\<lparr>pools := fold (memp_free MEMP_TCP_PCB) (filter (\<lambda>v. \<not> still_waiting S v) (L Time_Wait)) (pools (netw S))\<rparr>
       else idle_server L T \<and> tcp_ticks (tcp T) = tcp_ticks (tcp S) \<and> netw T = netw S)"
proof -
  obtain F where F: "tcp_fasttmr io calls S = Some F" "idle_server L F" "netw F = netw S" "tcp_ticks (tcp F) = tcp_ticks (tcp S)"
    "tcp_timer (tcp F) = tcp_timer (tcp S)" "serv (tcp F) = serv (tcp S)" "\<forall>v. v \<notin> set (L Active) \<longrightarrow> tpcb F v = tpcb S v"
    using fasttmr_idle [OF s] by blast
  define G where "G = upd_tcp (\<lambda>l. l\<lparr>tcp_timer := tcp_timer l + 1\<rparr>) F"
  have G: "tcp_at (tcp G) = tcp_at (tcp F)" "list_head k (tcp G) = list_head k (tcp F)" "tcp_timer_ctr (tcp G) = tcp_timer_ctr (tcp F)"
    "tcp_timer (tcp G) = tcp_timer (tcp S) + 1" "tcp_ticks (tcp G) = tcp_ticks (tcp S)" "netw G = netw S" "serv (tcp G) = serv (tcp S)" for k
    by (simp_all add: G_def F)
  have iG: "idle_server L G" using F(2) tcp_lists_same [of L F G] G(1-3) by (simp add: idle_server_def)
  have odd: "odd_tick G = 1 - odd_tick S" by (simp add: odd_tick_def G(4) odd_next)
  have step: "tcp_tmr io calls S = (if odd_tick S = 0 then tcp_slowtmr io calls G else Some G)"
  proof -
    have "odd_tick S < 2" by (simp add: odd_tick_def)
    then have "tcp_timer (tcp G) AND 1 \<noteq> 0 \<longleftrightarrow> odd_tick S = 0"
      using odd unat_and_1 [of "tcp_timer (tcp G)"] by (auto simp: odd_tick_def [of G] unat_eq_zero [symmetric] simp del: unat_eq_zero)
    then have "tcp_timer (tcp F) + 1 AND 1 \<noteq> 0 \<longleftrightarrow> odd_tick S = 0" by (simp add: G(4) F(5))
    then show ?thesis unfolding tcp_tmr_def F(1) by (auto simp: G_def [symmetric])
  qed
  have at: "tpcb G v = tpcb S v" if "v \<notin> set (L Active)" for v using F(7) that G(1) by simp
  show ?thesis
  proof (cases "odd_tick S = 0")
    case False
    have "\<exists>x. tpcb G v = (tpcb S v)\<lparr>t_next := x\<rparr>" if "v \<notin> set (L Active)" for v
      using at [OF that] by (intro exI [of _ "links S v"]) simp
    then show ?thesis using False step iG G odd by (intro exI [of _ G]) simp
  next
    case True
    have tw: "v \<notin> set (L Active)" if "v \<in> set (L Time_Wait)" for v
      using pcbs_linkedD(3) [of L S Time_Wait Active v] tcp_lists_pcbs_linked [of L S] that s by (simp add: idle_server_def)
    have fl: "filter (still_waiting G) (L Time_Wait) = filter (still_waiting S) (L Time_Wait)"
      "filter (\<lambda>v. \<not> still_waiting G v) (L Time_Wait) = filter (\<lambda>v. \<not> still_waiting S v) (L Time_Wait)"
      using at [OF tw] by (auto intro!: filter_cong simp: still_waiting_def G(5))
    obtain T where T: "tcp_slowtmr io calls G = Some T" "idle_server (L(Time_Wait := filter (still_waiting G) (L Time_Wait))) T"
      "netw T = (netw G)\<lparr>pools := fold (memp_free MEMP_TCP_PCB) (filter (\<lambda>v. \<not> still_waiting G v) (L Time_Wait)) (pools (netw G))\<rparr>"
      "tcp_ticks (tcp T) = tcp_ticks (tcp G) + 1" "tcp_timer (tcp T) = tcp_timer (tcp G)" "serv (tcp T) = serv (tcp G)"
      "\<forall>v. v \<notin> set (L Active) \<longrightarrow> (\<exists>x. tpcb T v = (tpcb G v)\<lparr>t_next := x\<rparr>)"
      using slowtmr_idle [OF iG q] by blast
    have "odd_tick T = 1 - odd_tick S" using odd T(5) by (simp add: odd_tick_def)
    moreover have "\<exists>x. tpcb T v = (tpcb S v)\<lparr>t_next := x\<rparr>" if "v \<notin> set (L Active)" for v
      using T(7) that unfolding at [OF that, symmetric] by blast
    ultimately show ?thesis using True step T(1-4,6) G unfolding fl by (intro exI [of _ T]) simp
  qed
qed

lemma memp_free_fold:
  "memp_rep E sz t P M \<Longrightarrow> distinct us \<Longrightarrow> set us \<subseteq> dom M \<Longrightarrow> memp_rep E sz t (fold (memp_free t) us P) (M |` (- set us))"
proof (induction us arbitrary: P M)
  case (Cons x us)
  have "memp_rep E sz t (memp_free t x P) (M(x := None))" using memp_free_rep [OF Cons.prems(1)] Cons.prems(3) by simp
  then have "memp_rep E sz t (fold (memp_free t) us (memp_free t x P)) ((M(x := None)) |` (- set us))"
    by (rule Cons.IH) (use Cons.prems(2,3) in auto)
  moreover have "(M(x := None)) |` (- set us) = M |` (- set (x # us))" by (auto simp: restrict_map_def fun_eq_iff)
  ultimately show ?case by simp
qed (simp add: restrict_map_def)

lemma tmr_times_idle:
  assumes s: "idle_server L S" and q: "quiet_output io" "quiet_poll calls"
    and m: "memp_rep E sz MEMP_TCP_PCB (pools (netw S)) M" "set (L Time_Wait) \<subseteq> dom M"
  shows "\<exists>T ws k. tmr_times io calls n S = Some T \<and> idle_server (L(Time_Wait := ws)) T \<and> serv (tcp T) = serv (tcp S)
    \<and> set ws \<subseteq> set (L Time_Wait) \<and> memp_rep E sz MEMP_TCP_PCB (pools (netw T)) (M |` (- (set (L Time_Wait) - set ws)))
    \<and> 2 * k + odd_tick S = n + odd_tick T \<and> (\<forall>v \<in> set ws. k \<le> unat (idle_time T v) + 1 \<and> (0 < k \<longrightarrow> unat (idle_time T v) \<le> 240))"
proof (induction n)
  case 0
  have r: "M |` (- (set (L Time_Wait) - set (L Time_Wait))) = M" by (simp add: restrict_map_def)
  show ?case
    by (intro exI [of _ S] exI [of _ "L Time_Wait"] exI [of _ "0 :: nat"]) (simp only: r fun_upd_triv tmr_times.simps s m, simp)
next
  case (Suc n)
  from Suc obtain T ws k where T: "tmr_times io calls n S = Some T" "idle_server (L(Time_Wait := ws)) T" "serv (tcp T) = serv (tcp S)"
    "set ws \<subseteq> set (L Time_Wait)" "memp_rep E sz MEMP_TCP_PCB (pools (netw T)) (M |` (- (set (L Time_Wait) - set ws)))"
    "2 * k + odd_tick S = n + odd_tick T" "\<forall>v \<in> set ws. k \<le> unat (idle_time T v) + 1 \<and> (0 < k \<longrightarrow> unat (idle_time T v) \<le> 240)"
    by (elim exE conjE)
  let ?L = "L(Time_Wait := ws)"
  have l: "pcbs_linked ?L T" using T(2) by (simp add: idle_server_def tcp_lists_pcbs_linked)
  have tw: "v \<notin> set (?L Active)" if "v \<in> set ws" for v using pcbs_linkedD(3) [OF l, of Time_Wait Active v] that by simp
  have d: "distinct ws" using pcbs_linkedD(2) [OF l, of Time_Wait] by simp
  obtain U where U: "tcp_tmr io calls T = Some U" "odd_tick U = 1 - odd_tick T" "serv (tcp U) = serv (tcp T)"
    "\<forall>v. v \<notin> set (?L Active) \<longrightarrow> (\<exists>x. tpcb U v = (tpcb T v)\<lparr>t_next := x\<rparr>)"
    "if odd_tick T = 0 then idle_server (?L(Time_Wait := filter (still_waiting T) (?L Time_Wait))) U \<and> tcp_ticks (tcp U) = tcp_ticks (tcp T) + 1
         \<and> netw U = (netw T)\<lparr>pools := fold (memp_free MEMP_TCP_PCB) (filter (\<lambda>v. \<not> still_waiting T v) (?L Time_Wait)) (pools (netw T))\<rparr>
       else idle_server ?L U \<and> tcp_ticks (tcp U) = tcp_ticks (tcp T) \<and> netw U = netw T"
    using tcp_tmr_idle [OF T(2) q] by (elim exE conjE)
  have tm: "t_tmr (tpcb U v) = t_tmr (tpcb T v)" if "v \<in> set ws" for v
  proof -
    note nv = tw [OF that]
    obtain x where "tpcb U v = (tpcb T v)\<lparr>t_next := x\<rparr>" using U(4) nv by blast
    then show ?thesis by simp
  qed
  have st: "tmr_times io calls (Suc n) S = Some U" using T(1) U(1) by simp
  have lt: "odd_tick T < 2" by (simp add: odd_tick_def)
  show ?case
  proof (cases "odd_tick T = 0")
    case False
    then have "odd_tick T = 1" using lt by simp
    have u: "idle_server ?L U" "idle_time U v = idle_time T v" if "v \<in> set ws" for v
      using U(5) False tm [OF that] by simp_all
    have i: "idle_server ?L U" "netw U = netw T" using U(5) False by simp_all
    have "2 * k + odd_tick S = Suc n + odd_tick U" using T(6) U(2) \<open>odd_tick T = 1\<close> by simp
    moreover have "\<forall>v \<in> set ws. k \<le> unat (idle_time U v) + 1 \<and> (0 < k \<longrightarrow> unat (idle_time U v) \<le> 240)"
      using T(7) u(2) by simp
    moreover have "serv (tcp U) = serv (tcp S)" using U(3) T(3) by simp
    moreover note T(5) [folded i(2)]
    ultimately show ?thesis using st i(1) T(4) by blast
  next
    case True
    define vs where "vs = filter (still_waiting T) ws"
    define gone where "gone = filter (\<lambda>v. \<not> still_waiting T v) ws"
    have r: "idle_server (L(Time_Wait := vs)) U" "tcp_ticks (tcp U) = tcp_ticks (tcp T) + 1"
      "pools (netw U) = fold (memp_free MEMP_TCP_PCB) gone (pools (netw T))"
      using U(5) True by (simp_all add: vs_def gone_def)
    have "set gone \<subseteq> dom (M |` (- (set (L Time_Wait) - set ws)))" using T(4) m(2) by (auto simp: gone_def)
    moreover have "distinct gone" using d by (simp add: gone_def)
    ultimately have "memp_rep E sz MEMP_TCP_PCB (pools (netw U)) ((M |` (- (set (L Time_Wait) - set ws))) |` (- set gone))"
      using memp_free_fold [OF T(5)] r(3) by simp
    moreover have "(M |` (- (set (L Time_Wait) - set ws))) |` (- set gone) = M |` (- (set (L Time_Wait) - set vs))"
      using T(4) by (auto simp: restrict_map_def fun_eq_iff vs_def gone_def)
    moreover have "Suc k \<le> unat (idle_time U v) + 1 \<and> unat (idle_time U v) \<le> 240" if "v \<in> set vs" for v
    proof -
      have v: "v \<in> set ws" "still_waiting T v" using that by (simp_all add: vs_def)
      have e: "idle_time U v = idle_time T v + 1" using tm [OF v(1)] r(2) by (simp add: algebra_simps)
      have le: "unat (idle_time U v) \<le> 240" using v(2) unfolding e still_waiting_def .
      show ?thesis
      proof (cases "k = 0")
        case False
        then have "unat (idle_time T v) \<le> 240" "k \<le> unat (idle_time T v) + 1" using T(7) v(1) by auto
        then have "unat (idle_time U v) = unat (idle_time T v) + 1" unfolding e by (simp add: unat_word_ariths)
        then show ?thesis using \<open>k \<le> unat (idle_time T v) + 1\<close> le by simp
      qed (use le in simp)
    qed
    moreover have "2 * Suc k + odd_tick S = Suc n + odd_tick U" using T(6) U(2) True by simp
    moreover have "set vs \<subseteq> set (L Time_Wait)" using T(4) by (auto simp: vs_def)
    moreover have "serv (tcp U) = serv (tcp S)" using U(3) T(3) by simp
    ultimately have "idle_server (L(Time_Wait := vs)) U" "serv (tcp U) = serv (tcp S)" "set vs \<subseteq> set (L Time_Wait)"
      "memp_rep E sz MEMP_TCP_PCB (pools (netw U)) (M |` (- (set (L Time_Wait) - set vs)))" "2 * Suc k + odd_tick S = Suc n + odd_tick U"
      "\<forall>v \<in> set vs. Suc k \<le> unat (idle_time U v) + 1 \<and> (0 < Suc k \<longrightarrow> unat (idle_time U v) \<le> 240)"
      using r(1) by (simp_all only:) blast
    then show ?thesis using st by blast
  qed
qed



subsection \<open>An instance\<close>

definition idle_ex :: "unit tcp_layer" where
  "idle_ex = (tcp_ex ())\<lparr>tcp_active_pcbs := 0x700, tcp_at := (tcp_at (tcp_ex ()))(0x700 := pcb_in ESTABLISHED 8088 0 NULL)\<rparr>"

lemma upd_tpcb_same: "upd_tpcb u (\<lambda>b. b) S = S"
proof -
  have "upper S = (upper S)\<lparr>above := (inet S)\<lparr>transport := (udp S)\<lparr>app := tcp S\<rparr>\<rparr>\<rparr>" by simp
  then show ?thesis by (simp add: upd_tpcb_def upd_tcp_def upd_udp_def upd_inet_def)
qed

lemma quiet_io_output: "quiet_output quiet_io" and quiet_calls_poll: "quiet_poll quiet_calls"
proof -
  show "quiet_output quiet_io" unfolding quiet_output_def
    by (intro allI impI exI [of _ "\<lambda>b. b"]) (simp add: upd_tpcb_same quiet_io_def)
  show "quiet_poll quiet_calls" by (simp add: quiet_poll_def quiet_calls_def)
qed


end
