(* ===== verification/Server_Send.thy ===== *)
theory Server_Send
  imports Tcp_Udp_Server Tcp_Timers
begin

text \<open>
  The transmit path of the server: \<open>tcp_sendBuf\<close> hands the queued packet of a client to TCP pbuf by
  pbuf. What it relies on is \<open>send_contract\<close>: the octets that TCP has accepted for the connection
  (\<open>stream\<close>, a ghost variable) grow by exactly the octets given to \<open>tcp_write\<close>, and the output half leaves the
  packets of the pool and the variables of the server alone.
\<close>

unbundle bit_operations_syntax

subsection \<open>The contract\<close>

definition spares :: "ptr set \<Rightarrow> sst \<Rightarrow> sst \<Rightarrow> bool" where
  "spares E S T \<longleftrightarrow> (\<forall>x \<in> E. pbufs (netw T) x = pbufs (netw S) x \<and> (\<forall>a \<in> {x ..< x + 528}. mbytes (netw T) a = mbytes (netw S) a))
     \<and> (\<forall>M. Pbuf.pool_rep E (netw S) M \<longrightarrow> Pbuf.pool_rep E (netw T) M) \<and> srv T = srv S"

definition send_contract :: "server tcp_out \<Rightarrow> ptr set \<Rightarrow> (sst \<Rightarrow> bool) \<Rightarrow> (sst \<Rightarrow> u8 list) \<Rightarrow> bool" where
  "send_contract io E ok stream \<longleftrightarrow>
     (\<forall>u a n f S. ok S \<longrightarrow> (\<exists>T e. tcp_write io u a n f S = Some (T, e) \<and> ok T \<and> spares E S T
        \<and> stream T = (if e = ERR_OK then stream S @ mem_range (mbytes (netw S)) a (unat n) else stream S)))
     \<and> (\<forall>u S. ok S \<longrightarrow> (\<exists>T e. tcp_output io u S = Some (T, e) \<and> ok T \<and> spares E S T \<and> stream T = stream S))
     \<and> (\<forall>f S. ok S \<longrightarrow> ok (upd_srv f S) \<and> stream (upd_srv f S) = stream S)
     \<and> (\<forall>u w a g S. ok S \<longrightarrow> (let T = upd_tpcb u (\<lambda>b. b\<lparr>t_rcv_wnd := w, t_rcv_ann_wnd := a, t_flags := g\<rparr>) S in ok T \<and> stream T = stream S))
     \<and> (\<forall>x f S. ok S \<longrightarrow> x \<in> E \<longrightarrow> (let T = S\<lparr>netw := upd_pbuf x f (netw S)\<rparr> in ok T \<and> stream T = stream S))
     \<and> (\<forall>x S. ok S \<longrightarrow> x \<in> E \<longrightarrow> (let T = memp_free_st MEMP_PBUF_POOL x S in ok T \<and> stream T = stream S))"

lemma send_contractD:
  assumes "send_contract io E ok stream" "ok S"
  shows "\<exists>T e. tcp_write io u a n f S = Some (T, e) \<and> ok T \<and> spares E S T
      \<and> stream T = (if e = ERR_OK then stream S @ mem_range (mbytes (netw S)) a (unat n) else stream S)"
    "\<exists>T e. tcp_output io u S = Some (T, e) \<and> ok T \<and> spares E S T \<and> stream T = stream S"
    "ok (upd_srv g S)" "stream (upd_srv g S) = stream S"
    "x \<in> E \<Longrightarrow> ok (S\<lparr>netw := upd_pbuf x h (netw S)\<rparr>)" "x \<in> E \<Longrightarrow> stream (S\<lparr>netw := upd_pbuf x h (netw S)\<rparr>) = stream S"
    "x \<in> E \<Longrightarrow> ok (memp_free_st MEMP_PBUF_POOL x S)" "x \<in> E \<Longrightarrow> stream (memp_free_st MEMP_PBUF_POOL x S) = stream S"
  using assms unfolding send_contract_def Let_def by blast+

lemma contract_rcv:
  assumes "send_contract io E ok stream" "ok S"
  shows "ok (upd_tpcb u (\<lambda>b. b\<lparr>t_rcv_wnd := w, t_rcv_ann_wnd := a, t_flags := g\<rparr>) S)"
    "stream (upd_tpcb u (\<lambda>b. b\<lparr>t_rcv_wnd := w, t_rcv_ann_wnd := a, t_flags := g\<rparr>) S) = stream S"
  using assms unfolding send_contract_def Let_def by blast+

lemma upd_srv_sel [simp]: "srv (upd_srv f S) = f (srv S)" "netw (upd_srv f S) = netw S" "tpcb (upd_srv f S) = tpcb S"
  by (simp_all add: upd_srv_def)

lemma spares_refl: "spares E S S"
  by (simp add: spares_def)

lemma spares_trans: "spares E S T \<Longrightarrow> spares E T U \<Longrightarrow> spares E S U"
  by (simp add: spares_def)

lemma spares_tcp: "srv T = srv S \<Longrightarrow> netw T = netw S \<Longrightarrow> spares E S T"
  by (simp add: spares_def)

lemma tcp_recved_spares:
  assumes c: "send_contract io E ok stream" and o: "ok S"
  shows "\<exists>T. tcp_recved io u len S = Some T \<and> ok T \<and> spares E S T \<and> stream T = stream S"
proof -
  have one: "ok T \<and> stream T = stream S \<and> spares E S T"
    if "T = upd_tpcb u f S" "f (tpcb S u) = (tpcb S u)\<lparr>t_rcv_wnd := w, t_rcv_ann_wnd := a, t_flags := g\<rparr>" "ok S" for f w a g and S T :: sst
  proof -
    have "T = upd_tpcb u (\<lambda>b. b\<lparr>t_rcv_wnd := w, t_rcv_ann_wnd := a, t_flags := g\<rparr>) S" unfolding that(1) by (rule upd_tpcb_cong) (rule that(2))
    then show ?thesis using contract_rcv [OF c that(3)] by (simp add: spares_tcp)
  qed
  define A where "A = upd_tpcb u (\<lambda>b. b\<lparr>t_rcv_wnd := t_rcv_wnd b + len\<rparr>) S"
  define B where "B = (if uint (t_rcv_wnd (tpcb A u)) > TCP_WND then upd_tpcb u (\<lambda>b. b\<lparr>t_rcv_wnd := word_of_int TCP_WND\<rparr>) A else A)"
  obtain C i where C: "tcp_update_rcv_ann_wnd u B = (C, i)" by fastforce
  have a: "ok A \<and> stream A = stream S \<and> spares E S A"
    by (rule one [OF A_def _ o, where w = "t_rcv_wnd (tpcb S u) + len" and a = "t_rcv_ann_wnd (tpcb S u)" and g = "t_flags (tpcb S u)"]) simp
  have b: "ok B \<and> stream B = stream S \<and> spares E S B"
  proof (cases "uint (t_rcv_wnd (tpcb A u)) > TCP_WND")
    case True
    then have "ok B \<and> stream B = stream A \<and> spares E A B" unfolding B_def if_P [OF True]
      by (intro one [where f = "\<lambda>b. b\<lparr>t_rcv_wnd := word_of_int TCP_WND\<rparr>" and w = "word_of_int TCP_WND" and a = "t_rcv_ann_wnd (tpcb A u)" and g = "t_flags (tpcb A u)"]) (use a in simp_all)
    then show ?thesis using a spares_trans by metis
  qed (use a in \<open>simp add: B_def\<close>)
  have "\<exists>w. C = upd_tpcb u (\<lambda>b. b\<lparr>t_rcv_ann_wnd := w b\<rparr>) B"
    using C unfolding tcp_update_rcv_ann_wnd_def Let_def by (auto split: if_splits)
  then obtain w where w: "C = upd_tpcb u (\<lambda>b. b\<lparr>t_rcv_ann_wnd := w b\<rparr>) B" by blast
  have "ok C \<and> stream C = stream B \<and> spares E B C"
    by (rule one [OF w, where w = "t_rcv_wnd (tpcb B u)" and a = "w (tpcb B u)" and g = "t_flags (tpcb B u)"]) (use b in simp_all)
  then have cc: "ok C \<and> stream C = stream S \<and> spares E S C" using b spares_trans by metis
  have run: "tcp_recved io u len S = (if sint i \<ge> TCP_WND_UPDATE_THRESHOLD then do { (S, err) \<leftarrow> tcp_output io u (tcp_ack_now u C); Some S } else Some C)"
    by (simp add: tcp_recved_def A_def [symmetric] B_def [symmetric] C Let_def)
  have d: "ok (tcp_ack_now u C) \<and> stream (tcp_ack_now u C) = stream C \<and> spares E C (tcp_ack_now u C)"
    by (rule one [OF tcp_ack_now_def, where w = "t_rcv_wnd (tpcb C u)" and a = "t_rcv_ann_wnd (tpcb C u)" and g = "t_flags (tpcb C u) OR TF_ACK_NOW"]) (use cc in simp_all)
  show ?thesis
  proof (cases "sint i \<ge> TCP_WND_UPDATE_THRESHOLD")
    case True
    obtain T e where T: "tcp_output io u (tcp_ack_now u C) = Some (T, e)" "ok T" "spares E (tcp_ack_now u C) T" "stream T = stream (tcp_ack_now u C)"
      using send_contractD(2) [OF c] d by blast
    have "spares E S T" using cc d T(3) spares_trans by metis
    then show ?thesis using True run T cc d by simp
  next
    case False
    then show ?thesis using run cc by simp
  qed
qed


subsection \<open>The queue of a client\<close>

definition queued :: "ptr set \<Rightarrow> (ptr \<rightharpoonup> int set) \<Rightarrow> ptr \<Rightarrow> ptr list \<Rightarrow> sst \<Rightarrow> bool" where
  "queued E M info ps S \<longleftrightarrow> live_info info S \<and> Pbuf.chain (pbufs (netw S)) (info_sendBuf (srv S) info) ps \<and> distinct ps
     \<and> (\<forall>x \<in> set ps. pool_pbuf (netw S) x) \<and> set ps \<subseteq> dom M \<and> Pbuf.pool_rep E (netw S) M"

lemma queuedD:
  assumes "queued E M info ps S"
  shows "live_info info S" "Pbuf.chain (pbufs (netw S)) (info_sendBuf (srv S) info) ps" "distinct ps" "x \<in> set ps \<Longrightarrow> pool_pbuf (netw S) x"
    "set ps \<subseteq> dom M" "Pbuf.pool_rep E (netw S) M" "set ps \<subseteq> E"
proof -
  show m: "Pbuf.pool_rep E (netw S) M" "set ps \<subseteq> dom M" using assms by (simp_all add: queued_def)
  then show "set ps \<subseteq> E" using memp_rep_dom [OF m(1)] by blast
qed (use assms in \<open>simp_all add: queued_def\<close>)

lemma spares_content:
  assumes "spares E S T" "\<forall>x \<in> set ps. pool_pbuf (netw S) x" "set ps \<subseteq> E"
  shows "content (netw T) ps = content (netw S) ps"
  using assms(2,3)
proof (induction ps)
  case (Cons x ps)
  have x: "pbufs (netw T) x = pbufs (netw S) x" "\<forall>a \<in> {x ..< x + 528}. mbytes (netw T) a = mbytes (netw S) a"
    using bspec [OF assms(1) [unfolded spares_def, THEN conjunct1], of x] Cons.prems(2) by simp_all
  have "mem_range (mbytes (netw T)) (ppay (netw S) x) (unat (plen (netw S) x)) = mem_range (mbytes (netw S)) (ppay (netw S) x) (unat (plen (netw S) x))"
    unfolding mem_range_def
  proof (rule map_cong [OF refl])
    fix i assume "i \<in> set [0 ..< unat (plen (netw S) x)]"
    then have "i < unat (plen (netw S) x)" by simp
    then have "int i < uint (plen (netw S) x)" using uint_nat [of "plen (netw S) x"] by linarith
    moreover have "pool_pbuf (netw S) x" using Cons.prems(1) by simp
    then have "x + 16 \<le> ppay (netw S) x" "ppay (netw S) x + uint (plen (netw S) x) \<le> x + 528" by (simp_all only: pool_pbuf_def)
    ultimately have "ppay (netw S) x + int i \<in> {x ..< x + 528}" unfolding atLeastLessThan_iff by linarith
    then show "mbytes (netw T) (ppay (netw S) x + int i) = mbytes (netw S) (ppay (netw S) x + int i)" by (rule bspec [OF x(2)])
  qed
  moreover have "content (netw T) ps = content (netw S) ps" by (rule Cons.IH) (use Cons.prems in simp_all)
  ultimately show ?case unfolding content_simps x(1) by simp
qed simp

lemma spares_queued:
  assumes q: "queued E M info ps S" and s: "spares E S T"
  shows "queued E M info ps T"
proof -
  have sv: "srv T = srv S" "\<And>x. x \<in> set ps \<Longrightarrow> pbufs (netw T) x = pbufs (netw S) x"
    using s queuedD(7) [OF q] by (auto simp: spares_def)
  have "Pbuf.chain (pbufs (netw T)) (info_sendBuf (srv S) info) ps" using queuedD(2) [OF q] sv(2) by (subst chain_frame [of _ _ "pbufs (netw S)"]) auto
  moreover have "Pbuf.pool_rep E (netw T) M" using s queuedD(6) [OF q] by (simp add: spares_def)
  ultimately show ?thesis using q sv by (simp add: queued_def live_info_def pool_pbuf_def)
qed

text \<open>The first pbuf has been written: it goes back to the pool, the rest is the queue.\<close>

definition next_queued :: "ptr \<Rightarrow> ptr \<Rightarrow> sst \<Rightarrow> sst option" where
  "next_queued info p S = do {
     let q = pnx (netw S) p;
     S \<leftarrow> set_sendBuf info q S;
     let S = (if q \<noteq> NULL then S\<lparr>netw := pbuf_ref q (netw S)\<rparr> else S);
     free_packet p S }"

lemma next_queued_run:
  assumes q: "queued E M info (p # ps) S" and c: "send_contract io E ok stream" and o: "ok S"
  shows "\<exists>T. next_queued info p S = Some T \<and> queued E (M(p := None)) info ps T \<and> ok T \<and> stream T = stream S
    \<and> (\<forall>xs. set xs \<subseteq> set ps \<longrightarrow> content (netw T) xs = content (netw S) xs) \<and> info_pcb (srv T) = info_pcb (srv S) \<and> (\<forall>x \<in> set ps. pbufs (netw T) x = pbufs (netw S) x)
    \<and> tcp_at (tcp T) = tcp_at (tcp S) \<and> (\<forall>j. j \<noteq> info \<longrightarrow> info_sendBuf (srv T) j = info_sendBuf (srv S) j) \<and> clients (srv T) = clients (srv S)"
proof -
  note qd = queuedD [OF q]
  have ch: "p \<noteq> NULL" "Pbuf.chain (pbufs (netw S)) (pnx (netw S) p) ps" "distinct (p # ps)" using qd(2,3) by auto
  have pE: "p \<in> E" "set ps \<subseteq> E" using qd(7) by auto
  have pp: "pool_pbuf (netw S) x" if "x \<in> set (p # ps)" for x using qd(4) that by blast
  define A where "A = upd_srv (\<lambda>v. v\<lparr>info_sendBuf := (info_sendBuf v)(info := pnx (netw S) p)\<rparr>) S"
  have A: "netw A = netw S" "ok A" "stream A = stream S" using send_contractD(3,4) [OF c o] by (simp_all add: A_def)
  define B where "B = (if pnx (netw S) p \<noteq> NULL then A\<lparr>netw := pbuf_ref (pnx (netw S) p) (netw S)\<rparr> else A)"
  define N where "N = release [p] (netw S)"
  have hd: "ps = [] \<longleftrightarrow> pnx (netw S) p = NULL" "ps \<noteq> [] \<Longrightarrow> hd ps = pnx (netw S) p" using ch(2) by (cases ps; auto)+
  have B: "ok B \<and> stream B = stream S"
  proof (cases "ps = []")
    case True
    then show ?thesis using A hd by (simp add: B_def)
  next
    case False
    then have "pnx (netw S) p \<in> E" using hd(2) pE(2) by (metis hd_in_set subsetD)
    moreover have "pbuf_ref (pnx (netw S) p) (netw S) = upd_pbuf (pnx (netw S) p) (\<lambda>b. b\<lparr>p_ref := p_ref b + 1\<rparr>) (netw S)"
      using False hd(1) by (simp add: pbuf_ref_def)
    ultimately show ?thesis using send_contractD(5,6) [OF c A(2), of "pnx (netw S) p" "\<lambda>b. b\<lparr>p_ref := p_ref b + 1\<rparr>"] A hd(1) False by (simp add: B_def)
  qed
  have nB: "netw B = (if ps = [] then netw S else upd_pbuf (hd ps) (\<lambda>b. b\<lparr>p_ref := p_ref b + 1\<rparr>) (netw S))"
    using hd A(1) by (simp add: B_def pbuf_ref_def)
  have pn: "p \<notin> set ps" "ps \<noteq> [] \<Longrightarrow> hd ps \<noteq> p" using ch(3) by auto
  have free: "pbuf_free p (netw B) = Some (if ps = [] then release [p] (netw B) else unref (hd ps) (release [p] (netw B)), of_nat (length [p]))"
  proof (rule pbuf_free_chain)
    have "Pbuf.chain (pbufs (netw S)) p ([p] @ ps)" using ch(1,2) by simp
    then show "Pbuf.chain (pbufs (netw B)) p ([p] @ ps)" by (subst chain_frame [of _ _ "pbufs (netw S)"]) (auto simp: nB)
    show "\<forall>x \<in> set [p]. pref (netw B) x = 1 \<and> \<not> custom (netw B) x" using pp [of p] pn(2) by (auto simp: nB pool_pbuf_def)
    show "ps = [] \<or> pref (netw B) (hd ps) \<noteq> 1"
    proof (cases ps)
      case (Cons y ys)
      then show ?thesis using pp [of y] by (simp add: nB pool_pbuf_def)
    qed simp
  qed (use ch(3) in simp)
  define B1 where "B1 = B\<lparr>netw := upd_pbuf p (\<lambda>b. b\<lparr>p_ref := p_ref b - 1\<rparr>) (netw B)\<rparr>"
  define B2 where "B2 = memp_free_st MEMP_PBUF_POOL p B1"
  define T where "T = (if ps = [] then B2 else B2\<lparr>netw := upd_pbuf (hd ps) (\<lambda>b. b\<lparr>p_ref := p_ref b - 1\<rparr>) (netw B2)\<rparr>)"
  have tp: "p_type (pbufs (netw B) p) = PBUF_POOL" using pp [of p] pn(2) by (cases "ps = []") (auto simp: nB pool_pbuf_def)
  have rel: "release [p] (netw B) = netw B2"
    using tp by (simp add: dealloc_def unref_def B2_def B1_def memp_free_st_def)
  have run: "next_queued info p S = Some T"
  proof -
    have "next_queued info p S = free_packet p B"
    proof -
      have "set_sendBuf info (pnx (netw S) p) S = Some A" using qd(1) by (simp add: set_sendBuf_def A_def)
      then show ?thesis by (simp add: next_queued_def Let_def B_def A(1))
    qed
    also have "\<dots> = Some T" unfolding free_packet_def free rel by (simp add: T_def unref_def B2_def B1_def memp_free_st_def)
    finally show ?thesis .
  qed
  have okT: "ok T \<and> stream T = stream S"
  proof -
    have b1: "ok B1 \<and> stream B1 = stream S" using send_contractD(5,6) [OF c _ pE(1)] B by (simp add: B1_def)
    then have b2: "ok B2 \<and> stream B2 = stream S" using send_contractD(7,8) [OF c _ pE(1)] by (simp add: B2_def)
    show ?thesis
    proof (cases "ps = []")
      case False
      then have "hd ps \<in> E" using pE(2) by (cases ps) auto
      then show ?thesis using send_contractD(5,6) [OF c] b2 False by (simp add: T_def)
    qed (use b2 in \<open>simp add: T_def\<close>)
  qed
  have pb: "pbufs (netw T) x = pbufs (netw S) x" if "x \<noteq> p" for x
    using that pn(2) by (cases ps) (auto simp: T_def B2_def B1_def memp_free_st_def nB)
  have hp: "mheap (netw T) = mheap (netw S)" "pools (netw T) = memp_free MEMP_PBUF_POOL p (pools (netw S))"
    by (simp_all add: T_def B2_def B1_def memp_free_st_def nB)
  have sv: "srv T = srv A" "tcp_at (tcp T) = tcp_at (tcp S)"
    by (simp_all add: T_def B2_def B1_def memp_free_st_def B_def) (simp add: A_def upd_srv_def)
  have xp: "x \<noteq> p" if "x \<in> set ps" for x using pn(1) that by auto
  have sb: "info_sendBuf (srv T) info = pnx (netw S) p" by (simp add: sv A_def)
  have "queued E (M(p := None)) info ps T"
  proof -
    have "Pbuf.chain (pbufs (netw T)) (pnx (netw S) p) ps"
      using ch(2) pb xp by (subst chain_frame [of _ _ "pbufs (netw S)"]) auto
    moreover have "pool_pbuf (netw T) x" if "x \<in> set ps" for x using pp [of x] that by (simp add: pool_pbuf_def pb [OF xp [OF that]])
    moreover have "Pbuf.pool_rep E (netw T) (M(p := None))" using memp_free_rep [OF qd(6), of p] qd(5) unfolding hp(2) by simp
    moreover have "live_info info T" using qd(1) by (simp add: live_info_def sv A_def)
    ultimately show ?thesis using ch(3) qd(5) pn(1) unfolding queued_def sb by auto
  qed
  moreover have "content (netw T) xs = content (netw S) xs" if "set xs \<subseteq> set ps" for xs using pb xp hp(1) that by (intro content_frame) auto
  moreover have "\<forall>x \<in> set ps. pbufs (netw T) x = pbufs (netw S) x" using pb xp by blast
  moreover have "info_pcb (srv T) = info_pcb (srv S)" "clients (srv T) = clients (srv S)"
    "\<forall>j. j \<noteq> info \<longrightarrow> info_sendBuf (srv T) j = info_sendBuf (srv S) j" by (simp_all add: sv A_def)
  ultimately show ?thesis using run okT sv(2) by blast
qed


subsection \<open>The loop\<close>

lemma send_loop_step:
  assumes q: "queued E M info (p # ps) S" and c: "send_contract io E ok stream" and o: "ok S"
    and fits: "plen (netw S) p \<le> t_snd_buf (tpcb S (info_pcb (srv S) info))"
  shows "(\<exists>T. tcp_sendBuf io info S = Some T \<and> queued E M info (p # ps) T \<and> stream T = stream S \<and> ok T
        \<and> content (netw T) (p # ps) = content (netw S) (p # ps)
        \<and> (\<exists>e U. tcp_write io (info_pcb (srv S) info) (pay S p) (plen (netw S) p) TCP_WRITE_FLAG_COPY S = Some (U, e) \<and> e \<noteq> ERR_OK))
    \<or> (\<exists>T. tcp_sendBuf io info S = tcp_sendBuf io info T \<and> queued E (M(p := None)) info ps T \<and> ok T
        \<and> stream T = stream S @ content (netw S) [p] \<and> (\<forall>xs. set xs \<subseteq> set ps \<longrightarrow> content (netw T) xs = content (netw S) xs)
        \<and> info_pcb (srv T) info = info_pcb (srv S) info)"
proof -
  note qd = queuedD [OF q]
  let ?u = "info_pcb (srv S) info"
  have sb: "info_sendBuf (srv S) info = p" "p \<noteq> NULL" using qd(2) by auto
  obtain W e where W: "tcp_write io ?u (pay S p) (plen (netw S) p) TCP_WRITE_FLAG_COPY S = Some (W, e)" "ok W" "spares E S W"
    "stream W = (if e = ERR_OK then stream S @ mem_range (mbytes (netw S)) (pay S p) (unat (plen (netw S) p)) else stream S)"
    using send_contractD(1) [OF c o] by blast
  note qW = spares_queued [OF q W(3)]
  have cW: "content (netw W) xs = content (netw S) xs" if "set xs \<subseteq> set (p # ps)" for xs
    by (rule spares_content [OF W(3)]) (use qd(4,7) that in auto)
  have sW: "srv W = srv S" "pbufs (netw W) p = pbufs (netw S) p" using W(3) qd(7) by (simp_all add: spares_def)
  have get: "get_sendBuf info S = Some p" "get_pcb info S = Some ?u" using qd(1) sb(1) by (simp_all add: get_sendBuf_def get_pcb_def)
  show ?thesis
  proof (cases "e = ERR_OK")
    case False
    obtain V where V: "(if e = ERR_MEM then set_sendBuf info p W else Some W) = Some V" "ok V" "stream V = stream W" "netw V = netw W"
      "queued E M info (p # ps) V" "info_pcb (srv V) = info_pcb (srv W)"
    proof (cases "e = ERR_MEM")
      case True
      let ?V = "upd_srv (\<lambda>v. v\<lparr>info_sendBuf := (info_sendBuf v)(info := p)\<rparr>) W"
      have "queued E M info (p # ps) ?V" using qW sb(1) sW(1) by (simp add: queued_def live_info_def)
      then show thesis using that [of ?V] True queuedD(1) [OF qW] send_contractD(3,4) [OF c W(2)] by (simp add: set_sendBuf_def)
    next
      case False
      then show thesis using that [of W] qW W(2) by simp
    qed
    obtain T g where T: "tcp_output io ?u V = Some (T, g)" "ok T" "spares E V T" "stream T = stream V"
      using send_contractD(2) [OF c V(2)] by blast
    have gV: "get_pcb info V = Some ?u" using queuedD(1) [OF V(5)] V(6) sW(1) by (simp add: get_pcb_def)
    have qT: "queued E M info (p # ps) T" by (rule spares_queued [OF V(5) T(3)])
    have "tcp_sendBuf io info S = send_loop io info e T"
      unfolding tcp_sendBuf_def using False V(1) gV T(1) fits sb(2) get W(1)
      by (subst send_loop.simps) (simp add: sW)
    also have "\<dots> = Some T"
      using False queuedD(1,2) [OF qT] by (subst send_loop.simps) (simp add: get_sendBuf_def get_pcb_def)
    finally have run: "tcp_sendBuf io info S = Some T" .
    have "content (netw T) (p # ps) = content (netw V) (p # ps)" by (rule spares_content [OF T(3)]) (use queuedD(4,7) [OF V(5)] in auto)
    then have "content (netw T) (p # ps) = content (netw S) (p # ps)" using cW [of "p # ps"] V(4) by simp
    moreover have "stream T = stream S" using T(4) V(3) W(4) False by simp
    ultimately show ?thesis using run qT T(2) W(1) False by blast
  next
    case True
    obtain V where V: "next_queued info p W = Some V" "queued E (M(p := None)) info ps V" "ok V" "stream V = stream W"
      "\<And>xs. set xs \<subseteq> set ps \<Longrightarrow> content (netw V) xs = content (netw W) xs" "info_pcb (srv V) = info_pcb (srv W)"
      using next_queued_run [OF qW c W(2)] by blast
    have gV: "get_pcb info V = Some ?u" using queuedD(1) [OF V(2)] V(6) sW(1) by (simp add: get_pcb_def)
    obtain R where R: "tcp_recved io ?u (plen (netw S) p) V = Some R" "ok R" "spares E V R" "stream R = stream V"
      using tcp_recved_spares [OF c V(3)] by blast
    have "srv R = srv V" using R(3) by (simp add: spares_def)
    then have gR: "get_pcb info R = Some ?u" using queuedD(1) [OF V(2)] V(6) sW(1) by (simp add: get_pcb_def live_info_def)
    obtain T g where T: "tcp_output io ?u R = Some (T, g)" "ok T" "spares E R T" "stream T = stream R"
      using send_contractD(2) [OF c R(2)] by blast
    have s: "spares E V T" by (rule spares_trans [OF R(3) T(3)])
    note qT = spares_queued [OF V(2) s]
    have nx: "Option.bind (set_sendBuf info (pnx (netw W) p) W)
        (\<lambda>S. let S = (if pnx (netw W) p \<noteq> NULL then S\<lparr>netw := pbuf_ref (pnx (netw W) p) (netw S)\<rparr> else S) in Option.bind (free_packet p S) f) = f V" for f :: "sst \<Rightarrow> sst option"
      using V(1) unfolding next_queued_def Let_def by (auto simp: bind_eq_Some_conv)
    have "tcp_sendBuf io info S = send_loop io info ERR_OK T"
      unfolding tcp_sendBuf_def
      using True fits sb(2) get W(1) gV gR R(1) T(1) nx [unfolded sW(2) Let_def]
      by (subst send_loop.simps) (simp add: sW Let_def)
    then have run: "tcp_sendBuf io info S = tcp_sendBuf io info T" by (simp add: tcp_sendBuf_def)
    have "content (netw T) xs = content (netw S) xs" if xs: "set xs \<subseteq> set ps" for xs
    proof -
      have "content (netw T) xs = content (netw V) xs" by (rule spares_content [OF s]) (use xs queuedD(4,7) [OF V(2)] in auto)
      then show ?thesis using cW [of xs] V(5) [OF xs] xs by auto
    qed
    moreover have "stream T = stream S @ content (netw S) [p]" using T(4) R(4) V(4) W(4) True by simp
    moreover have "info_pcb (srv T) info = ?u" using s V(6) sW(1) by (simp add: spares_def)
    ultimately show ?thesis using run qT T(2) by blast
  qed
qed

lemma send_loop_stops:
  assumes q: "queued E M info ps S"
    and "ps = [] \<or> t_snd_buf (tpcb S (info_pcb (srv S) info)) < plen (netw S) (hd ps)"
  shows "tcp_sendBuf io info S = Some S"
proof (cases ps)
  case Nil
  then show ?thesis using queuedD(1,2) [OF q] unfolding tcp_sendBuf_def by (subst send_loop.simps) (simp add: get_sendBuf_def get_pcb_def)
next
  case (Cons p qs)
  have "get_sendBuf info S = Some p" "get_pcb info S = Some (info_pcb (srv S) info)"
    using queuedD(1,2) [OF q] by (simp_all add: get_sendBuf_def get_pcb_def Cons)
  moreover have "\<not> plen (netw S) p \<le> t_snd_buf (tpcb S (info_pcb (srv S) info))" using assms(2) by (simp add: Cons)
  ultimately show ?thesis unfolding tcp_sendBuf_def by (subst send_loop.simps) simp
qed

lemma content_append: "content N (xs @ ys) = content N xs @ content N ys"
  by (induction xs) simp_all

lemma restrict_rest: "(M(p := None)) |` (- X) = M |` (- insert p X)"
  by (auto simp: restrict_map_def fun_eq_iff)

definition never_refuses :: "server tcp_out \<Rightarrow> (sst \<Rightarrow> bool) \<Rightarrow> bool" where
  "never_refuses io ok \<longleftrightarrow> (\<forall>u a n f S T e. ok S \<longrightarrow> tcp_write io u a n f S = Some (T, e) \<longrightarrow> e = ERR_OK)"

definition no_room :: "ptr \<Rightarrow> ptr list \<Rightarrow> sst \<Rightarrow> bool" where
  "no_room info ps S \<longleftrightarrow> ps = [] \<or> t_snd_buf (tpcb S (info_pcb (srv S) info)) < plen (netw S) (hd ps)"


text \<open>A TCP that takes everything: as the stream, the octets are kept in an interface that nothing uses.\<close>

definition stream_ex :: "sst \<Rightarrow> u8 list" where
  "stream_ex S = n_hwaddr (nif S 99)"

definition room_ex :: "sst \<Rightarrow> bool" where
  "room_ex S \<longleftrightarrow> (\<forall>u. t_snd_buf (tpcb S u) = 1000)"

definition eager_io :: "server tcp_out" where
  "eager_io = quiet_io\<lparr>tcp_write := (\<lambda>u a n f S.
     Some (upd_nif 99 (\<lambda>i. i\<lparr>n_hwaddr := n_hwaddr i @ mem_range (mbytes (netw S)) a (unat n)\<rparr>) S, ERR_OK))\<rparr>"

definition client_ex :: "ptr \<Rightarrow> server" where
  "client_ex p = \<lparr>clients = \<lparr>nodes = [0x10 \<mapsto> \<lparr>prev = NULL, nxt = NULL\<rparr>], lens = (\<lambda>_. None)\<rparr>, info_pcb = (\<lambda>_. 0x700), info_sendBuf = (\<lambda>_. p),
     udp_info_pcb = (\<lambda>_. NULL), ntoa_str = []\<rparr>"

definition sending_ex :: "net \<Rightarrow> ptr \<Rightarrow> sst" where
  "sending_ex N p = tcp_host N ((tcp_ex (client_ex p))\<lparr>tcp_at := (\<lambda>_. tcp_pcb_zero\<lparr>t_snd_buf := 1000\<rparr>)\<rparr>)"

lemma eager_contract: "send_contract eager_io E room_ex stream_ex"
  unfolding send_contract_def eager_io_def quiet_io_def
  by (simp add: room_ex_def stream_ex_def spares_def Let_def memp_free_st_def upd_nif_def upd_udp_def upd_tcp_def upd_tpcb_def upd_srv_def)


end
