(* ===== verification/Spec2Isabelle.thy ===== *)
theory Spec2Isabelle
  imports Linked_List Malloc Byte_Order Inet_Chksum Ip_Addr Mem Memp Pbuf Lwip_Comm Eth_Driver Etharp
    Pbuf_Chksum Ip Raw Ip_Input Udp Frames Echo Key Tcp Tcp_Udp_Server Tcp_Lists Tcp_Timers Server_Send
begin

text \<open>
  A model of the STM32F4 TCP/UDP server: a board with an Ethernet MAC that runs lwIP 1.4.1
  without an operating system (\<open>NO_SYS\<close>) and serves TCP port 8088 and UDP ports 1234 and 1235.
  Paths are under src/project; \<open>lwip/\<close> stands for LWIP/lwip-1.4.1/src.

  \<^bold>\<open>How the program works.\<close> \<open>main\<close> (USER/main.c) sets up the hardware, retries
  \<open>lwip_comm_init\<close> until it succeeds, waits for DHCP, and runs \<open>tcp_udp_test\<close>, the server, whose
  loop polls the keys and calls \<open>lwip_periodic_handle\<close>. The clock is a counter that the timer
  interrupt advances by 10 ms. Frames arrive by the Ethernet interrupt: the descriptor ring of the
  DMA is drained, each frame is copied into pool packets and handed up, \<open>ethernet_input\<close>,
  \<open>ip_input\<close>, \<open>icmp_input\<close>/\<open>udp_input\<close>/\<open>tcp_input\<close>, to the callback of a control block; answers
  go down by \<open>ip_output_if\<close>, \<open>etharp_output\<close>, \<open>low_level_output\<close> to the transmit ring.

  \<^bold>\<open>Theories and code.\<close>
  \<^item> Prelude: the collections, the types of addresses and words, lemmas on lists, maps and words.
  \<^item> Allocator: the locale \<open>allocator\<close>, the contract of every memory manager here (a new block is
    apart from the live ones and within the region; a release forgets it), and histories of calls
    as an inductive relation; interpreted in Malloc (\<open>pool\<close>), Mem (\<open>heap\<close>) and Memp (\<open>memp\<close>).
  \<^item> Linked_List (SYSTEM/container/linked_list.c): the ring of nodes with a head as maps of
    \<open>next\<close> and \<open>prev\<close>; the locale \<open>sequence\<close> is the abstract list, interpreted on the ring.
  \<^item> Malloc (MALLOC/malloc.c): the three block pools of the board with their tables.
  \<^item> Byte_Order (lwip/core/def.c) and Inet_Chksum, Pbuf_Chksum (lwip/core/ipv4/inet_chksum.c): the
    three checksum routines, over a buffer and over a chain of packets, against the reference sum of
    RFC 1071 (locale \<open>checksum\<close>, three interpretations).
  \<^item> Ip_Addr (lwip/core/ipv4/ip_addr.c): parsing, printing and netmasks.
  \<^item> Mem (lwip/core/mem.c): the first-fit heap; Memp (lwip/core/memp.c, memp_std.h): the pools of
    elements; Pbuf (lwip/core/pbuf.c): packets as chains of \<open>struct pbuf\<close> over both. The record
    \<open>net\<close> holds pbufs, heap and pools, with one memory of octets.
  \<^item> Lwip_Comm (LWIP/lwip_app/lwip_comm/lwip_comm.c, parts of lan8720.c, timer.c, main.c): memory
    and start-up, the timers, the DHCP state machine.
  \<^item> Eth_Driver (HARDWARE/ETHERNET/lan8720.c, lwip/netif/ethernetif.c, stm32f4x7_eth.c): descriptor
    rings, reception, transmission and the interrupt; the record \<open>eth\<close> extends \<open>net\<close> by
    descriptors and registers, its field \<open>upper\<close> holds the layers above.
  \<^item> Etharp (lwip/netif/etharp.c): the ARP table, \<open>ethernet_input\<close>, \<open>etharp_output\<close>.
  \<^item> Ip, Ip_Input (lwip/core/ipv4/ip.c), Ip also icmp.c; Raw (raw.c); Udp (udp.c). Each layer keeps
    its variables in a record whose last field is the state of the layers over it, and gets the
    functions it calls upwards as a record of operations (\<open>arp_ops\<close>, \<open>ip_ops\<close>, \<open>recv_call\<close>);
    the composition of the program instantiates them: \<open>ip_input := ip_receive ops\<close>,
    \<open>udp_input := udp_receive ops call\<close>.
  \<^item> Frames: packets followed down through the layers to the octets of the DMA buffer.
    Echo: frames followed up to the protocols, and the answer to a ping.
  \<^item> Tcp (lwip/core/tcp.c): the control blocks of TCP, their four lists, ports, windows and timers;
    the output half (tcp_out.c) is the record of parameters \<open>tcp_out\<close>.
  \<^item> Key (HARDWARE/KEY/key.c): the scan of the keys. Tcp_Udp_Server
    (LWIP/lwip_app/tcp_udp_server/tcp_udp_server.c): the server, the callbacks of its two protocols
    and its main loop; its state \<open>server\<close> is the top layer of the stack.
  \<^item> Tcp_Lists: what the lists of control blocks promise: binding, the search for a port, and the
    recycling of connections in TIME-WAIT. Tcp_Timers: the receive window, and the two timers on
    an idle server and on one where the fast timer never returns.
  \<^item> Server_Send: the transmit path of the server under a contract for the output half of TCP.

  \<^bold>\<open>Conventions.\<close> A pointer is an \<open>int\<close>, \<open>NULL\<close> is 0; \<open>u8\<close>, \<open>u16\<close>, \<open>u32\<close> are words that wrap
  as the code's integers do. \<open>None\<close> as the result of an operation is undefined behaviour or a loop
  that does not return (\<open>partial_function\<close>); error codes and null results of the code are values.
  The properties state that the result is \<open>Some\<close>. Headers of packets are octets at offsets in
  memory, loaded and stored as on the little-endian target. \<open>LWIP_ASSERT\<close> only prints and
  the statistics are empty. Where a proof needs a number of iterations it is taken from the
  invariant (chains of distinct pbufs, lists of blocks, rings of distinct nodes): no fuel is used.

  \<^bold>\<open>What the lemmas show.\<close> For each memory manager: a representation invariant, kept by every
  operation, that ties the concrete tables and lists to a set of live blocks, from which disjointness,
  exact exhaustion and coalescing follow for every history. For packets: \<open>packet\<close> relates a chain to
  its pbufs (with the invariant of \<open>tot_len\<close>), \<open>content\<close> gives its octets, \<open>pool_rep\<close> the pool they
  come from. For the driver: \<open>rx_ring\<close> relates the descriptors to the frames that wait, in order. For
  ARP: \<open>arp_ok\<close>, an invariant of every history of frames, packets and ticks. The run lemmas
  (\<open>*_run\<close>) give the result of an operation on well-formed input and are composed to properties
  from frame to frame. Several properties state defects, found while proving the correct ones: an initialisation
  that can never succeed again, sizes that wrap, a search that misses matches.

  \<^bold>\<open>Not modelled.\<close>
  \<^item> The segment engine of TCP (lwip/core/tcp_in.c, tcp_out.c; 3,200 lines) and timers.c: tcp.c and the
    server see it through the operations they call, and those are parameters; the properties of
    the server name what they rely on as a hypothesis.
  \<^item> Reassembly and fragmentation (lwip/core/ipv4/ip_frag.c, except the release of its custom
    pbufs), the DHCP client (dhcp.c) and the interface list (netif.c, init.c): parameters of the
    layers that call them.
  \<^item> Parts of lwIP that this configuration does not compile or call: snmp, igmp, autoip, dns, IPv6,
    ppp, slipif, the socket API (api/), sys.c and sys_arch.c; \<open>ip_forward\<close>, UDP-Lite.
  \<^item> Register set-up of clocks, pins, MAC, PHY, timer, external RAM, LED and UART, delays, the vendor libraries (FWLIB,
    CORE, USER/stm32f4xx*): pure input and output with no state of the program. The DMA is modelled
    by its effect on the descriptors.
  \<^item> Interrupts are not interleaved with the main loop: an interrupt runs between two operations.
\<close>

end
